(* ===== verification/Prelude.thy ===== *)
theory Prelude
  imports Main "HOL-Library.Word" "HOL-Library.Char_ord" "HOL-Library.List_Lexorder"
begin

text \<open>
  Shared vocabulary of the development: the machine integers of the Rust sources as
  fixed-width words, byte strings, little-endian encoding as \<^verbatim>\<open>to_le_bytes\<close> and
  \<^verbatim>\<open>from_le_bytes\<close> compute it, slices that fail out of range, and the lemma
  collections the component theories fill.
\<close>

unbundle bit_operations_syntax

type_synonym u8 = "8 word"
type_synonym u16 = "16 word"
type_synonym u32 = "32 word"
type_synonym u64 = "64 word"
type_synonym bytes = "u8 list"

named_theorems codec_simps \<open>unfolding rules of the byte codecs\<close>
named_theorems wp_intros \<open>introduction rules of the file system Hoare triples\<close>
named_theorems fs_simps \<open>how the primitive file system updates act on the observers\<close>

section \<open>Little-endian integers\<close>

text \<open>\<^verbatim>\<open>to_le_bytes\<close> writes the low byte first; the first argument is the width in bytes.\<close>

primrec to_le :: "nat \<Rightarrow> 'a::len word \<Rightarrow> bytes" where
  "to_le 0 w = []"
| "to_le (Suc n) w = ucast w # to_le n (drop_bit 8 w)"

primrec from_le :: "bytes \<Rightarrow> 'a::len word" where
  "from_le [] = 0"
| "from_le (b # bs) = ucast b OR push_bit 8 (from_le bs)"

lemma length_to_le [simp]: "length (to_le n w) = n"
  by (induction n arbitrary: w) auto

lemma from_le_to_le_take: "from_le (to_le n w) = (take_bit (8 * n) w :: 'a::len word)"
proof (induction n arbitrary: w)
  case 0
  then show ?case by simp
next
  case (Suc n)
  have "from_le (to_le (Suc n) w) = (ucast (ucast w :: u8) OR push_bit 8 (take_bit (8 * n) (drop_bit 8 w)) :: 'a word)"
    by (simp add: Suc)
  also have "\<dots> = take_bit (8 * Suc n) w"
    by (rule bit_word_eqI) (auto simp: bit_simps)
  finally show ?case .
qed

lemma from_le_to_le [simp]:
  "LENGTH('a) \<le> 8 * n \<Longrightarrow> from_le (to_le n w) = (w :: 'a::len word)"
  by (simp add: from_le_to_le_take take_bit_word_eq_self)

lemma to_le_from_le:
  fixes bs :: bytes
  assumes "8 * length bs \<le> LENGTH('a::len)"
  shows "to_le (length bs) (from_le bs :: 'a word) = bs"
  using assms
proof (induction bs)
  case Nil
  then show ?case by simp
next
  case (Cons b bs)
  have b: "ucast (ucast b OR push_bit 8 (from_le bs) :: 'a word) = b"
    using Cons.prems by (intro bit_word_eqI) (auto simp: bit_simps)
  have low: "8 * length bs + 8 \<le> LENGTH('a)"
    using Cons.prems by simp
  have "drop_bit 8 (ucast b OR push_bit 8 (from_le bs) :: 'a word) = take_bit (LENGTH('a) - 8) (from_le bs)"
    by (rule bit_word_eqI) (use low in \<open>auto simp: bit_simps dest: bit_imp_le_length\<close>)
  moreover have "to_le n (take_bit m w) = to_le n w" if "8 * n \<le> m" for n m and w :: "'a word"
    using that
  proof (induction n arbitrary: m w)
    case (Suc n)
    have "ucast (take_bit m w) = (ucast w :: u8)"
      using Suc.prems by (intro bit_word_eqI) (auto simp: bit_simps)
    moreover have "drop_bit 8 (take_bit m w) = take_bit (m - 8) (drop_bit 8 w)"
      by (simp add: drop_bit_take_bit)
    ultimately show ?case using Suc by simp
  qed simp
  ultimately show ?case using Cons low b by simp
qed

lemma inj_to_le: "LENGTH('a) \<le> 8 * n \<Longrightarrow> to_le n v = to_le n w \<longleftrightarrow> v = (w :: 'a::len word)"
  by (metis from_le_to_le)

section \<open>Exclusive or\<close>

lemma word_xor_cancel_left [simp]: "a XOR b = a XOR c \<longleftrightarrow> b = c" for a b c :: "'a::len word"
proof
  assume "a XOR b = a XOR c"
  then have "a XOR (a XOR b) = a XOR (a XOR c)" by simp
  then show "b = c" by (simp add: xor.assoc [symmetric])
qed simp

lemma word_xor_cancel_right [simp]: "b XOR a = c XOR a \<longleftrightarrow> b = c" for a b c :: "'a::len word"
  by (simp add: xor.commute [of _ a])

section \<open>Slices\<close>

text \<open>The sub-slice \<^verbatim>\<open>&bs[i..j]\<close>; every use below is guarded by the length check the code makes.\<close>

definition subslice :: "nat \<Rightarrow> nat \<Rightarrow> 'a list \<Rightarrow> 'a list" where
  "subslice i j xs = take (j - i) (drop i xs)"

lemma length_subslice [simp]: "length (subslice i j xs) = min (length xs - i) (j - i)"
  by (simp add: subslice_def min.commute)

lemma subslice_append_left: "j \<le> length xs \<Longrightarrow> subslice i j (xs @ ys) = subslice i j xs"
  by (simp add: subslice_def)

lemma subslice_skip: "length xs = n \<Longrightarrow> n \<le> i \<Longrightarrow> subslice i j (xs @ ys) = subslice (i - n) (j - n) ys"
  by (simp add: subslice_def)

lemma subslice_take: "subslice 0 j xs = take j xs"
  by (simp add: subslice_def)

lemma subslice_exact: "length xs = j \<Longrightarrow> subslice 0 j (xs @ ys) = xs"
  by (simp add: subslice_def)

section \<open>Ordered maps\<close>

text \<open>A \<^verbatim>\<open>BTreeMap\<close> as its sorted list of entries.\<close>

fun bt_insert :: "'k::linorder \<Rightarrow> 'v \<Rightarrow> ('k \<times> 'v) list \<Rightarrow> ('k \<times> 'v) list" where
  "bt_insert k v [] = [(k, v)]"
| "bt_insert k v ((a, b) # m) =
     (if k < a then (k, v) # (a, b) # m
      else if k = a then (k, v) # m
      else (a, b) # bt_insert k v m)"

definition bt_sorted :: "('k::linorder \<times> 'v) list \<Rightarrow> bool" where
  "bt_sorted m \<longleftrightarrow> sorted_wrt (<) (map fst m)"

lemma keys_bt_insert: "set (map fst (bt_insert k v m)) = insert k (set (map fst m))"
  by (induction k v m rule: bt_insert.induct) auto

lemma bt_sorted_insert [simp]: "bt_sorted m \<Longrightarrow> bt_sorted (bt_insert k v m)"
  unfolding bt_sorted_def
proof (induction k v m rule: bt_insert.induct)
  case (2 k v a b m)
  then show ?case using keys_bt_insert [of k v m] by auto
qed simp

lemma map_of_bt_insert [simp]: "bt_sorted m \<Longrightarrow> map_of (bt_insert k v m) = (map_of m)(k \<mapsto> v)"
proof (induction k v m rule: bt_insert.induct)
  case (2 k v a b m)
  then have "bt_sorted m" by (simp add: bt_sorted_def)
  with 2 show ?case by (auto simp: fun_eq_iff)
qed simp

lemma bt_insert_last: "\<forall>a \<in> set (map fst m). a < k \<Longrightarrow> bt_insert k v m = m @ [(k, v)]"
  by (induction m) auto

lemma fold_bt_insert_sorted:
  "bt_sorted (m @ xs) \<Longrightarrow> fold (\<lambda>(k, v) m. bt_insert k v m) xs m = m @ xs"
proof (induction xs arbitrary: m)
  case (Cons p xs)
  have "\<forall>a \<in> set (map fst m). a < fst p"
    using Cons.prems by (auto simp: bt_sorted_def sorted_wrt_append)
  then have "bt_insert (fst p) (snd p) m = m @ [p]"
    using bt_insert_last [of m "fst p" "snd p"] by simp
  then show ?case
    using Cons.IH [of "m @ [p]"] Cons.prems by (simp add: case_prod_unfold)
qed simp

end
