(* ===== verification/CatalogClaim.thy ===== *)
theory CatalogClaim
  imports Prelude
begin

text \<open>
  The segment catalog of \<^verbatim>\<open>crates/loglake-storage/src/catalog_claim.rs\<close>, through which drains on different
  machines claim WAL segments: one definition per SQL statement or transaction, over the tables as
  lists of rows and maps by primary key. A statement takes the claimer and the reading of the clock
  as arguments; milliseconds are integers, and counts are taken to fit their columns. A statement that fails leaves the tables alone, so a
  method that stops half way is a prefix of its statements. \<^verbatim>\<open>ORDER BY\<close> keeps the table order of ties.
\<close>

section \<open>Tables\<close>

datatype Dialect = Sqlite | Postgres

datatype status = Sealed | Processing | Committed | Quarantined

record seg_row =
  r_id :: string
  r_tenant :: string
  r_index_id :: string
  r_segment_url :: string
  r_bytes :: int
  r_rows :: int
  r_status :: status
  r_attempts :: nat
  r_not_before_ms :: "int option"
  r_claimer :: "string option"
  r_claimed_at_ms :: "int option"
  r_committed_at_ms :: "int option"
  r_registered_at_ms :: int

record lease =
  l_holder :: string
  l_purpose :: string
  l_acquired_at_ms :: int
  l_expires_at_ms :: int

record MirrorSyncCursor =
  mc_last_key :: "string option"
  mc_rotation :: nat
  mc_rotation_started_at_ms :: "int option"
  mc_rotation_objects_examined :: nat
  mc_last_completed_at_ms :: "int option"

record ConsumedProofWatermark =
  acknowledged_through_ms :: int
  wm_table_uuid :: "string option"

record catalog =
  wal_segments :: "seg_row list"
  table_leases :: "string \<rightharpoonup> lease"
  mirror_sync_cursors :: "string \<rightharpoonup> MirrorSyncCursor"
  watermarks :: "string \<times> string \<rightharpoonup> ConsumedProofWatermark"

definition empty_catalog :: catalog where
  "empty_catalog = \<lparr>wal_segments = [], table_leases = Map.empty, mirror_sync_cursors = Map.empty, watermarks = Map.empty\<rparr>"

text \<open>\<^verbatim>\<open>UPDATE\<close> of the segment table: how many rows matched, and the table.\<close>

definition sql_update :: "(seg_row \<Rightarrow> bool) \<Rightarrow> (seg_row \<Rightarrow> seg_row) \<Rightarrow> catalog \<Rightarrow> nat \<times> catalog" where
  "sql_update p f c =
     (length (filter p (wal_segments c)), c\<lparr>wal_segments := map (\<lambda>r. if p r then f r else r) (wal_segments c)\<rparr>)"

definition sql_insert :: "seg_row \<Rightarrow> catalog \<Rightarrow> nat \<times> catalog" where
  "sql_insert row c =
     (if r_id row \<in> set (map r_id (wal_segments c)) then (0, c)
      else (1, c\<lparr>wal_segments := wal_segments c @ [row]\<rparr>))"

definition sql_delete :: "(seg_row \<Rightarrow> bool) \<Rightarrow> catalog \<Rightarrow> nat \<times> catalog" where
  "sql_delete p c =
     (length (filter p (wal_segments c)), c\<lparr>wal_segments := filter (\<lambda>r. \<not> p r) (wal_segments c)\<rparr>)"

section \<open>Registration and claims\<close>

definition register :: "int \<Rightarrow> string \<Rightarrow> string \<Rightarrow> string \<Rightarrow> string \<Rightarrow> int \<Rightarrow> int \<Rightarrow> catalog \<Rightarrow> bool \<times> catalog" where
  "register now sid tenant index_id url bytes rows c =
     (let (n, c) = sql_insert \<lparr>r_id = sid, r_tenant = tenant, r_index_id = index_id, r_segment_url = url, r_bytes = bytes,
            r_rows = rows, r_status = Sealed, r_attempts = 0, r_not_before_ms = None, r_claimer = None,
            r_claimed_at_ms = None, r_committed_at_ms = None, r_registered_at_ms = now\<rparr> c in
      (n > 0, c))"

definition index_shard :: "bytes \<Rightarrow> nat \<Rightarrow> nat" where
  "index_shard index_id shard_count =
     nat (uint (fold (\<lambda>b h. (h XOR ucast b) * 0x100000001b3) index_id (0xcbf29ce484222325 :: u64)) mod int shard_count)"

definition utf8_bytes :: "string \<Rightarrow> bytes" where
  "utf8_bytes s = map of_char s"

definition claimable :: "int \<Rightarrow> seg_row \<Rightarrow> bool" where
  "claimable now r \<longleftrightarrow> r_status r = Sealed \<and> (case r_not_before_ms r of None \<Rightarrow> True | Some t \<Rightarrow> t \<le> now)"

definition claim_row :: "string \<Rightarrow> int \<Rightarrow> seg_row \<Rightarrow> seg_row" where
  "claim_row me now r = r\<lparr>r_status := Processing, r_claimer := Some me, r_claimed_at_ms := Some now\<rparr>"

text \<open>The candidates, oldest first; \<open>locked\<close> are the rows other transactions hold, which \<^verbatim>\<open>SKIP LOCKED\<close>
  passes over.\<close>

definition oldest_claimable :: "int \<Rightarrow> nat \<Rightarrow> string list \<Rightarrow> catalog \<Rightarrow> seg_row list" where
  "oldest_claimable now limit locked c =
     take limit (sort_key r_registered_at_ms (filter (\<lambda>r. claimable now r \<and> r_id r \<notin> set locked) (wal_segments c)))"

definition claim_statement :: "string \<Rightarrow> int \<Rightarrow> nat \<Rightarrow> string list \<Rightarrow> catalog \<Rightarrow> seg_row list \<times> catalog" where
  "claim_statement me now limit locked c =
     (let ids = map r_id (oldest_claimable now limit locked c);
          (_, c') = sql_update (\<lambda>r. r_id r \<in> set ids) (claim_row me now) c in
      (filter (\<lambda>r. r_id r \<in> set ids) (wal_segments c'), c'))"

definition RELEASE_MAX_ATTEMPTS :: nat where "RELEASE_MAX_ATTEMPTS = 12"

definition mine :: "string \<Rightarrow> string \<Rightarrow> seg_row \<Rightarrow> bool" where
  "mine me sid r \<longleftrightarrow> r_id r = sid \<and> r_status r = Processing \<and> r_claimer r = Some me"

definition release_row :: "int \<Rightarrow> nat \<Rightarrow> seg_row \<Rightarrow> seg_row" where
  "release_row now max_attempts r =
     r\<lparr>r_status := (if r_attempts r + 1 \<ge> max_attempts then Quarantined else Sealed),
       r_attempts := r_attempts r + 1,
       r_not_before_ms := Some (now + (if r_attempts r \<ge> 8 then 300000 else 1000 * 2 ^ r_attempts r)),
       r_claimer := None, r_claimed_at_ms := None\<rparr>"

definition release_with_backoff :: "string \<Rightarrow> int \<Rightarrow> string \<Rightarrow> nat \<Rightarrow> catalog \<Rightarrow> catalog" where
  "release_with_backoff me now sid max_attempts c = snd (sql_update (mine me sid) (release_row now max_attempts) c)"

definition release :: "string \<Rightarrow> int \<Rightarrow> string \<Rightarrow> catalog \<Rightarrow> catalog" where
  "release me now sid c = release_with_backoff me now sid RELEASE_MAX_ATTEMPTS c"

text \<open>The Postgres claim: one statement, then a release of every row of another shard. \<open>rel_now\<close> is the
  clock at each release.\<close>

definition owns_shard :: "nat \<Rightarrow> nat \<Rightarrow> seg_row \<Rightarrow> bool" where
  "owns_shard shard_index shard_count r \<longleftrightarrow>
     shard_count = 1 \<or> index_shard (utf8_bytes (r_index_id r)) shard_count = shard_index"

definition claim_fetch :: "nat \<Rightarrow> nat \<Rightarrow> nat" where
  "claim_fetch batch shard_count =
     nat (min (min (2 ^ 64 - 1) (int batch * int shard_count)) (min (2 ^ 64 - 1) (int batch * 16)))"

definition try_claim_postgres ::
  "string \<Rightarrow> int \<Rightarrow> (string \<Rightarrow> int) \<Rightarrow> nat \<Rightarrow> nat \<Rightarrow> nat \<Rightarrow> string list \<Rightarrow> catalog \<Rightarrow> seg_row list \<times> catalog" where
  "try_claim_postgres me now rel_now batch shard_index shard_count locked c =
     (if batch = 0 then ([], c)
      else
        let shard_count = max shard_count 1;
            shard_index = (if shard_count = 1 then 0 else shard_index mod shard_count);
            (claimed, c) = claim_statement me now (claim_fetch batch shard_count) locked c;
            (own, theirs) = partition (owns_shard shard_index shard_count) claimed in
        (own, fold (\<lambda>r. release me (rel_now (r_id r)) (r_id r)) theirs c))"

text \<open>The SQLite claim: a select, then one update per candidate that still has to be sealed. \<open>clock\<close> is
  the reading at each update.\<close>

definition claim_one :: "string \<Rightarrow> int \<Rightarrow> string \<Rightarrow> catalog \<Rightarrow> nat \<times> catalog" where
  "claim_one me now sid c = sql_update (\<lambda>r. r_id r = sid \<and> r_status r = Sealed) (claim_row me now) c"

fun claim_each :: "string \<Rightarrow> (string \<Rightarrow> int) \<Rightarrow> seg_row list \<Rightarrow> catalog \<Rightarrow> seg_row list \<times> catalog" where
  "claim_each me clock [] c = ([], c)"
| "claim_each me clock (r # rs) c =
     (let (n, c) = claim_one me (clock (r_id r)) (r_id r) c;
          (out, c) = claim_each me clock rs c in
      (if n = 1 then claim_row me (clock (r_id r)) r # out else out, c))"

definition try_claim_sqlite ::
  "string \<Rightarrow> int \<Rightarrow> (string \<Rightarrow> int) \<Rightarrow> nat \<Rightarrow> nat \<Rightarrow> nat \<Rightarrow> catalog \<Rightarrow> seg_row list \<times> catalog" where
  "try_claim_sqlite me now clock batch shard_index shard_count c =
     (if batch = 0 then ([], c)
      else
        let shard_count = max shard_count 1;
            shard_index = (if shard_count = 1 then 0 else shard_index mod shard_count);
            candidates = filter (owns_shard shard_index shard_count)
              (oldest_claimable now (claim_fetch batch shard_count) [] c) in
        claim_each me clock candidates c)"

definition try_claim_sharded ::
  "Dialect \<Rightarrow> string \<Rightarrow> int \<Rightarrow> (string \<Rightarrow> int) \<Rightarrow> nat \<Rightarrow> nat \<Rightarrow> nat \<Rightarrow> string list \<Rightarrow> catalog \<Rightarrow> seg_row list \<times> catalog" where
  "try_claim_sharded dialect me now clock batch shard_index shard_count locked c =
     (case dialect of
        Postgres \<Rightarrow> try_claim_postgres me now clock batch shard_index shard_count locked c
      | Sqlite \<Rightarrow> try_claim_sqlite me now clock batch shard_index shard_count c)"

definition try_claim :: "Dialect \<Rightarrow> string \<Rightarrow> int \<Rightarrow> (string \<Rightarrow> int) \<Rightarrow> nat \<Rightarrow> string list \<Rightarrow> catalog \<Rightarrow> seg_row list \<times> catalog" where
  "try_claim dialect me now clock batch locked c = try_claim_sharded dialect me now clock batch 0 1 locked c"

definition try_claim_eligible :: "Dialect \<Rightarrow> string \<Rightarrow> int \<Rightarrow> nat \<Rightarrow> int \<Rightarrow> int \<Rightarrow> string list \<Rightarrow> catalog \<Rightarrow> seg_row list \<times> catalog" where
  "try_claim_eligible dialect me now batch target_bytes max_age locked c =
     (if batch = 0 \<or> dialect \<noteq> Postgres then ([], c)
      else
        let cand = oldest_claimable now batch locked c;
            total_bytes = sum_list (map r_bytes cand);
            oldest_ms = (if cand = [] then now else Min (set (map r_registered_at_ms cand))) in
        if total_bytes \<ge> target_bytes \<or> now - oldest_ms \<ge> max_age then claim_statement me now batch locked c
        else ([], c))"

section \<open>Queue readings\<close>

record PendingStats =
  ps_segments :: nat
  ps_bytes :: nat
  ps_rows :: nat
  ps_oldest_age :: nat

definition stats_of :: "int \<Rightarrow> seg_row list \<Rightarrow> PendingStats" where
  "stats_of now rs =
     \<lparr>ps_segments = length rs, ps_bytes = nat (sum_list (map r_bytes rs)), ps_rows = nat (sum_list (map r_rows rs)),
      ps_oldest_age = (if rs = [] then 0 else nat (now - Min (set (map r_registered_at_ms rs))))\<rparr>"

definition peek_pending :: "int \<Rightarrow> catalog \<Rightarrow> PendingStats" where
  "peek_pending now c = stats_of now (filter (\<lambda>r. r_status r = Sealed) (wal_segments c))"

definition claimed_before :: "int \<Rightarrow> seg_row \<Rightarrow> bool" where
  "claimed_before cutoff r \<longleftrightarrow>
     r_status r = Processing \<and> (case r_claimed_at_ms r of None \<Rightarrow> False | Some t \<Rightarrow> t < cutoff)"

definition peek_activation_depth :: "int \<Rightarrow> int \<Rightarrow> catalog \<Rightarrow> PendingStats" where
  "peek_activation_depth now reclaim_cutoff c =
     stats_of now (filter (\<lambda>r. r_status r = Sealed \<or> claimed_before (now - reclaim_cutoff) r) (wal_segments c))"

section \<open>Commits and the consumed-proof watermark\<close>

text \<open>Which incarnation each target's commit was verified against.\<close>

type_synonym ProofProvenance = "string \<times> string \<rightharpoonup> string"

definition provenance_record :: "string \<Rightarrow> string \<Rightarrow> string \<Rightarrow> ProofProvenance \<Rightarrow> ProofProvenance" where
  "provenance_record tenant index_id table_uuid p =
     (if index_id = [] then p else p((tenant, index_id) \<mapsto> table_uuid))"

definition i64_saturating_pred :: "int \<Rightarrow> int" where
  "i64_saturating_pred x = max (- (2 ^ 63)) (x - 1)"

definition terminal_ms :: "seg_row \<Rightarrow> int" where
  "terminal_ms r =
     (case r_claimed_at_ms r of
        Some t \<Rightarrow> t
      | None \<Rightarrow> (case r_committed_at_ms r of Some t \<Rightarrow> t | None \<Rightarrow> r_registered_at_ms r))"

definition of_target :: "string \<times> string \<Rightarrow> seg_row \<Rightarrow> bool" where
  "of_target target r \<longleftrightarrow> (r_tenant r, r_index_id r) = target"

definition watermark_candidate :: "string \<times> string \<Rightarrow> catalog \<Rightarrow> int option" where
  "watermark_candidate target c =
     (let rows = filter (of_target target) (wal_segments c);
          nonterminal = filter (\<lambda>r. r_status r \<noteq> Committed) rows;
          committed = filter (\<lambda>r. r_status r = Committed) rows in
      if nonterminal \<noteq> [] then Some (i64_saturating_pred (Min (set (map r_registered_at_ms nonterminal))))
      else if committed \<noteq> [] then Some (Max (set (map terminal_ms committed)))
      else None)"

definition advance_consumed_proof_watermark :: "string option \<Rightarrow> string \<times> string \<Rightarrow> catalog \<Rightarrow> catalog" where
  "advance_consumed_proof_watermark table_uuid target c =
     (case watermark_candidate target c of
        None \<Rightarrow> c
      | Some candidate \<Rightarrow>
          (case watermarks c target of
             Some current \<Rightarrow>
               if wm_table_uuid current = table_uuid then
                 (if candidate > acknowledged_through_ms current
                  then c\<lparr>watermarks := (watermarks c)(target \<mapsto> current\<lparr>acknowledged_through_ms := candidate\<rparr>)\<rparr>
                  else c)
               else c\<lparr>watermarks := (watermarks c)(target \<mapsto> \<lparr>acknowledged_through_ms = candidate, wm_table_uuid = table_uuid\<rparr>)\<rparr>
           | None \<Rightarrow> c\<lparr>watermarks := (watermarks c)(target \<mapsto> \<lparr>acknowledged_through_ms = candidate, wm_table_uuid = table_uuid\<rparr>)\<rparr>))"

definition consumed_proof_watermark :: "string \<Rightarrow> string \<Rightarrow> catalog \<Rightarrow> ConsumedProofWatermark option" where
  "consumed_proof_watermark tenant index_id c = watermarks c (tenant, index_id)"

definition mark_committed :: "string \<Rightarrow> int \<Rightarrow> string \<Rightarrow> catalog \<Rightarrow> bool \<times> catalog" where
  "mark_committed me now sid c =
     (let (n, c) = sql_update (mine me sid) (\<lambda>r. r\<lparr>r_status := Committed, r_committed_at_ms := Some now\<rparr>) c in
      (n = 1, c))"

definition targets_of :: "string list \<Rightarrow> catalog \<Rightarrow> (string \<times> string) list" where
  "targets_of ids c =
     remdups (map (\<lambda>r. (r_tenant r, r_index_id r)) (filter (\<lambda>r. r_id r \<in> set ids) (wal_segments c)))"

definition advance_targets :: "ProofProvenance \<Rightarrow> string list \<Rightarrow> catalog \<Rightarrow> catalog" where
  "advance_targets provenance ids c =
     fold (\<lambda>target. advance_consumed_proof_watermark (provenance target) target) (targets_of ids c) c"

text \<open>One chunk is one transaction.\<close>

definition mark_committed_chunk :: "string \<Rightarrow> int \<Rightarrow> ProofProvenance \<Rightarrow> string list \<Rightarrow> catalog \<Rightarrow> catalog" where
  "mark_committed_chunk me now provenance ids c =
     (let (_, c) = sql_update (\<lambda>r. r_id r \<in> set ids \<and> r_status r = Processing \<and> r_claimer r = Some me)
            (\<lambda>r. r\<lparr>r_status := Committed, r_committed_at_ms := Some now\<rparr>) c in
      advance_targets provenance ids c)"

function chunks :: "nat \<Rightarrow> 'a list \<Rightarrow> 'a list list" where
  "chunks n xs = (if xs = [] \<or> n = 0 then [] else take n xs # chunks n (drop n xs))"
  by auto
termination by (relation "measure (\<lambda>(n, xs). length xs)") auto

declare chunks.simps [simp del]

definition mark_committed_batch :: "string \<Rightarrow> (nat \<Rightarrow> int) \<Rightarrow> ProofProvenance \<Rightarrow> string list \<Rightarrow> catalog \<Rightarrow> catalog" where
  "mark_committed_batch me clock provenance ids c =
     fold (\<lambda>(k, chunk). mark_committed_chunk me (clock k) provenance chunk) (enumerate 0 (chunks 256 ids)) c"

definition mark_reclaimed_chunk :: "int \<Rightarrow> ProofProvenance \<Rightarrow> string list \<Rightarrow> catalog \<Rightarrow> nat \<times> catalog" where
  "mark_reclaimed_chunk now provenance ids c =
     (let (n, c) = sql_update (\<lambda>r. r_id r \<in> set ids \<and> r_status r = Processing)
            (\<lambda>r. r\<lparr>r_status := Committed, r_committed_at_ms := Some now, r_claimer := None\<rparr>) c in
      (n, advance_targets provenance ids c))"

section \<open>The local drain's mark\<close>

record LocalCommittedSegment =
  lc_id :: string
  lc_tenant :: string
  lc_index_id :: string
  lc_segment_url :: string
  lc_bytes :: int

definition local_mark_update :: "int \<Rightarrow> string list \<Rightarrow> catalog \<Rightarrow> catalog" where
  "local_mark_update now ids c =
     snd (sql_update (\<lambda>r. r_id r \<in> set ids \<and> (r_status r = Sealed \<or> r_status r = Committed))
       (\<lambda>r. r\<lparr>r_status := Committed,
             r_committed_at_ms := (case r_committed_at_ms r of Some t \<Rightarrow> Some t | None \<Rightarrow> Some now)\<rparr>) c)"

definition local_mark_readback :: "string list \<Rightarrow> catalog \<Rightarrow> string list" where
  "local_mark_readback ids c =
     map r_id (filter (\<lambda>r. r_id r \<in> set ids \<and> r_status r = Committed) (wal_segments c))"

definition local_mark_insert :: "int \<Rightarrow> LocalCommittedSegment \<Rightarrow> catalog \<Rightarrow> nat \<times> catalog" where
  "local_mark_insert now s c =
     sql_insert \<lparr>r_id = lc_id s, r_tenant = lc_tenant s, r_index_id = lc_index_id s, r_segment_url = lc_segment_url s,
       r_bytes = lc_bytes s, r_rows = 0, r_status = Committed, r_attempts = 0, r_not_before_ms = None, r_claimer = None,
       r_claimed_at_ms = None, r_committed_at_ms = Some now, r_registered_at_ms = now\<rparr> c"

text \<open>\<open>clock\<close> is the reading at each insert.\<close>

fun local_mark_each :: "(string \<Rightarrow> int) \<Rightarrow> string list \<Rightarrow> LocalCommittedSegment list \<Rightarrow> catalog \<Rightarrow> string list \<times> catalog" where
  "local_mark_each clock marked [] c = ([], c)"
| "local_mark_each clock marked (s # ss) c =
     (if lc_id s \<in> set marked then
        (let (durable, c) = local_mark_each clock marked ss c in (lc_id s # durable, c))
      else
        (let (n, c) = local_mark_insert (clock (lc_id s)) s c;
             (durable, c) = local_mark_each clock marked ss c in
         (if n > 0 then lc_id s # durable else durable, c)))"

definition mark_committed_local_chunk :: "int \<Rightarrow> (string \<Rightarrow> int) \<Rightarrow> LocalCommittedSegment list \<Rightarrow> catalog \<Rightarrow> string list \<times> catalog" where
  "mark_committed_local_chunk now clock segments c =
     (let ids = map lc_id segments;
          c = local_mark_update now ids c in
      local_mark_each clock (local_mark_readback ids c) segments c)"

definition mark_committed_local ::
  "(nat \<Rightarrow> int) \<Rightarrow> (string \<Rightarrow> int) \<Rightarrow> LocalCommittedSegment list \<Rightarrow> catalog \<Rightarrow> string list \<times> catalog" where
  "mark_committed_local upd_clock clock segments c =
     fold (\<lambda>(k, chunk) (durable, c).
         let (ids, c) = mark_committed_local_chunk (upd_clock k) clock chunk c in (durable @ ids, c))
       (enumerate 0 (chunks 256 segments)) ([], c)"

section \<open>Leases and cursors\<close>

definition acquire_table_lease :: "string \<Rightarrow> int \<Rightarrow> string \<Rightarrow> string \<Rightarrow> int \<Rightarrow> catalog \<Rightarrow> bool \<times> catalog" where
  "acquire_table_lease me now table_id purpose ttl c =
     (let new = \<lparr>l_holder = me, l_purpose = purpose, l_acquired_at_ms = now, l_expires_at_ms = now + ttl\<rparr> in
      case table_leases c table_id of
        None \<Rightarrow> (True, c\<lparr>table_leases := (table_leases c)(table_id \<mapsto> new)\<rparr>)
      | Some l \<Rightarrow>
          if l_expires_at_ms l < now \<or> l_holder l = me
          then (True, c\<lparr>table_leases := (table_leases c)(table_id \<mapsto> new)\<rparr>) else (False, c))"

definition release_table_lease :: "string \<Rightarrow> string \<Rightarrow> catalog \<Rightarrow> catalog" where
  "release_table_lease me table_id c =
     (case table_leases c table_id of
        None \<Rightarrow> c
      | Some l \<Rightarrow> if l_holder l = me then c\<lparr>table_leases := (table_leases c)(table_id := None)\<rparr> else c)"

definition default_cursor :: MirrorSyncCursor where
  "default_cursor = \<lparr>mc_last_key = None, mc_rotation = 0, mc_rotation_started_at_ms = None,
     mc_rotation_objects_examined = 0, mc_last_completed_at_ms = None\<rparr>"

definition mirror_sync_cursor :: "string \<Rightarrow> catalog \<Rightarrow> MirrorSyncCursor" where
  "mirror_sync_cursor cursor_id c = (case mirror_sync_cursors c cursor_id of None \<Rightarrow> default_cursor | Some k \<Rightarrow> k)"

definition I64_MAX :: nat where "I64_MAX = 2 ^ 63 - 1"

text \<open>\<open>None\<close> is a refusal before the statement: a completed rotation that keeps a key, or a number that
  does not fit the column.\<close>

definition compare_and_set_mirror_sync_cursor ::
  "int \<Rightarrow> string \<Rightarrow> MirrorSyncCursor \<Rightarrow> string option \<Rightarrow> bool \<Rightarrow> nat \<Rightarrow> catalog \<Rightarrow> (bool \<times> catalog) option" where
  "compare_and_set_mirror_sync_cursor now cursor_id expected next_last_key completed_rotation page_objects c =
     (let next_rotation = mc_rotation expected + (if completed_rotation then 1 else 0);
          examined = (if mc_last_key expected \<noteq> None then mc_rotation_objects_examined expected else 0) + page_objects;
          new = \<lparr>mc_last_key = next_last_key, mc_rotation = next_rotation,
             mc_rotation_started_at_ms = (if completed_rotation then None
               else case mc_rotation_started_at_ms expected of Some t \<Rightarrow> Some t | None \<Rightarrow> Some now),
             mc_rotation_objects_examined = examined,
             mc_last_completed_at_ms = (if completed_rotation then Some now else mc_last_completed_at_ms expected)\<rparr> in
      if completed_rotation \<and> next_last_key \<noteq> None \<or> next_rotation > I64_MAX \<or> examined > I64_MAX then None
      else
        (case mirror_sync_cursors c cursor_id of
           None \<Rightarrow> Some (True, c\<lparr>mirror_sync_cursors := (mirror_sync_cursors c)(cursor_id \<mapsto> new)\<rparr>)
         | Some k \<Rightarrow>
             if mc_rotation k = mc_rotation expected \<and> mc_last_key k = mc_last_key expected
             then Some (True, c\<lparr>mirror_sync_cursors := (mirror_sync_cursors c)(cursor_id \<mapsto> new)\<rparr>)
             else Some (False, c)))"

section \<open>Retention\<close>

definition settled_before :: "int \<Rightarrow> seg_row \<Rightarrow> bool" where
  "settled_before cutoff r \<longleftrightarrow>
     r_status r = Committed \<and> (case r_committed_at_ms r of None \<Rightarrow> False | Some t \<Rightarrow> t < cutoff)"

definition committed_ms :: "seg_row \<Rightarrow> int" where
  "committed_ms r = (case r_committed_at_ms r of None \<Rightarrow> 0 | Some t \<Rightarrow> t)"

definition purgeable_committed :: "int \<Rightarrow> int \<Rightarrow> nat \<Rightarrow> catalog \<Rightarrow> (string \<times> string) list" where
  "purgeable_committed now max_age limit c =
     map (\<lambda>r. (r_id r, r_segment_url r))
       (take limit (sort_key committed_ms (filter (settled_before (now - max_age)) (wal_segments c))))"

definition committed_segment_ids :: "string \<Rightarrow> string \<Rightarrow> string list \<Rightarrow> catalog \<Rightarrow> string list" where
  "committed_segment_ids tenant index_id ids c =
     concat (map (\<lambda>chunk. map r_id (filter (\<lambda>r. of_target (tenant, index_id) r \<and> r_status r = Committed \<and> r_id r \<in> set chunk)
       (wal_segments c))) (chunks 256 ids))"

definition committed_and_settled :: "int \<Rightarrow> string list \<Rightarrow> int \<Rightarrow> catalog \<Rightarrow> string list" where
  "committed_and_settled now ids settled_for c =
     map r_id (filter (\<lambda>r. settled_before (now - settled_for) r \<and> r_id r \<in> set ids) (wal_segments c))"

definition purge_committed_chunk :: "string list \<Rightarrow> catalog \<Rightarrow> nat \<times> catalog" where
  "purge_committed_chunk ids c = sql_delete (\<lambda>r. r_status r = Committed \<and> r_id r \<in> set ids) c"

definition purge_committed_ids :: "string list \<Rightarrow> catalog \<Rightarrow> nat \<times> catalog" where
  "purge_committed_ids ids c =
     fold (\<lambda>chunk (n, c). let (m, c) = purge_committed_chunk chunk c in (n + m, c)) (chunks 256 ids) (0, c)"

definition purge_committed :: "int \<Rightarrow> int \<Rightarrow> catalog \<Rightarrow> nat \<times> catalog" where
  "purge_committed now max_age c = sql_delete (settled_before (now - max_age)) c"

section \<open>Abandoned and failing claims\<close>

definition claimed_ms :: "seg_row \<Rightarrow> int" where
  "claimed_ms r = (case r_claimed_at_ms r of None \<Rightarrow> 0 | Some t \<Rightarrow> t)"

definition abandoned_claims :: "int \<Rightarrow> int \<Rightarrow> nat \<Rightarrow> catalog \<Rightarrow> seg_row list" where
  "abandoned_claims now max_age limit c =
     take limit (sort_key claimed_ms (filter (claimed_before (now - max_age)) (wal_segments c)))"

definition requeue_row :: "seg_row \<Rightarrow> seg_row" where
  "requeue_row r = r\<lparr>r_status := Sealed, r_claimer := None, r_claimed_at_ms := None\<rparr>"

definition requeue_claim :: "string \<Rightarrow> catalog \<Rightarrow> nat \<times> catalog" where
  "requeue_claim sid c = sql_update (\<lambda>r. r_id r = sid \<and> r_status r = Processing) requeue_row c"

definition reclaim_abandoned :: "int \<Rightarrow> int \<Rightarrow> catalog \<Rightarrow> nat \<times> catalog" where
  "reclaim_abandoned now max_age c = sql_update (claimed_before (now - max_age)) requeue_row c"

definition quarantine_terminal :: "string \<Rightarrow> string \<Rightarrow> catalog \<Rightarrow> bool \<times> catalog" where
  "quarantine_terminal me sid c =
     (let (n, c) = sql_update (mine me sid)
            (\<lambda>r. r\<lparr>r_status := Quarantined, r_attempts := r_attempts r + 1, r_not_before_ms := None,
                   r_claimer := None, r_claimed_at_ms := None\<rparr>) c in
      (n \<noteq> 0, c))"

definition quarantined_count :: "catalog \<Rightarrow> nat" where
  "quarantined_count c = length (filter (\<lambda>r. r_status r = Quarantined) (wal_segments c))"

definition requeue_quarantined :: "catalog \<Rightarrow> nat \<times> catalog" where
  "requeue_quarantined c =
     sql_update (\<lambda>r. r_status r = Quarantined) (\<lambda>r. r\<lparr>r_status := Sealed, r_attempts := 0, r_not_before_ms := None\<rparr>) c"

section \<open>Statements as steps\<close>

text \<open>Any statement, of any machine, at a reading of the clock. The label is the claimer whose own claims
  the statement is restricted to, if it is.\<close>

inductive cstep :: "string option \<Rightarrow> int \<Rightarrow> catalog \<Rightarrow> catalog \<Rightarrow> bool" where
  step_register: "cstep None now c (snd (register now sid tenant index_id url bytes rows c))"
| step_claim: "cstep (Some me) now c (snd (claim_statement me now limit locked c))"
| step_claim_one: "cstep (Some me) now c (snd (claim_one me now sid c))"
| step_release: "cstep (Some me) now c (release_with_backoff me now sid max_attempts c)"
| step_mark: "cstep (Some me) now c (snd (mark_committed me now sid c))"
| step_mark_chunk: "cstep (Some me) now c (mark_committed_chunk me now provenance ids c)"
| step_quarantine: "cstep (Some me) now c (snd (quarantine_terminal me sid c))"
| step_reclaimed: "cstep None now c (snd (mark_reclaimed_chunk now provenance ids c))"
| step_local_update: "cstep None now c (local_mark_update now ids c)"
| step_local_insert: "cstep None now c (snd (local_mark_insert now s c))"
| step_requeue: "cstep None now c (snd (requeue_claim sid c))"
| step_reclaim: "cstep None now c (snd (reclaim_abandoned now max_age c))"
| step_requeue_quarantined: "cstep None now c (snd (requeue_quarantined c))"
| step_purge_chunk: "cstep None now c (snd (purge_committed_chunk ids c))"
| step_purge: "cstep None now c (snd (purge_committed now max_age c))"
| step_lease: "cstep None now c (snd (acquire_table_lease me now table_id purpose ttl c))"
| step_unlease: "cstep None now c (release_table_lease me table_id c)"
| step_cursor: "compare_and_set_mirror_sync_cursor now cursor_id expected key wrapped page c = Some (ok, c') \<Longrightarrow> cstep None now c c'"

text \<open>Executions: every statement reads a later clock than the one before.\<close>

inductive runs :: "int \<times> catalog \<Rightarrow> int \<times> catalog \<Rightarrow> bool" where
  runs_refl: "runs s s"
| runs_step: "runs s (t, c) \<Longrightarrow> t < now \<Longrightarrow> cstep who now c c' \<Longrightarrow> runs s (now, c')"

abbreviation catalog_at :: "int \<Rightarrow> catalog \<Rightarrow> bool" where
  "catalog_at t c \<equiv> runs (0, empty_catalog) (t, c)"

lemma runs_trans: "runs b c \<Longrightarrow> runs a b \<Longrightarrow> runs a c"
  by (induction rule: runs.induct) (auto intro: runs_step)

lemma runs_time: "runs a b \<Longrightarrow> fst a \<le> fst b"
  by (induction rule: runs.induct) auto

section \<open>What a statement does to a row\<close>

inductive row_step :: "string option \<Rightarrow> int \<Rightarrow> seg_row \<Rightarrow> seg_row \<Rightarrow> bool" where
  row_keep: "row_step who now r r"
| row_claim: "r_status r = Sealed \<Longrightarrow> row_step (Some me) now r (claim_row me now r)"
| row_commit: "r_status r = Processing \<Longrightarrow> r_claimer r = Some me \<Longrightarrow>
    row_step (Some me) now r (r\<lparr>r_status := Committed, r_committed_at_ms := Some now\<rparr>)"
| row_give_back: "r_status r = Processing \<Longrightarrow> r_claimer r = Some me \<Longrightarrow> st = Sealed \<or> st = Quarantined \<Longrightarrow>
    row_step (Some me) now r (r\<lparr>r_status := st, r_attempts := a, r_not_before_ms := nb, r_claimer := None, r_claimed_at_ms := None\<rparr>)"
| row_requeue: "r_status r = Processing \<Longrightarrow> row_step None now r (requeue_row r)"
| row_reclaimed: "r_status r = Processing \<Longrightarrow>
    row_step None now r (r\<lparr>r_status := Committed, r_committed_at_ms := Some now, r_claimer := None\<rparr>)"
| row_local: "r_status r = Sealed \<or> r_status r = Committed \<Longrightarrow>
    row_step None now r (r\<lparr>r_status := Committed,
      r_committed_at_ms := (case r_committed_at_ms r of Some t \<Rightarrow> Some t | None \<Rightarrow> Some now)\<rparr>)"
| row_unquarantine: "r_status r = Quarantined \<Longrightarrow>
    row_step None now r (r\<lparr>r_status := Sealed, r_attempts := 0, r_not_before_ms := None\<rparr>)"

definition fresh_row :: "int \<Rightarrow> seg_row \<Rightarrow> bool" where
  "fresh_row now r \<longleftrightarrow> r_registered_at_ms r = now \<and> r_claimer r = None \<and> r_claimed_at_ms r = None \<and>
     (r_status r = Sealed \<and> r_committed_at_ms r = None \<or> r_status r = Committed \<and> r_committed_at_ms r = Some now)"

text \<open>How the table may change: rows take a step or are purged, which only committed ones are, and at
  most one row with a new id is added.\<close>

definition evolves :: "string option \<Rightarrow> int \<Rightarrow> seg_row list \<Rightarrow> seg_row list \<Rightarrow> bool" where
  "evolves who now rows rows' \<longleftrightarrow>
     (\<exists>g keep new. rows' = map g (filter keep rows) @ new \<and> (\<forall>r \<in> set rows. row_step who now r (g r)) \<and>
        (\<forall>r \<in> set rows. \<not> keep r \<longrightarrow> r_status r = Committed) \<and>
        (new = [] \<or> (\<exists>x. new = [x] \<and> r_id x \<notin> r_id ` set rows \<and> fresh_row now x)))"

lemma evolves_refl: "evolves who now rows rows"
  unfolding evolves_def by (rule exI [of _ "\<lambda>r. r"], rule exI [of _ "\<lambda>r. True"]) (auto intro: row_keep)

lemma evolves_update:
  assumes "\<And>r. r \<in> set (wal_segments c) \<Longrightarrow> p r \<Longrightarrow> row_step who now r (f r)"
  shows "evolves who now (wal_segments c) (wal_segments (snd (sql_update p f c)))"
  unfolding evolves_def sql_update_def
  by (rule exI [of _ "\<lambda>r. if p r then f r else r"], rule exI [of _ "\<lambda>r. True"]) (auto intro: row_keep assms)

lemma evolves_insert:
  assumes "fresh_row now row"
  shows "evolves who now (wal_segments c) (wal_segments (snd (sql_insert row c)))"
proof (cases "r_id row \<in> set (map r_id (wal_segments c))")
  case True
  then show ?thesis by (simp add: sql_insert_def evolves_refl)
next
  case False
  then show ?thesis unfolding evolves_def sql_insert_def
    by (intro exI [of _ "\<lambda>r. r"] exI [of _ "\<lambda>r. True"] exI [of _ "[row]"]) (use assms in \<open>auto intro: row_keep\<close>)
qed

lemma evolves_delete:
  assumes "\<And>r. p r \<Longrightarrow> r_status r = Committed"
  shows "evolves who now (wal_segments c) (wal_segments (snd (sql_delete p c)))"
  unfolding evolves_def sql_delete_def
  by (intro exI [of _ "\<lambda>r. r"] exI [of _ "\<lambda>r. \<not> p r"] exI [of _ "[]"]) (use assms in \<open>auto intro: row_keep\<close>)

lemma advance_rows [simp]: "wal_segments (advance_consumed_proof_watermark u target c) = wal_segments c"
  by (simp add: advance_consumed_proof_watermark_def split: option.splits)

lemma advance_targets_rows [simp]: "wal_segments (advance_targets provenance ids c) = wal_segments c"
proof -
  have "wal_segments (fold (\<lambda>target. advance_consumed_proof_watermark (provenance target) target) ts d) = wal_segments d" for ts d
    by (induction ts arbitrary: d) simp_all
  then show ?thesis by (simp add: advance_targets_def)
qed

lemma claimable_ids:
  "sid \<in> set (map r_id (oldest_claimable now limit locked c)) \<Longrightarrow> \<exists>r \<in> set (wal_segments c). r_id r = sid \<and> r_status r = Sealed"
  by (auto simp: oldest_claimable_def claimable_def dest!: in_set_takeD)

lemma cstep_evolves:
  assumes "cstep who now c c'" and "distinct (map r_id (wal_segments c))"
  shows "evolves who now (wal_segments c) (wal_segments c')"
  using assms(1)
proof cases
  case (step_register sid tenant index_id url bytes rows)
  then show ?thesis by (auto simp: register_def Let_def case_prod_beta fresh_row_def intro!: evolves_insert)
next
  case (step_claim me limit locked)
  have "r_status r = Sealed" if "r \<in> set (wal_segments c)" "r_id r \<in> set (map r_id (oldest_claimable now limit locked c))" for r
    using claimable_ids [OF that(2)] that(1) assms(2) by (auto simp: distinct_map inj_on_def)
  then show ?thesis unfolding step_claim claim_statement_def Let_def case_prod_beta snd_conv
    by (intro evolves_update) (auto intro: row_claim)
next
  case (step_claim_one me sid)
  then show ?thesis by (auto simp: claim_one_def intro!: evolves_update row_claim)
next
  case (step_release me sid max_attempts)
  then show ?thesis by (auto simp: release_with_backoff_def release_row_def mine_def intro!: evolves_update row_give_back)
next
  case (step_mark me sid)
  then show ?thesis by (auto simp: mark_committed_def Let_def case_prod_beta mine_def intro!: evolves_update row_commit)
next
  case (step_mark_chunk me provenance ids)
  then show ?thesis by (auto simp: mark_committed_chunk_def Let_def case_prod_beta intro!: evolves_update row_commit)
next
  case (step_quarantine me sid)
  then show ?thesis by (auto simp: quarantine_terminal_def Let_def case_prod_beta mine_def intro!: evolves_update row_give_back)
next
  case (step_reclaimed provenance ids)
  then show ?thesis by (auto simp: mark_reclaimed_chunk_def Let_def case_prod_beta intro!: evolves_update row_reclaimed)
next
  case (step_local_update ids)
  then show ?thesis by (auto simp: local_mark_update_def intro!: evolves_update row_local)
next
  case (step_local_insert s)
  then show ?thesis by (auto simp: local_mark_insert_def fresh_row_def intro!: evolves_insert)
next
  case (step_requeue sid)
  then show ?thesis by (auto simp: requeue_claim_def intro!: evolves_update row_requeue)
next
  case (step_reclaim max_age)
  then show ?thesis by (auto simp: reclaim_abandoned_def claimed_before_def intro!: evolves_update row_requeue)
next
  case step_requeue_quarantined
  then show ?thesis by (auto simp: requeue_quarantined_def intro!: evolves_update row_unquarantine)
next
  case (step_purge_chunk ids)
  then show ?thesis by (auto simp: purge_committed_chunk_def intro!: evolves_delete)
next
  case (step_purge max_age)
  then show ?thesis by (auto simp: purge_committed_def settled_before_def intro!: evolves_delete)
next
  case (step_lease me table_id purpose ttl)
  then show ?thesis by (auto simp: acquire_table_lease_def Let_def evolves_refl split: option.splits)
next
  case (step_unlease me table_id)
  then show ?thesis by (auto simp: release_table_lease_def evolves_refl split: option.splits)
next
  case (step_cursor cursor_id expected key wrapped page ok)
  then show ?thesis
    by (auto simp: compare_and_set_mirror_sync_cursor_def Let_def evolves_refl split: option.splits if_splits)
qed

section \<open>Invariants\<close>

definition row_ok :: "int \<Rightarrow> seg_row \<Rightarrow> bool" where
  "row_ok t r \<longleftrightarrow> 0 < r_registered_at_ms r \<and> r_registered_at_ms r \<le> t \<and>
     (case r_status r of
        Processing \<Rightarrow> r_claimer r \<noteq> None \<and> r_committed_at_ms r = None \<and>
          (\<exists>k. r_claimed_at_ms r = Some k \<and> r_registered_at_ms r \<le> k \<and> k \<le> t)
      | Committed \<Rightarrow> (\<exists>k. r_committed_at_ms r = Some k \<and> k \<le> t) \<and> (\<forall>k. r_claimed_at_ms r = Some k \<longrightarrow> k \<le> t)
      | _ \<Rightarrow> r_claimer r = None \<and> r_claimed_at_ms r = None \<and> r_committed_at_ms r = None)"

definition table_ok :: "int \<Rightarrow> seg_row list \<Rightarrow> bool" where
  "table_ok t rows \<longleftrightarrow> 0 \<le> t \<and> distinct (map r_id rows) \<and> (\<forall>r \<in> set rows. row_ok t r)"

lemma row_step_ok: "row_step who now r r' \<Longrightarrow> row_ok t r \<Longrightarrow> t < now \<Longrightarrow> row_ok now r'"
  by (cases rule: row_step.cases, assumption)
     (auto simp: row_ok_def claim_row_def requeue_row_def split: status.splits option.splits)

definition same_identity :: "seg_row \<Rightarrow> seg_row \<Rightarrow> bool" where
  "same_identity r r' \<longleftrightarrow> r_id r' = r_id r \<and> r_tenant r' = r_tenant r \<and> r_index_id r' = r_index_id r \<and>
     r_segment_url r' = r_segment_url r \<and> r_bytes r' = r_bytes r \<and> r_rows r' = r_rows r \<and>
     r_registered_at_ms r' = r_registered_at_ms r"

lemma row_step_identity: "row_step who now r r' \<Longrightarrow> same_identity r r'"
  by (cases rule: row_step.cases, assumption) (auto simp: same_identity_def claim_row_def requeue_row_def)

lemma row_step_committed: "row_step who now r r' \<Longrightarrow> r_status r = Committed \<Longrightarrow> row_ok t r \<Longrightarrow> r' = r"
  by (cases rule: row_step.cases, assumption) (auto simp: row_ok_def)

lemma row_step_held:
  "row_step (Some me) now r r' \<Longrightarrow> r_status r = Processing \<Longrightarrow> r_claimer r \<noteq> Some me \<Longrightarrow> r' = r"
  by (cases rule: row_step.cases, assumption) auto

lemma fresh_row_ok: "fresh_row now r \<Longrightarrow> 0 < now \<Longrightarrow> row_ok now r"
  by (auto simp: fresh_row_def row_ok_def)

lemma evolves_table_ok:
  assumes ev: "evolves who now rows rows'" and ok: "table_ok t rows" and "t < now"
  shows "table_ok now rows'"
proof -
  obtain g keep new where e: "rows' = map g (filter keep rows) @ new" "\<forall>r \<in> set rows. row_step who now r (g r)"
      "new = [] \<or> (\<exists>x. new = [x] \<and> r_id x \<notin> r_id ` set rows \<and> fresh_row now x)"
    using ev unfolding evolves_def by blast
  have ids: "map r_id (map g (filter keep rows)) = map r_id (filter keep rows)"
    using e(2) row_step_identity by (auto simp: same_identity_def)
  have d: "distinct (map r_id (filter keep rows))" using ok by (simp add: table_ok_def distinct_map_filter)
  have "map r_id rows' = map r_id (filter keep rows) @ map r_id new" unfolding e(1) map_append ids ..
  moreover have "set (map r_id (filter keep rows)) \<subseteq> r_id ` set rows" by auto
  ultimately have "distinct (map r_id rows')" using d e(3) by (elim disjE exE conjE) auto
  moreover have "row_ok now r" if "r \<in> set rows'" for r
    using that e ok assms(3) row_step_ok fresh_row_ok unfolding table_ok_def by fastforce
  ultimately show ?thesis using ok assms(3) by (simp add: table_ok_def)
qed

lemma catalog_table_ok: "catalog_at t c \<Longrightarrow> table_ok t (wal_segments c)"
proof (induction "(0 :: int, empty_catalog)" "(t, c)" arbitrary: t c rule: runs.induct)
  case runs_refl
  then show ?case by (simp add: table_ok_def empty_catalog_def)
next
  case (runs_step t c now who c')
  then have "evolves who now (wal_segments c) (wal_segments c')" using cstep_evolves by (simp add: table_ok_def)
  then show ?case using runs_step evolves_table_ok by blast
qed


definition claimed_sample :: catalog where
  "claimed_sample = snd (claim_statement ''a'' 2 1 [] (snd (register 1 ''s1'' ''acme'' [] ''wal/s1'' 10 5 empty_catalog)))"

lemma claimed_sample_at: "catalog_at 2 claimed_sample"
  unfolding claimed_sample_def by (rule runs_step [OF runs_step [OF runs_refl _ step_register] _ step_claim]) simp_all

definition claimed_row :: seg_row where
  "claimed_row = \<lparr>r_id = ''s1'', r_tenant = ''acme'', r_index_id = [], r_segment_url = ''wal/s1'', r_bytes = 10, r_rows = 5,
     r_status = Processing, r_attempts = 0, r_not_before_ms = None, r_claimer = Some ''a'', r_claimed_at_ms = Some 2,
     r_committed_at_ms = None, r_registered_at_ms = 1\<rparr>"

lemma claimed_sample_row: "claimed_row \<in> set (wal_segments claimed_sample)"
  by code_simp


section \<open>Leases\<close>

text \<open>Statements of others on one lease, at times up to \<open>until\<close>.\<close>

inductive others :: "string \<Rightarrow> string \<Rightarrow> int \<Rightarrow> catalog \<Rightarrow> catalog \<Rightarrow> bool" for me table_id until where
  others_refl: "others me table_id until c c"
| others_acquire: "others me table_id until c d \<Longrightarrow> you \<noteq> me \<Longrightarrow> now \<le> until \<Longrightarrow>
    others me table_id until c (snd (acquire_table_lease you now t purpose ttl d))"
| others_release: "others me table_id until c d \<Longrightarrow> you \<noteq> me \<Longrightarrow> others me table_id until c (release_table_lease you t d)"
| others_segments: "others me table_id until c d \<Longrightarrow> table_leases d' = table_leases d \<Longrightarrow> others me table_id until c d'"

lemma others_keep_lease:
  "others me table_id until c d \<Longrightarrow> table_leases c table_id = Some l \<Longrightarrow> l_holder l = me \<Longrightarrow> l_expires_at_ms l = until \<Longrightarrow>
    table_leases d table_id = Some l"
  by (induction rule: others.induct) (auto simp: acquire_table_lease_def release_table_lease_def Let_def split: option.splits if_splits)

text \<open>A table lease excludes everyone else until it expires: after a successful acquire, whatever the
  others do up to the expiry, none of them gets the lease and the holder's stays; the holder can
  renew it at any time, and once it has expired another one can take it.\<close>

lemma lease_excludes:
  assumes got: "acquire_table_lease me now table_id purpose ttl c = (True, c1)" and run: "others me table_id (now + ttl) c1 d"
    and "you \<noteq> me"
  shows "(later \<le> now + ttl \<longrightarrow> acquire_table_lease you later table_id purpose' ttl' d = (False, d)) \<and>
    fst (acquire_table_lease me later table_id purpose' ttl' d) \<and>
    (now + ttl < later \<longrightarrow> fst (acquire_table_lease you later table_id purpose' ttl' d))"
proof -
  let ?l = "\<lparr>l_holder = me, l_purpose = purpose, l_acquired_at_ms = now, l_expires_at_ms = now + ttl\<rparr>"
  have "table_leases c1 table_id = Some ?l" using got by (auto simp: acquire_table_lease_def Let_def split: option.splits if_splits)
  then have "table_leases d table_id = Some ?l" using others_keep_lease [OF run] by simp
  then show ?thesis using assms(3) by (simp add: acquire_table_lease_def Let_def)
qed

section \<open>Claims of the wrong shard\<close>

text \<open>One cycle of a drain that owns another shard: it claims the segment and gives it back.\<close>

definition foreign_cycle :: "int \<Rightarrow> catalog \<Rightarrow> catalog" where
  "foreign_cycle now c = snd (try_claim_postgres ''d'' now (\<lambda>_. now) 1 0 2 [] c)"

text \<open>On Postgres a sharded claim gives foreign rows back through the same release that counts failures.
  A healthy segment of shard one that no drain ever tried to process is quarantined by twelve
  claims of a drain that owns shard zero.\<close>

lemma foreign_claims_quarantine:
  "map (\<lambda>r. (r_id r, r_status r, r_attempts r))
     (wal_segments (fold foreign_cycle (map (\<lambda>k. 1000000 * int k) [1..<13])
        (snd (register 1 ''s1'' ''acme'' ''b'' ''wal/s1'' 10 5 empty_catalog)))) =
   [(''s1'', Quarantined, 12)]"
  by code_simp

end
