(* ===== verification/ConsumedProof.thy ===== *)
theory ConsumedProof
  imports CatalogClaim
begin

text \<open>
  The durable proof of \<^verbatim>\<open>crates/loglake-storage/src/consumed_proof.rs\<close> that a claimed segment was committed,
  kept in a table property and compacted through the catalog's watermark. The JSON coder is an
  argument. Entries are in key order, as in a \<^verbatim>\<open>BTreeMap\<close>.
\<close>

section \<open>The proof\<close>

record ConsumedProof =
  coverage_start_ms :: "int option"
  proof_acknowledged :: "int option"
  proof_entries :: "(string \<times> int) list"

datatype ConsumedProofError = ProofOversize nat nat | ProofCorrupt

definition proof_empty :: "int option \<Rightarrow> ConsumedProof" where
  "proof_empty coverage = \<lparr>coverage_start_ms = coverage, proof_acknowledged = None, proof_entries = []\<rparr>"

definition proof_contains :: "ConsumedProof \<Rightarrow> string \<Rightarrow> bool" where
  "proof_contains p sid \<longleftrightarrow> sid \<in> fst ` set (proof_entries p)"

definition entry_count :: "ConsumedProof \<Rightarrow> nat" where
  "entry_count p = length (proof_entries p)"

definition compact_through :: "int \<Rightarrow> ConsumedProof \<Rightarrow> ConsumedProof" where
  "compact_through acknowledged p =
     (let watermark = (case proof_acknowledged p of None \<Rightarrow> acknowledged | Some current \<Rightarrow> max current acknowledged) in
      p\<lparr>proof_acknowledged := Some watermark, proof_entries := filter (\<lambda>(_, claimed_at). claimed_at > watermark) (proof_entries p)\<rparr>)"

definition prune_terminal_entries :: "string list \<Rightarrow> ConsumedProof \<Rightarrow> ConsumedProof" where
  "prune_terminal_entries terminal p =
     p\<lparr>proof_entries := filter (\<lambda>(sid, _). sid \<notin> set terminal) (proof_entries p)\<rparr>"

definition proof_insert :: "string \<Rightarrow> int \<Rightarrow> ConsumedProof \<Rightarrow> ConsumedProofError + ConsumedProof" where
  "proof_insert sid claimed_at p =
     (if sid = [] then Inl ProofCorrupt
      else
        let claimed_at = (case map_of (proof_entries p) sid of None \<Rightarrow> claimed_at | Some existing \<Rightarrow> min existing claimed_at) in
        Inr (p\<lparr>proof_entries := bt_insert sid claimed_at (proof_entries p)\<rparr>))"

section \<open>Its coding\<close>

definition CONSUMED_PROOF_MAX_BYTES :: nat where "CONSUMED_PROOF_MAX_BYTES = 1024 * 1024"
definition PROOF_FORMAT_VERSION :: nat where "PROOF_FORMAT_VERSION = 1"

record WireProof =
  w_version :: nat
  w_coverage :: "int option"
  w_acknowledged :: "int option"
  w_entries :: "(string \<times> int) list"

fun decode_entries :: "(string \<times> int) list \<Rightarrow> (string \<times> int) list \<Rightarrow> ConsumedProofError + (string \<times> int) list" where
  "decode_entries [] acc = Inr acc"
| "decode_entries ((sid, claimed_at) # es) acc =
     (if sid = [] then Inl ProofCorrupt
      else if sid \<in> fst ` set acc then Inl ProofCorrupt
      else decode_entries es (bt_insert sid claimed_at acc))"

definition proof_decode :: "(string \<Rightarrow> WireProof option) \<Rightarrow> string \<Rightarrow> ConsumedProofError + ConsumedProof" where
  "proof_decode from_json text =
     (if length text > CONSUMED_PROOF_MAX_BYTES then Inl (ProofOversize (length text) CONSUMED_PROOF_MAX_BYTES)
      else
        (case from_json text of
           None \<Rightarrow> Inl ProofCorrupt
         | Some w \<Rightarrow>
             if w_version w \<noteq> PROOF_FORMAT_VERSION then Inl ProofCorrupt
             else
               (case decode_entries (w_entries w) [] of
                  Inl e \<Rightarrow> Inl e
                | Inr es \<Rightarrow> Inr \<lparr>coverage_start_ms = w_coverage w, proof_acknowledged = w_acknowledged w, proof_entries = es\<rparr>)))"

definition proof_encode :: "(WireProof \<Rightarrow> string option) \<Rightarrow> ConsumedProof \<Rightarrow> ConsumedProofError + string" where
  "proof_encode to_json p =
     (case to_json \<lparr>w_version = PROOF_FORMAT_VERSION, w_coverage = coverage_start_ms p, w_acknowledged = proof_acknowledged p,
             w_entries = proof_entries p\<rparr> of
        None \<Rightarrow> Inl ProofCorrupt
      | Some text \<Rightarrow>
          if length text > CONSUMED_PROOF_MAX_BYTES then Inl (ProofOversize (length text) CONSUMED_PROOF_MAX_BYTES) else Inr text)"

section \<open>What is stored is what was stored\<close>

definition proof_ok :: "ConsumedProof \<Rightarrow> bool" where
  "proof_ok p \<longleftrightarrow> bt_sorted (proof_entries p) \<and> [] \<notin> fst ` set (proof_entries p)"

lemma proof_ok_empty [simp]: "proof_ok (proof_empty coverage)"
  by (simp add: proof_ok_def proof_empty_def bt_sorted_def)

lemma bt_sorted_filter: "bt_sorted m \<Longrightarrow> bt_sorted (filter q m)"
  by (simp add: bt_sorted_def sorted_wrt_map sorted_wrt_filter)

lemma proof_ok_compact: "proof_ok p \<Longrightarrow> proof_ok (compact_through w p)"
  by (auto simp: proof_ok_def compact_through_def Let_def bt_sorted_filter)

lemma proof_ok_prune: "proof_ok p \<Longrightarrow> proof_ok (prune_terminal_entries ids p)"
  by (auto simp: proof_ok_def prune_terminal_entries_def bt_sorted_filter)

lemma fst_bt_insert: "fst ` set (bt_insert k v m) = insert k (fst ` set m)"
  using keys_bt_insert [of k v m] by simp

lemma proof_insert_entry:
  assumes "proof_insert sid k p = Inr p'"
  obtains k' where "sid \<noteq> []" "p' = p\<lparr>proof_entries := bt_insert sid k' (proof_entries p)\<rparr>"
    "k' = k \<or> (sid, k') \<in> set (proof_entries p)"
proof
  show "sid \<noteq> []" "p' = p\<lparr>proof_entries := bt_insert sid (case map_of (proof_entries p) sid of None \<Rightarrow> k | Some k0 \<Rightarrow> min k0 k) (proof_entries p)\<rparr>"
    using assms by (simp_all add: proof_insert_def Let_def split: if_split_asm)
  show "(case map_of (proof_entries p) sid of None \<Rightarrow> k | Some k0 \<Rightarrow> min k0 k) = k \<or>
      (sid, case map_of (proof_entries p) sid of None \<Rightarrow> k | Some k0 \<Rightarrow> min k0 k) \<in> set (proof_entries p)"
    by (auto simp: min_def dest: map_of_SomeD split: option.splits)
qed

lemma proof_ok_insert:
  assumes "proof_ok p" and "proof_insert sid k p = Inr p'"
  shows "proof_ok p'"
  using assms(2) by (rule proof_insert_entry) (use assms(1) in \<open>simp add: proof_ok_def fst_bt_insert\<close>)

lemma decode_entries_ok:
  "decode_entries es acc = Inr m \<Longrightarrow> bt_sorted acc \<Longrightarrow> [] \<notin> fst ` set acc \<Longrightarrow> bt_sorted m \<and> [] \<notin> fst ` set m"
proof (induction es acc rule: decode_entries.induct)
  case (2 sid k es acc)
  show ?case using 2 by (simp add: fst_bt_insert split: if_splits)
qed simp

lemma decode_entries_sorted:
  "bt_sorted (acc @ es) \<Longrightarrow> [] \<notin> fst ` set es \<Longrightarrow> decode_entries es acc = Inr (acc @ es)"
proof (induction es arbitrary: acc)
  case (Cons e es)
  have below: "\<forall>a \<in> set (map fst acc). a < fst e" using Cons.prems(1) by (auto simp: bt_sorted_def sorted_wrt_append)
  then have "bt_insert (fst e) (snd e) acc = acc @ [e]" using bt_insert_last [of acc "fst e" "snd e"] by simp
  moreover have "fst e \<notin> fst ` set acc" using below by force
  ultimately show ?case using Cons.IH [of "acc @ [e]"] Cons.prems by (cases e) (simp add: eq_commute)
qed simp

lemma proof_decode_ok: "proof_decode from_json text = Inr p \<Longrightarrow> proof_ok p"
  using decode_entries_ok by (fastforce simp: proof_decode_def proof_ok_def bt_sorted_def split: if_splits option.splits sum.splits)

text \<open>What the JSON coder promises for the derived instances.\<close>

definition json_laws :: "(string \<Rightarrow> WireProof option) \<Rightarrow> (WireProof \<Rightarrow> string option) \<Rightarrow> bool" where
  "json_laws from_json to_json \<longleftrightarrow> (\<forall>w s. to_json w = Some s \<longrightarrow> from_json s = Some w)"

lemma proof_codec:
  assumes "json_laws from_json to_json" and "proof_ok p" and "proof_encode to_json p = Inr text"
  shows "proof_decode from_json text = Inr p"
  using assms(3) assms(1) decode_entries_sorted [of "[]" "proof_entries p"] assms(2)
  by (auto simp: json_laws_def proof_encode_def proof_decode_def proof_ok_def split: if_splits option.splits)

section \<open>Watermarks stay below what is not committed\<close>

definition below :: "int \<Rightarrow> string \<times> string \<Rightarrow> seg_row list \<Rightarrow> bool" where
  "below w target rows \<longleftrightarrow> (\<forall>r \<in> set rows. of_target target r \<longrightarrow> r_status r \<noteq> Committed \<longrightarrow> w < r_registered_at_ms r)"

lemma row_step_nonterminal: "row_step who now r r' \<Longrightarrow> r_status r' \<noteq> Committed \<Longrightarrow> r_status r \<noteq> Committed"
  by (cases rule: row_step.cases, assumption) auto

lemma evolves_below:
  assumes ev: "evolves who now rows rows'" and "below w target rows" and "w < now"
  shows "below w target rows'"
proof -
  obtain g keep new where e: "rows' = map g (filter keep rows) @ new" "\<forall>r \<in> set rows. row_step who now r (g r)"
      "new = [] \<or> (\<exists>x. new = [x] \<and> r_id x \<notin> r_id ` set rows \<and> fresh_row now x)"
    using ev unfolding evolves_def by blast
  show ?thesis unfolding below_def
  proof (intro ballI impI)
    fix r assume r: "r \<in> set rows'" "of_target target r" "r_status r \<noteq> Committed"
    show "w < r_registered_at_ms r"
    proof (cases "r \<in> set new")
      case True
      then show ?thesis using e(3) assms(3) by (auto simp: fresh_row_def)
    next
      case False
      then obtain x where x: "x \<in> set rows" "r = g x" using r(1) e(1) by auto
      then have st: "row_step who now x r" using e(2) by blast
      have "of_target target x" "r_registered_at_ms r = r_registered_at_ms x"
        using row_step_identity [OF st] r(2) by (auto simp: same_identity_def of_target_def)
      then show ?thesis using row_step_nonterminal [OF st r(3)] assms(2) x(1) by (auto simp: below_def)
    qed
  qed
qed

lemma candidate_below:
  assumes "table_ok t (wal_segments c)" and "watermark_candidate target c = Some w"
  shows "w \<le> t" and "below w target (wal_segments c)"
proof -
  define rows where "rows = filter (of_target target) (wal_segments c)"
  define non where "non = filter (\<lambda>r. r_status r \<noteq> Committed) rows"
  have ok: "row_ok t r" if "r \<in> set rows" for r using that assms(1) by (simp add: rows_def table_ok_def)
  have "w \<le> t \<and> below w target (wal_segments c)"
  proof (cases "non = []")
    case True
    define com where "com = filter (\<lambda>r. r_status r = Committed) rows"
    have w: "com \<noteq> []" "w = Max (set (map terminal_ms com))"
      using assms(2) True by (auto simp: watermark_candidate_def Let_def rows_def [symmetric] non_def [symmetric] com_def [symmetric] split: if_splits)
    have "w \<in> set (map terminal_ms com)" unfolding w(2) by (rule Max_in) (use w(1) in auto)
    then obtain r where r: "r \<in> set rows" "r_status r = Committed" "w = terminal_ms r" by (auto simp: com_def)
    then have "w \<le> t" using ok [OF r(1)] by (auto simp: row_ok_def terminal_ms_def split: option.splits)
    moreover have "below w target (wal_segments c)" using True by (auto simp: below_def non_def rows_def filter_empty_conv)
    ultimately show ?thesis by simp
  next
    case False
    define m where "m = Min (set (map r_registered_at_ms non))"
    have w: "w = i64_saturating_pred m"
      using assms(2) False by (simp add: watermark_candidate_def Let_def rows_def [symmetric] non_def [symmetric] m_def)
    have "m \<in> set (map r_registered_at_ms non)" unfolding m_def by (rule Min_in) (use False in auto)
    then obtain r where r: "r \<in> set rows" "m = r_registered_at_ms r" by (auto simp: non_def)
    then have m: "0 < m" "m \<le> t" using ok [OF r(1)] by (auto simp: row_ok_def)
    have "m \<le> r_registered_at_ms x" if "x \<in> set non" for x unfolding m_def by (rule Min_le) (use that in auto)
    then have "below w target (wal_segments c)" using w m(1) by (fastforce simp: below_def non_def rows_def i64_saturating_pred_def)
    then show ?thesis using w m by (simp add: i64_saturating_pred_def)
  qed
  then show "w \<le> t" "below w target (wal_segments c)" by blast+
qed

definition watermarks_ok :: "int \<Rightarrow> catalog \<Rightarrow> bool" where
  "watermarks_ok t c \<longleftrightarrow> (\<forall>target w. watermarks c target = Some w \<longrightarrow>
     acknowledged_through_ms w \<le> t \<and> below (acknowledged_through_ms w) target (wal_segments c))"

lemma advance_watermarks_ok:
  assumes "table_ok t (wal_segments c)" and "watermarks_ok t c"
  shows "watermarks_ok t (advance_consumed_proof_watermark u target c)"
proof (cases "watermark_candidate target c")
  case None
  then show ?thesis using assms(2) by (simp add: advance_consumed_proof_watermark_def)
next
  case (Some w)
  note b = candidate_below [OF assms(1) Some]
  show ?thesis using assms(2) b Some
    by (auto simp: advance_consumed_proof_watermark_def watermarks_ok_def split: option.splits)
qed

lemma advance_targets_ok:
  assumes "table_ok t (wal_segments c)" and "watermarks_ok t c"
  shows "watermarks_ok t (advance_targets provenance ids c)"
proof -
  have "watermarks_ok t (fold (\<lambda>target. advance_consumed_proof_watermark (provenance target) target) ts d)"
    if "table_ok t (wal_segments d)" "watermarks_ok t d" for ts d
    using that by (induction ts arbitrary: d) (simp_all add: advance_watermarks_ok)
  then show ?thesis using assms by (simp add: advance_targets_def)
qed

text \<open>The two transactions that move watermarks do so on the table they leave.\<close>

lemma cstep_watermarks:
  assumes "cstep who now c c'"
  shows "\<exists>d. watermarks d = watermarks c \<and> wal_segments d = wal_segments c' \<and>
    (watermarks c' = watermarks d \<or> (\<exists>provenance ids. c' = advance_targets provenance ids d))"
  using assms
proof cases
  case (step_mark_chunk me provenance ids)
  then show ?thesis
    by (intro exI [of _ "snd (sql_update (\<lambda>r. r_id r \<in> set ids \<and> r_status r = Processing \<and> r_claimer r = Some me)
            (\<lambda>r. r\<lparr>r_status := Committed, r_committed_at_ms := Some now\<rparr>) c)"])
       (auto simp: mark_committed_chunk_def Let_def case_prod_beta sql_update_def)
next
  case (step_reclaimed provenance ids)
  then show ?thesis
    by (intro exI [of _ "snd (sql_update (\<lambda>r. r_id r \<in> set ids \<and> r_status r = Processing)
            (\<lambda>r. r\<lparr>r_status := Committed, r_committed_at_ms := Some now, r_claimer := None\<rparr>) c)"])
       (auto simp: mark_reclaimed_chunk_def Let_def case_prod_beta sql_update_def)
qed (rule exI [of _ c'], auto simp: register_def claim_statement_def claim_one_def release_with_backoff_def mark_committed_def quarantine_terminal_def
    local_mark_update_def local_mark_insert_def requeue_claim_def reclaim_abandoned_def requeue_quarantined_def purge_committed_chunk_def purge_committed_def
    acquire_table_lease_def release_table_lease_def compare_and_set_mirror_sync_cursor_def sql_update_def sql_insert_def sql_delete_def Let_def
    split: option.splits if_splits)+

lemma catalog_watermarks_ok: "catalog_at t c \<Longrightarrow> watermarks_ok t c"
proof (induction "(0 :: int, empty_catalog)" "(t, c)" arbitrary: t c rule: runs.induct)
  case runs_refl
  then show ?case by (simp add: watermarks_ok_def empty_catalog_def)
next
  case (runs_step t c now who c')
  note ok = catalog_table_ok [OF runs_step.hyps(1)]
  have ev: "evolves who now (wal_segments c) (wal_segments c')"
    using cstep_evolves [OF runs_step.hyps(4)] ok by (simp add: table_ok_def)
  obtain d where d: "watermarks d = watermarks c" "wal_segments d = wal_segments c'"
      "watermarks c' = watermarks d \<or> (\<exists>provenance ids. c' = advance_targets provenance ids d)"
    using cstep_watermarks [OF runs_step.hyps(4)] by blast
  have wd: "watermarks_ok now d"
    unfolding watermarks_ok_def d(1,2)
  proof (intro allI impI)
    fix target w assume "watermarks c target = Some w"
    then have w: "acknowledged_through_ms w \<le> t" "below (acknowledged_through_ms w) target (wal_segments c)"
      using runs_step.hyps(2) unfolding watermarks_ok_def by blast+
    then show "acknowledged_through_ms w \<le> now \<and> below (acknowledged_through_ms w) target (wal_segments c')"
      using evolves_below [OF ev w(2)] runs_step.hyps(3) by simp
  qed
  have "table_ok now (wal_segments d)" using evolves_table_ok [OF ev ok runs_step.hyps(3)] d(2) by simp
  then have adv: "watermarks_ok now (advance_targets provenance ids d)" for provenance ids using wd by (rule advance_targets_ok)
  from d(3) show ?case
  proof
    assume same: "watermarks c' = watermarks d"
    show ?thesis using wd unfolding watermarks_ok_def same d(2) .
  next
    assume "\<exists>provenance ids. c' = advance_targets provenance ids d"
    then obtain provenance ids where "c' = advance_targets provenance ids d" by blast
    then show ?thesis using adv by (simp only:)
  qed
qed

lemma runs_below:
  "runs (t0, c0) (t, c) \<Longrightarrow> catalog_at t0 c0 \<Longrightarrow> w \<le> t0 \<Longrightarrow> below w target (wal_segments c0) \<Longrightarrow> below w target (wal_segments c)"
proof (induction "(t0, c0)" "(t, c)" arbitrary: t c rule: runs.induct)
  case (runs_step t c now who c')
  have at: "catalog_at t c" by (rule runs_trans [OF runs_step.hyps(1) runs_step.prems(1)])
  have "t0 \<le> t" using runs_time [OF runs_step.hyps(1)] by simp
  then have "w < now" using runs_step.prems(2) runs_step.hyps(3) by simp
  moreover have "evolves who now (wal_segments c) (wal_segments c')"
    using cstep_evolves [OF runs_step.hyps(4)] catalog_table_ok [OF at] by (simp add: table_ok_def)
  ultimately show ?case using evolves_below runs_step by blast
qed simp

text \<open>A watermark read at one time, whenever it is used, lies below the registration of every segment that
  is open then.\<close>

lemma watermark_below_open:
  assumes at: "catalog_at t0 c0" and wm: "consumed_proof_watermark tenant index_id c0 = Some w" and later: "runs (t0, c0) (t, c)"
    and r: "r \<in> set (wal_segments c)" "of_target (tenant, index_id) r" "r_status r \<noteq> Committed"
  shows "acknowledged_through_ms w < r_registered_at_ms r"
proof -
  have "acknowledged_through_ms w \<le> t0 \<and> below (acknowledged_through_ms w) (tenant, index_id) (wal_segments c0)"
    using catalog_watermarks_ok [OF at] wm by (simp add: watermarks_ok_def consumed_proof_watermark_def)
  then have "below (acknowledged_through_ms w) (tenant, index_id) (wal_segments c)" using runs_below [OF later at] by blast
  then show ?thesis using r by (simp add: below_def)
qed

section \<open>A run\<close>

definition catalog_one :: catalog where
  "catalog_one = mark_committed_chunk ''a'' 3 Map.empty [''s1'']
     (snd (claim_statement ''a'' 2 1 [] (snd (register 1 ''s1'' ''acme'' [] ''wal/s1'' 10 5 empty_catalog))))"

definition catalog_two :: catalog where
  "catalog_two = snd (claim_statement ''b'' 5 1 [] (snd (register 4 ''s2'' ''acme'' [] ''wal/s2'' 10 5 catalog_one)))"

lemma catalog_one_at: "catalog_at 3 catalog_one"
  unfolding catalog_one_def
  by (rule runs_step [OF runs_step [OF runs_step [OF runs_refl _ step_register] _ step_claim] _ step_mark_chunk]) simp_all

lemma catalog_two_later: "runs (3, catalog_one) (5, catalog_two)"
  unfolding catalog_two_def by (rule runs_step [OF runs_step [OF runs_refl _ step_register] _ step_claim]) simp_all

definition open_row :: seg_row where
  "open_row = \<lparr>r_id = ''s2'', r_tenant = ''acme'', r_index_id = [], r_segment_url = ''wal/s2'', r_bytes = 10, r_rows = 5,
     r_status = Processing, r_attempts = 0, r_not_before_ms = None, r_claimer = Some ''b'', r_claimed_at_ms = Some 5,
     r_committed_at_ms = None, r_registered_at_ms = 4\<rparr>"

lemma catalog_two_row: "open_row \<in> set (wal_segments catalog_two)"
  by code_simp

lemma catalog_one_watermark: "consumed_proof_watermark ''acme'' [] catalog_one = Some \<lparr>acknowledged_through_ms = 2, wm_table_uuid = None\<rparr>"
  by code_simp

end
