(* ===== verification/ProofReclaim.thy ===== *)
theory ProofReclaim
  imports ConsumedProof Text
begin

text \<open>
  Who writes and who reads the consumed proof: the merge that runs inside every table commit
  (\<^verbatim>\<open>MergeConsumedProofAction\<close> of \<^verbatim>\<open>crates/loglake-storage/src/consumed_proof.rs\<close>), the maintenance that compacts
  it (\<^verbatim>\<open>crates/loglake-storage/src/iceberg.rs\<close>), and the drain that reclaims abandoned claims by it
  (\<^verbatim>\<open>crates/loglake-compactor/src/lib.rs\<close>). Of a table only what these read is kept: the proof property, the
  snapshots with their times and consumed-segment summaries, and the uuid.
\<close>

section \<open>Tables\<close>

record TableSnapshot =
  snap_timestamp_ms :: int
  snap_consumed :: "string option"

record TableMetadata =
  md_proof :: "string option"
  md_snapshots :: "TableSnapshot list"
  md_uuid :: string

datatype ConsumedProofRead = ProofAbsent | ProofValid ConsumedProof | ProofUnreadable

record ReclaimProofSources =
  durable :: ConsumedProofRead
  retained :: "string list"
  retained_history_floor_ms :: "int option"
  src_table_uuid :: string

definition retained_history_floor :: "TableMetadata \<Rightarrow> int option" where
  "retained_history_floor md =
     (case map snap_timestamp_ms (md_snapshots md) of [] \<Rightarrow> None | x # xs \<Rightarrow> Some (fold min xs x))"

definition split_consumed :: "string \<Rightarrow> string list" where
  "split_consumed v = filter (\<lambda>s. s \<noteq> []) (split_on (\<lambda>ch. ch = CHR '','') v)"

definition cumulative_consumed_segments :: "TableMetadata \<Rightarrow> string list" where
  "cumulative_consumed_segments md =
     concat (map (\<lambda>s. case snap_consumed s of None \<Rightarrow> [] | Some v \<Rightarrow> split_consumed v) (md_snapshots md))"

fun insert_entries :: "(string \<times> int) list \<Rightarrow> ConsumedProof \<Rightarrow> ConsumedProofError + ConsumedProof" where
  "insert_entries [] p = Inr p"
| "insert_entries ((sid, claimed_at) # es) p =
     (case proof_insert sid claimed_at p of Inl e \<Rightarrow> Inl e | Inr p \<Rightarrow> insert_entries es p)"

fun seed_snapshots :: "TableSnapshot list \<Rightarrow> ConsumedProof \<Rightarrow> ConsumedProofError + ConsumedProof" where
  "seed_snapshots [] p = Inr p"
| "seed_snapshots (s # ss) p =
     (case snap_consumed s of
        None \<Rightarrow> seed_snapshots ss p
      | Some consumed \<Rightarrow>
          (case insert_entries (map (\<lambda>sid. (sid, snap_timestamp_ms s)) (split_consumed consumed)) p of
             Inl e \<Rightarrow> Inl e
           | Inr p \<Rightarrow> seed_snapshots ss p))"

definition seed_from_retained_history :: "TableMetadata \<Rightarrow> ConsumedProofError + ConsumedProof" where
  "seed_from_retained_history md = seed_snapshots (md_snapshots md) (proof_empty (retained_history_floor md))"

definition proof_from_table ::
  "(string \<Rightarrow> WireProof option) \<Rightarrow> TableMetadata \<Rightarrow> ConsumedProofError + ConsumedProof option" where
  "proof_from_table from_json md =
     (case md_proof md of
        None \<Rightarrow> Inr None
      | Some v \<Rightarrow> (case proof_decode from_json v of Inl e \<Rightarrow> Inl e | Inr p \<Rightarrow> Inr (Some p)))"

definition durable_consumed_proof :: "(string \<Rightarrow> WireProof option) \<Rightarrow> TableMetadata \<Rightarrow> ConsumedProofRead" where
  "durable_consumed_proof from_json md =
     (case proof_from_table from_json md of
        Inr (Some p) \<Rightarrow> ProofValid p | Inr None \<Rightarrow> ProofAbsent | Inl _ \<Rightarrow> ProofUnreadable)"

definition reclaim_proof_sources :: "(string \<Rightarrow> WireProof option) \<Rightarrow> TableMetadata \<Rightarrow> ReclaimProofSources" where
  "reclaim_proof_sources from_json md =
     \<lparr>durable = durable_consumed_proof from_json md, retained = cumulative_consumed_segments md,
      retained_history_floor_ms = retained_history_floor md, src_table_uuid = md_uuid md\<rparr>"

text \<open>\<open>open_ns\<close> tells whether a tenant's namespace can be opened, \<open>load\<close> reads a table of a namespace; the
  default tenant has no namespace of its own.\<close>

definition reclaim_proof_for ::
  "(string \<Rightarrow> WireProof option) \<Rightarrow> (string \<Rightarrow> bool) \<Rightarrow> (string option \<Rightarrow> string \<Rightarrow> TableMetadata option) \<Rightarrow>
   string \<Rightarrow> string \<Rightarrow> ReclaimProofSources option" where
  "reclaim_proof_for from_json open_ns load tenant index_id =
     (let table_name = (if index_id = [] then ''events'' else index_id) in
      if tenant = ''default'' then map_option (reclaim_proof_sources from_json) (load None table_name)
      else if open_ns (''tenant_'' @ tenant)
      then map_option (reclaim_proof_sources from_json) (load (Some (''tenant_'' @ tenant)) table_name)
      else None)"

section \<open>The merge inside a table commit\<close>

record MergeConsumedProofAction =
  additions :: "(string \<times> int) list"
  act_acknowledged :: "int option"
  terminal_segment_ids :: "string list"

definition MergeConsumedProofAction_new :: "(string \<times> int) list \<Rightarrow> int option \<Rightarrow> MergeConsumedProofAction" where
  "MergeConsumedProofAction_new adds acknowledged =
     \<lparr>additions = adds, act_acknowledged = acknowledged, terminal_segment_ids = []\<rparr>"

definition with_terminal_segment_ids :: "string list \<Rightarrow> MergeConsumedProofAction \<Rightarrow> MergeConsumedProofAction" where
  "with_terminal_segment_ids ids a = a\<lparr>terminal_segment_ids := terminal_segment_ids a @ ids\<rparr>"

definition current_proof :: "(string \<Rightarrow> WireProof option) \<Rightarrow> TableMetadata \<Rightarrow> ConsumedProofError + ConsumedProof" where
  "current_proof from_json md =
     (case md_proof md of Some v \<Rightarrow> proof_decode from_json v | None \<Rightarrow> seed_from_retained_history md)"

text \<open>The new value of the property; the table of the attempt is an argument, since the action runs again on
  every retry of the commit.\<close>

definition merge_commit ::
  "(string \<Rightarrow> WireProof option) \<Rightarrow> (WireProof \<Rightarrow> string option) \<Rightarrow> MergeConsumedProofAction \<Rightarrow> TableMetadata \<Rightarrow>
   ConsumedProofError + string" where
  "merge_commit from_json to_json a md =
     (case current_proof from_json md of
        Inl e \<Rightarrow> Inl e
      | Inr p \<Rightarrow>
          let p = (case act_acknowledged a of None \<Rightarrow> p | Some watermark \<Rightarrow> compact_through watermark p);
              p = prune_terminal_entries (terminal_segment_ids a) p in
          (case insert_entries (additions a) p of Inl e \<Rightarrow> Inl e | Inr p \<Rightarrow> proof_encode to_json p))"

section \<open>Maintenance of the proof\<close>

definition watermark_for_incarnation :: "ConsumedProofWatermark option \<Rightarrow> string option \<Rightarrow> int option" where
  "watermark_for_incarnation watermark verified_uuid =
     (case watermark of
        None \<Rightarrow> None
      | Some w \<Rightarrow> if wm_table_uuid w = verified_uuid then Some (acknowledged_through_ms w) else None)"

definition catalog_id :: "string \<Rightarrow> string" where
  "catalog_id name = (case strip_suffix ''.arrow'' name of None \<Rightarrow> name | Some stem \<Rightarrow> stem)"

definition terminal_consumed_proof_entries ::
  "(string \<Rightarrow> WireProof option) \<Rightarrow> TableMetadata \<Rightarrow> string \<Rightarrow> string \<Rightarrow> catalog \<Rightarrow> string list" where
  "terminal_consumed_proof_entries from_json md tenant index_id c =
     (case durable_consumed_proof from_json md of
        ProofValid p \<Rightarrow>
          let names = map fst (proof_entries p);
              candidates = remdups (map catalog_id names);
              committed = committed_segment_ids tenant index_id candidates c in
          concat (map (\<lambda>sid. filter (\<lambda>name. catalog_id name = sid) names) (remdups committed))
      | _ \<Rightarrow> [])"

datatype MaintenanceError = IncarnationMismatch string string | MergeFailed ConsumedProofError

definition ensure_proof_maintenance_incarnation :: "string option \<Rightarrow> string \<Rightarrow> MaintenanceError option" where
  "ensure_proof_maintenance_incarnation expected live =
     (case expected of
        None \<Rightarrow> None
      | Some e \<Rightarrow> if e = live then None else Some (IncarnationMismatch e live))"

definition already_compacted :: "(string \<Rightarrow> WireProof option) \<Rightarrow> int \<Rightarrow> string list \<Rightarrow> TableMetadata \<Rightarrow> bool" where
  "already_compacted from_json acknowledged terminal md =
     (case proof_from_table from_json md of
        Inr (Some p) \<Rightarrow>
          (case proof_acknowledged p of None \<Rightarrow> False | Some a \<Rightarrow> a \<ge> acknowledged) \<and> \<not> (\<exists>x \<in> set terminal. proof_contains p x)
      | _ \<Rightarrow> False)"

text \<open>\<open>md\<close> is the table that was loaded, \<open>live\<close> the one the transaction commits on.\<close>

definition compact_consumed_proof_pruning ::
  "(string \<Rightarrow> WireProof option) \<Rightarrow> (WireProof \<Rightarrow> string option) \<Rightarrow> int \<Rightarrow> string list \<Rightarrow> string option \<Rightarrow>
   TableMetadata \<Rightarrow> TableMetadata \<Rightarrow> MaintenanceError + bool \<times> TableMetadata" where
  "compact_consumed_proof_pruning from_json to_json acknowledged terminal expect_uuid md live =
     (case ensure_proof_maintenance_incarnation expect_uuid (md_uuid md) of
        Some e \<Rightarrow> Inl e
      | None \<Rightarrow>
          if already_compacted from_json acknowledged terminal md then Inr (False, live)
          else
            (case merge_commit from_json to_json
                    (with_terminal_segment_ids terminal (MergeConsumedProofAction_new [] (Some acknowledged))) live of
               Inl e \<Rightarrow> Inl (MergeFailed e)
             | Inr v \<Rightarrow> Inr (True, live\<lparr>md_proof := Some v\<rparr>)))"

text \<open>One table of a maintenance pass. \<open>c_w\<close> and \<open>c_t\<close> are the catalogs its two reads see, \<open>cached\<close> the cached
  table the property is read from.\<close>

definition compact_acknowledged_target ::
  "(string \<Rightarrow> WireProof option) \<Rightarrow> (WireProof \<Rightarrow> string option) \<Rightarrow> string \<Rightarrow> string \<Rightarrow> catalog \<Rightarrow> catalog \<Rightarrow>
   TableMetadata \<Rightarrow> TableMetadata \<Rightarrow> TableMetadata \<Rightarrow> MaintenanceError + nat \<times> TableMetadata" where
  "compact_acknowledged_target from_json to_json tenant index_id c_w c_t cached md live =
     (case consumed_proof_watermark tenant index_id c_w of
        None \<Rightarrow> Inr (0, live)
      | Some watermark \<Rightarrow>
          if index_id \<noteq> [] \<and> wm_table_uuid watermark = None then Inr (0, live)
          else
            (case compact_consumed_proof_pruning from_json to_json (acknowledged_through_ms watermark)
                    (terminal_consumed_proof_entries from_json cached tenant index_id c_t) (wm_table_uuid watermark) md live of
               Inr (did, live) \<Rightarrow> Inr (if did then 1 else 0, live)
             | Inl (IncarnationMismatch e l) \<Rightarrow> Inr (0, live)
             | Inl err \<Rightarrow> Inl err))"

section \<open>Reclaiming by proof\<close>

definition mark_reclaimed_committed :: "(nat \<Rightarrow> int) \<Rightarrow> ProofProvenance \<Rightarrow> string list \<Rightarrow> catalog \<Rightarrow> nat \<times> catalog" where
  "mark_reclaimed_committed clock provenance ids c =
     fold (\<lambda>(k, chunk) (n, c). let (m, c) = mark_reclaimed_chunk (clock k) provenance chunk c in (n + m, c))
       (enumerate 0 (chunks 256 ids)) (0, c)"

definition requeue_claims :: "string list \<Rightarrow> catalog \<Rightarrow> nat \<times> catalog" where
  "requeue_claims ids c = fold (\<lambda>sid (n, c). let (m, c) = requeue_claim sid c in (n + m, c)) ids (0, c)"

definition HISTORY_SKEW_MARGIN_MS :: int where "HISTORY_SKEW_MARGIN_MS = 5000"

definition proven :: "ReclaimProofSources \<Rightarrow> string \<Rightarrow> bool" where
  "proven s sid \<longleftrightarrow>
     (case durable s of
        ProofValid d \<Rightarrow> proof_contains d (sid @ ''.arrow'') \<or> proof_contains d sid
      | _ \<Rightarrow> False) \<or>
     sid @ ''.arrow'' \<in> set (retained s) \<or> sid \<in> set (retained s)"

definition durable_floor :: "ReclaimProofSources \<Rightarrow> int option" where
  "durable_floor s =
     (case durable s of
        ProofValid d \<Rightarrow> Some (case coverage_start_ms d of None \<Rightarrow> - (2 ^ 63) | Some t \<Rightarrow> t)
      | _ \<Rightarrow> None)"

definition combined_floor :: "ReclaimProofSources \<Rightarrow> int option" where
  "combined_floor s =
     (case (durable_floor s, retained_history_floor_ms s) of
        (Some d, Some r) \<Rightarrow> Some (min d r)
      | (Some d, None) \<Rightarrow> Some d
      | (None, r) \<Rightarrow> r)"

definition covered :: "ReclaimProofSources \<Rightarrow> int \<Rightarrow> bool" where
  "covered s claimed_at =
     (case combined_floor s of
        None \<Rightarrow> durable s = ProofAbsent
      | Some fl \<Rightarrow> min (2 ^ 63 - 1) (fl + HISTORY_SKEW_MARGIN_MS) \<le> claimed_at)"

definition proof_key :: "string \<Rightarrow> string \<Rightarrow> string" where
  "proof_key tenant index_id = tenant @ CHR ''/'' # index_id"

record ReclaimPlan =
  pl_proofs :: "string \<rightharpoonup> ReclaimProofSources option"
  pl_committed :: "string list"
  pl_requeue :: "string list"
  pl_unprovable :: nat
  pl_provenance :: ProofProvenance

definition reclaim_judge ::
  "(string \<Rightarrow> string \<Rightarrow> ReclaimProofSources option) \<Rightarrow> seg_row \<Rightarrow> ReclaimPlan \<Rightarrow> ReclaimPlan" where
  "reclaim_judge proof_for r pl =
     (let key = proof_key (r_tenant r) (r_index_id r);
          proofs = (case pl_proofs pl key of
                      None \<Rightarrow> (pl_proofs pl)(key \<mapsto> proof_for (r_tenant r) (r_index_id r))
                    | Some _ \<Rightarrow> pl_proofs pl);
          pl = pl\<lparr>pl_proofs := proofs\<rparr> in
      case the (proofs key) of
        None \<Rightarrow> pl\<lparr>pl_unprovable := pl_unprovable pl + 1, pl_requeue := pl_requeue pl @ [r_id r]\<rparr>
      | Some s \<Rightarrow>
          if proven s (r_id r)
          then pl\<lparr>pl_committed := pl_committed pl @ [r_id r],
                  pl_provenance := provenance_record (r_tenant r) (r_index_id r) (src_table_uuid s) (pl_provenance pl)\<rparr>
          else pl\<lparr>pl_unprovable := (if covered s (claimed_ms r) then pl_unprovable pl else pl_unprovable pl + 1),
                  pl_requeue := pl_requeue pl @ [r_id r]\<rparr>)"

definition empty_plan :: ReclaimPlan where
  "empty_plan = \<lparr>pl_proofs = Map.empty, pl_committed = [], pl_requeue = [], pl_unprovable = 0, pl_provenance = Map.empty\<rparr>"

text \<open>The judgement, from the claims read at \<open>now\<close>, and what is then done to the catalog.\<close>

definition reclaim_plan ::
  "int \<Rightarrow> int \<Rightarrow> (string \<Rightarrow> string \<Rightarrow> ReclaimProofSources option) \<Rightarrow> catalog \<Rightarrow> ReclaimPlan" where
  "reclaim_plan now max_age proof_for c = fold (reclaim_judge proof_for) (abandoned_claims now max_age 1024 c) empty_plan"

definition reclaim_apply :: "(nat \<Rightarrow> int) \<Rightarrow> ReclaimPlan \<Rightarrow> catalog \<Rightarrow> catalog" where
  "reclaim_apply clock pl c =
     snd (requeue_claims (pl_requeue pl) (snd (mark_reclaimed_committed clock (pl_provenance pl) (pl_committed pl) c)))"

definition reclaim_with_proof_older_than ::
  "int \<Rightarrow> (nat \<Rightarrow> int) \<Rightarrow> int \<Rightarrow> (string \<Rightarrow> string \<Rightarrow> ReclaimProofSources option) \<Rightarrow> catalog \<Rightarrow> nat \<times> catalog" where
  "reclaim_with_proof_older_than now clock max_age proof_for c =
     (let pl = reclaim_plan now max_age proof_for c in (pl_unprovable pl, reclaim_apply clock pl c))"

section \<open>The merge keeps open claims\<close>

lemma runs_open_before:
  "runs (t0, c0) (t, c) \<Longrightarrow> catalog_at t0 c0 \<Longrightarrow> r \<in> set (wal_segments c) \<Longrightarrow> r_status r \<noteq> Committed \<Longrightarrow> r_registered_at_ms r \<le> t0 \<Longrightarrow>
    \<exists>r0 \<in> set (wal_segments c0). r_id r0 = r_id r \<and> r_status r0 \<noteq> Committed"
proof (induction "(t0, c0)" "(t, c)" arbitrary: t c r rule: runs.induct)
  case (runs_step t c now who c')
  have "table_ok t (wal_segments c)" by (rule catalog_table_ok [OF runs_trans [OF runs_step.hyps(1) runs_step.prems(1)]])
  then have ev: "evolves who now (wal_segments c) (wal_segments c')"
    using cstep_evolves [OF runs_step.hyps(4)] by (simp add: table_ok_def)
  obtain g keep new where e: "wal_segments c' = map g (filter keep (wal_segments c)) @ new"
      "\<forall>r \<in> set (wal_segments c). row_step who now r (g r)"
      "new = [] \<or> (\<exists>x. new = [x] \<and> r_id x \<notin> r_id ` set (wal_segments c) \<and> fresh_row now x)"
    using ev unfolding evolves_def by blast
  have "r \<notin> set new"
    using e(3) runs_time [OF runs_step.hyps(1)] runs_step.hyps(3) runs_step.prems(4) by (auto simp: fresh_row_def)
  then obtain x where x: "x \<in> set (wal_segments c)" "r = g x" using runs_step.prems(2) e(1) by auto
  then have st: "row_step who now x r" using e(2) by blast
  have same: "r_id r = r_id x" "r_registered_at_ms r = r_registered_at_ms x"
    using row_step_identity [OF st] by (auto simp: same_identity_def)
  then show ?case
    using runs_step.hyps(2) [OF runs_step.prems(1) x(1) row_step_nonterminal [OF st runs_step.prems(3)]] runs_step.prems(4) by simp
qed blast

lemma insert_entries_ok: "insert_entries es p = Inr p' \<Longrightarrow> proof_ok p \<Longrightarrow> proof_ok p'"
proof (induction es p rule: insert_entries.induct)
  case (2 sid k es p)
  then show ?case by (auto split: sum.splits intro: proof_ok_insert)
qed simp

lemma seed_snapshots_ok: "seed_snapshots ss p = Inr p' \<Longrightarrow> proof_ok p \<Longrightarrow> proof_ok p'"
proof (induction ss p rule: seed_snapshots.induct)
  case (2 s ss p)
  then show ?case by (auto split: sum.splits option.splits intro: insert_entries_ok)
qed simp

lemma current_proof_ok: "current_proof from_json md = Inr p \<Longrightarrow> proof_ok p"
  by (auto simp: current_proof_def seed_from_retained_history_def split: option.splits
      intro: proof_decode_ok seed_snapshots_ok)

lemma set_bt_insert: "bt_sorted m \<Longrightarrow> set (bt_insert k v m) = insert (k, v) {e \<in> set m. fst e \<noteq> k}"
proof (induction k v m rule: bt_insert.induct)
  case (2 k v a b m)
  then show ?case by (auto simp: bt_sorted_def)
qed simp

definition entry_name :: "seg_row \<Rightarrow> string" where
  "entry_name r = r_id r @ ''.arrow''"

text \<open>What the proof has to say of an open claim whose rows are in the table: it names the segment, with a
  time not before its registration, and has not given up on that time.\<close>

definition names :: "seg_row \<Rightarrow> (string \<times> int) list \<Rightarrow> bool" where
  "names r es \<longleftrightarrow> (\<exists>k. (entry_name r, k) \<in> set es)"

definition timely :: "seg_row \<Rightarrow> (string \<times> int) list \<Rightarrow> bool" where
  "timely r es \<longleftrightarrow> (\<forall>k. (entry_name r, k) \<in> set es \<longrightarrow> r_registered_at_ms r \<le> k)"

definition unacknowledged :: "seg_row \<Rightarrow> ConsumedProof \<Rightarrow> bool" where
  "unacknowledged r p \<longleftrightarrow> (\<forall>a. proof_acknowledged p = Some a \<longrightarrow> a < r_registered_at_ms r)"

lemma insert_entries_names:
  "insert_entries es p = Inr p' \<Longrightarrow> proof_ok p \<Longrightarrow> timely r (proof_entries p) \<Longrightarrow> timely r es \<Longrightarrow>
    (names r (proof_entries p) \<or> names r es \<longrightarrow> names r (proof_entries p')) \<and> timely r (proof_entries p') \<and>
    proof_acknowledged p' = proof_acknowledged p"
proof (induction es p rule: insert_entries.induct)
  case (2 sid k es p)
  then obtain q where q: "proof_insert sid k p = Inr q" "insert_entries es q = Inr p'" by (auto split: sum.splits)
  obtain k' where k': "q = p\<lparr>proof_entries := bt_insert sid k' (proof_entries p)\<rparr>" "k' = k \<or> (sid, k') \<in> set (proof_entries p)"
    using q(1) by (rule proof_insert_entry)
  have es: "set (proof_entries q) = insert (sid, k') {e \<in> set (proof_entries p). fst e \<noteq> sid}"
    using 2(3) k'(1) by (simp add: proof_ok_def set_bt_insert)
  have "timely r (proof_entries q)" using 2(4,5) k'(2) unfolding timely_def es by auto
  moreover have "timely r es" using 2(5) by (simp add: timely_def)
  moreover have "names r (proof_entries p) \<or> names r ((sid, k) # es) \<longrightarrow> names r (proof_entries q) \<or> names r es"
    unfolding names_def es by (cases "entry_name r = sid") auto
  ultimately show ?case
    using "2.IH" [OF q(1) q(2) proof_ok_insert [OF 2(3) q(1)]] k'(1) by auto
qed (simp add: names_def)

lemma compact_names:
  assumes "w < r_registered_at_ms r" "unacknowledged r p" "timely r (proof_entries p)"
  shows "names r (proof_entries (compact_through w p)) = names r (proof_entries p)"
    "timely r (proof_entries (compact_through w p))" "unacknowledged r (compact_through w p)"
proof -
  have "max a w < r_registered_at_ms r" if "proof_acknowledged p = Some a" for a
    using assms(1,2) that by (simp add: unacknowledged_def)
  then show "names r (proof_entries (compact_through w p)) = names r (proof_entries p)"
    "timely r (proof_entries (compact_through w p))" "unacknowledged r (compact_through w p)"
    using assms by (cases "proof_acknowledged p"; force simp: names_def timely_def unacknowledged_def compact_through_def Let_def)+
qed

lemma prune_names:
  assumes "entry_name r \<notin> set ids"
  shows "names r (proof_entries (prune_terminal_entries ids p)) = names r (proof_entries p)"
    "timely r (proof_entries (prune_terminal_entries ids p)) = timely r (proof_entries p)"
  using assms by (auto simp: names_def timely_def prune_terminal_entries_def)

lemma merge_commit_names:
  assumes json: "json_laws from_json to_json"
    and p: "current_proof from_json md = Inr p" and v: "merge_commit from_json to_json a md = Inr v"
    and w: "\<And>w. act_acknowledged a = Some w \<Longrightarrow> w < r_registered_at_ms r" and t: "entry_name r \<notin> set (terminal_segment_ids a)"
    and ok: "unacknowledged r p" "timely r (proof_entries p)" "timely r (additions a)"
    and named: "names r (proof_entries p) \<or> names r (additions a)"
  shows "\<exists>p'. proof_decode from_json v = Inr p' \<and> names r (proof_entries p') \<and> timely r (proof_entries p') \<and> unacknowledged r p'"
proof -
  define p1 where "p1 = (case act_acknowledged a of None \<Rightarrow> p | Some watermark \<Rightarrow> compact_through watermark p)"
  define p2 where "p2 = prune_terminal_entries (terminal_segment_ids a) p1"
  obtain p3 where p3: "insert_entries (additions a) p2 = Inr p3" "proof_encode to_json p3 = Inr v"
    using v p by (auto simp: merge_commit_def Let_def p2_def p1_def split: sum.splits)
  have ok1: "proof_ok p1" using current_proof_ok [OF p] by (simp add: p1_def proof_ok_compact split: option.splits)
  have p1: "names r (proof_entries p1) = names r (proof_entries p)" "timely r (proof_entries p1)" "unacknowledged r p1"
    using compact_names [OF w ok(1,2)] ok by (auto simp: p1_def split: option.splits)
  have ok2: "proof_ok p2" using ok1 by (simp add: p2_def proof_ok_prune)
  have p2: "names r (proof_entries p2) = names r (proof_entries p)" "timely r (proof_entries p2)" "proof_acknowledged p2 = proof_acknowledged p1"
    using prune_names [OF t, of p1] p1 by (simp_all add: p2_def) (simp add: prune_terminal_entries_def)
  have "names r (proof_entries p3)" "timely r (proof_entries p3)" "unacknowledged r p3"
    using insert_entries_names [OF p3(1) ok2 p2(2) ok(3)] named p1(3) p2 by (auto simp: unacknowledged_def)
  then show ?thesis using proof_codec [OF json insert_entries_ok [OF p3(1) ok2] p3(2)] by blast
qed

lemma concat_chunks: "0 < n \<Longrightarrow> concat (chunks n xs) = xs"
proof (induction n xs rule: chunks.induct)
  case (1 n xs)
  then show ?case by (subst chunks.simps) (cases "xs = []"; simp)
qed

lemma catalog_id_entry [simp]: "catalog_id (entry_name r) = r_id r"
  by (simp add: catalog_id_def entry_name_def strip_suffix_def)

lemma terminal_entries_committed:
  assumes "name \<in> set (terminal_consumed_proof_entries from_json md tenant index_id c)"
  shows "\<exists>r \<in> set (wal_segments c). r_status r = Committed \<and> r_id r = catalog_id name"
  using assms by (auto simp: terminal_consumed_proof_entries_def committed_segment_ids_def Let_def split: ConsumedProofRead.splits)

lemma open_not_terminal:
  assumes at: "catalog_at t1 c1" and later: "runs (t1, c1) (t, c)" and r: "r \<in> set (wal_segments c)" "r_status r \<noteq> Committed"
    and fresh: "\<forall>r1. r1 \<in> set (wal_segments c1) \<longrightarrow> r_id r1 = r_id r \<longrightarrow> r_registered_at_ms r1 = r_registered_at_ms r"
  shows "entry_name r \<notin> set (terminal_consumed_proof_entries from_json md tenant index_id c1)"
proof
  assume "entry_name r \<in> set (terminal_consumed_proof_entries from_json md tenant index_id c1)"
  from terminal_entries_committed [OF this]
  obtain r1 where r1: "r1 \<in> set (wal_segments c1)" "r_status r1 = Committed" "r_id r1 = r_id r" by auto
  note ok = catalog_table_ok [OF at]
  have "r_registered_at_ms r \<le> t1" using fresh r1 ok by (auto simp: table_ok_def row_ok_def)
  then obtain r0 where r0: "r0 \<in> set (wal_segments c1)" "r_id r0 = r_id r" "r_status r0 \<noteq> Committed"
    using runs_open_before [OF later at r] by blast
  then have "r0 = r1" using r1 ok by (auto simp: table_ok_def distinct_map inj_on_def)
  then show False using r0 r1 by simp
qed

text \<open>C38. The proof a table carries never loses a committed segment whose claim is still open, so whoever
  reclaims the claim recognises it. A table commit or a maintenance pass may use a watermark and a
  list of terminal entries that were read at any two earlier times, and may run on any table state
  the retries bring: if the proof there, or the commit's own additions, name the segment, the value
  it writes names it too, it can be read back and proves the segment, and what made this so holds of
  it again.\<close>

theorem merge_keeps_open_claims:
  assumes json: "json_laws from_json to_json"
    and at: "catalog_at t0 c0" and wm: "consumed_proof_watermark tenant index_id c0 = Some w"
    and mid: "runs (t0, c0) (t1, c1)" and later: "runs (t1, c1) (t, c)"
    and r: "r \<in> set (wal_segments c)" "of_target (tenant, index_id) r" "r_status r \<noteq> Committed"
    and fresh: "\<forall>r1. r1 \<in> set (wal_segments c1) \<longrightarrow> r_id r1 = r_id r \<longrightarrow> r_registered_at_ms r1 = r_registered_at_ms r"
    and p: "current_proof from_json md = Inr p" "unacknowledged r p" "timely r (proof_entries p)"
    and adds: "timely r es" "names r (proof_entries p) \<or> names r es"
    and v: "merge_commit from_json to_json
        (with_terminal_segment_ids (terminal_consumed_proof_entries from_json cached tenant index_id c1)
          (MergeConsumedProofAction_new es (watermark_for_incarnation (Some w) uuid))) md = Inr v"
  shows "\<exists>p'. current_proof from_json (md\<lparr>md_proof := Some v\<rparr>) = Inr p' \<and>
      names r (proof_entries p') \<and> timely r (proof_entries p') \<and> unacknowledged r p' \<and>
      proven (reclaim_proof_sources from_json (md\<lparr>md_proof := Some v\<rparr>)) (r_id r)"
proof -
  have at1: "catalog_at t1 c1" by (rule runs_trans [OF mid at])
  have w: "acknowledged_through_ms w < r_registered_at_ms r"
    by (rule watermark_below_open [OF at wm runs_trans [OF later mid] r])
  let ?a = "with_terminal_segment_ids (terminal_consumed_proof_entries from_json cached tenant index_id c1)
    (MergeConsumedProofAction_new es (watermark_for_incarnation (Some w) uuid))"
  have a: "terminal_segment_ids ?a = terminal_consumed_proof_entries from_json cached tenant index_id c1"
      "additions ?a = es" "act_acknowledged ?a = watermark_for_incarnation (Some w) uuid"
    by (simp_all add: with_terminal_segment_ids_def MergeConsumedProofAction_new_def)
  have t: "entry_name r \<notin> set (terminal_segment_ids ?a)" unfolding a by (rule open_not_terminal [OF at1 later r(1,3) fresh])
  have b: "x < r_registered_at_ms r" if "act_acknowledged ?a = Some x" for x
    using that w unfolding a by (simp add: watermark_for_incarnation_def split: if_splits)
  obtain p' where p': "proof_decode from_json v = Inr p'" "names r (proof_entries p')" "timely r (proof_entries p')" "unacknowledged r p'"
    using merge_commit_names [OF json p(1) v b t p(2,3)] adds unfolding a by blast
  then have "proof_contains p' (r_id r @ ''.arrow'')" by (force simp: names_def proof_contains_def entry_name_def)
  then show ?thesis using p'
    by (simp add: current_proof_def proven_def reclaim_proof_sources_def durable_consumed_proof_def proof_from_table_def)
qed

section \<open>What reclaiming does\<close>

lemma sql_update_rows: "wal_segments (snd (sql_update q f c)) = map (\<lambda>r. if q r then f r else r) (wal_segments c)"
  by (simp add: sql_update_def)

definition reclaimed_row :: "int \<Rightarrow> seg_row \<Rightarrow> seg_row" where
  "reclaimed_row now r = r\<lparr>r_status := Committed, r_committed_at_ms := Some now, r_claimer := None\<rparr>"

lemma mark_reclaimed_chunk_rows:
  "wal_segments (snd (mark_reclaimed_chunk now provenance ids c)) =
     map (\<lambda>r. if r_id r \<in> set ids \<and> r_status r = Processing then reclaimed_row now r else r) (wal_segments c)"
  by (simp add: mark_reclaimed_chunk_def Let_def case_prod_beta sql_update_rows reclaimed_row_def)

lemma mark_reclaimed_fold:
  "\<exists>g. wal_segments (snd (fold (\<lambda>(k, chunk) (n, c). let (m, c) = mark_reclaimed_chunk (clock k) provenance chunk c in (n + m, c))
        (enumerate i chs) (n, c))) = map g (wal_segments c) \<and>
     (\<forall>r. if r_id r \<in> set (concat chs) \<and> r_status r = Processing then \<exists>k. g r = reclaimed_row k r else g r = r)"
proof (induction chs arbitrary: i n c)
  case Nil
  then show ?case by (intro exI [of _ "\<lambda>r. r"]) simp
next
  case (Cons ch chs)
  obtain m d where d: "mark_reclaimed_chunk (clock i) provenance ch c = (m, d)" by fastforce
  let ?f = "\<lambda>r. if r_id r \<in> set ch \<and> r_status r = Processing then reclaimed_row (clock i) r else r"
  have rows: "wal_segments d = map ?f (wal_segments c)" using mark_reclaimed_chunk_rows [of "clock i" provenance ch c] d by simp
  from Cons.IH [of "Suc i" "n + m" d] obtain g where
    g: "wal_segments (snd (fold (\<lambda>(k, chunk) (n, c). let (m, c) = mark_reclaimed_chunk (clock k) provenance chunk c in (n + m, c))
        (enumerate (Suc i) chs) (n + m, d))) = map g (wal_segments d)"
      "\<And>r. if r_id r \<in> set (concat chs) \<and> r_status r = Processing then \<exists>k. g r = reclaimed_row k r else g r = r"
    by blast
  have fate: "if r_id r \<in> set (concat (ch # chs)) \<and> r_status r = Processing then \<exists>k. g (?f r) = reclaimed_row k r else g (?f r) = r" for r
    using g(2) [of "?f r"] by (cases "r_id r \<in> set ch \<and> r_status r = Processing") (auto simp: reclaimed_row_def split: if_splits)
  show ?case
  proof (intro exI [of _ "\<lambda>r. g (?f r)"] conjI allI)
    show "wal_segments (snd (fold (\<lambda>(k, chunk) (n, c). let (m, c) = mark_reclaimed_chunk (clock k) provenance chunk c in (n + m, c))
        (enumerate i (ch # chs)) (n, c))) = map (\<lambda>r. g (?f r)) (wal_segments c)"
      using g(1) d by (simp add: rows comp_def)
  qed (rule fate)
qed

lemma requeue_fold:
  "wal_segments (snd (fold (\<lambda>sid (n, c). let (m, c) = requeue_claim sid c in (n + m, c)) ids (n, c))) =
     map (\<lambda>r. if r_id r \<in> set ids \<and> r_status r = Processing then requeue_row r else r) (wal_segments c)"
proof (induction ids arbitrary: n c)
  case (Cons sid ids)
  obtain m d where d: "requeue_claim sid c = (m, d)" by fastforce
  have "wal_segments d = map (\<lambda>r. if r_id r = sid \<and> r_status r = Processing then requeue_row r else r) (wal_segments c)"
    using sql_update_rows [of _ _ c] d by (metis requeue_claim_def snd_conv)
  then show ?case using Cons.IH [of "n + m" d] d by (auto simp: requeue_row_def)
qed simp

lemma reclaim_apply_rows:
  obtains g where "wal_segments (reclaim_apply clock pl c) = map g (wal_segments c)"
    "\<And>r. r_status r = Processing \<Longrightarrow> r_id r \<in> set (pl_committed pl) \<Longrightarrow> \<exists>k. g r = reclaimed_row k r"
    "\<And>r. r_status r = Processing \<Longrightarrow> r_id r \<notin> set (pl_committed pl) \<Longrightarrow> r_id r \<in> set (pl_requeue pl) \<Longrightarrow> g r = requeue_row r"
    "\<And>r. r_status r \<noteq> Processing \<or> r_id r \<notin> set (pl_committed pl) \<union> set (pl_requeue pl) \<Longrightarrow> g r = r"
proof -
  let ?c1 = "snd (mark_reclaimed_committed clock (pl_provenance pl) (pl_committed pl) c)"
  have "concat (chunks 256 (pl_committed pl)) = pl_committed pl" by (rule concat_chunks) simp
  then obtain g where g: "wal_segments ?c1 = map g (wal_segments c)"
      "\<And>r. if r_id r \<in> set (pl_committed pl) \<and> r_status r = Processing then \<exists>k. g r = reclaimed_row k r else g r = r"
    using mark_reclaimed_fold [of clock "pl_provenance pl" 0 "chunks 256 (pl_committed pl)" 0 c]
    unfolding mark_reclaimed_committed_def by metis
  let ?h = "\<lambda>r. if r_id r \<in> set (pl_requeue pl) \<and> r_status r = Processing then requeue_row r else r"
  show thesis
  proof
    show "wal_segments (reclaim_apply clock pl c) = map (\<lambda>r. ?h (g r)) (wal_segments c)"
      unfolding reclaim_apply_def requeue_claims_def requeue_fold g(1) by simp
    show "\<exists>k. ?h (g r) = reclaimed_row k r" if "r_status r = Processing" "r_id r \<in> set (pl_committed pl)" for r
      using g(2) [of r] that by (auto simp: reclaimed_row_def)
    show "?h (g r) = requeue_row r" if "r_status r = Processing" "r_id r \<notin> set (pl_committed pl)" "r_id r \<in> set (pl_requeue pl)" for r
      using g(2) [of r] that by simp
    show "?h (g r) = r" if "r_status r \<noteq> Processing \<or> r_id r \<notin> set (pl_committed pl) \<union> set (pl_requeue pl)" for r
      using g(2) [of r] that by auto
  qed
qed

definition claim_proven :: "(string \<Rightarrow> string \<Rightarrow> ReclaimProofSources option) \<Rightarrow> seg_row \<Rightarrow> bool" where
  "claim_proven proof_for r \<longleftrightarrow>
     (case proof_for (r_tenant r) (r_index_id r) of None \<Rightarrow> False | Some s \<Rightarrow> proven s (r_id r))"

definition claim_unprovable :: "(string \<Rightarrow> string \<Rightarrow> ReclaimProofSources option) \<Rightarrow> seg_row \<Rightarrow> bool" where
  "claim_unprovable proof_for r \<longleftrightarrow>
     (case proof_for (r_tenant r) (r_index_id r) of
        None \<Rightarrow> True | Some s \<Rightarrow> \<not> proven s (r_id r) \<and> \<not> covered s (claimed_ms r))"

definition cache_ok :: "(string \<Rightarrow> string \<Rightarrow> ReclaimProofSources option) \<Rightarrow> ReclaimPlan \<Rightarrow> bool" where
  "cache_ok proof_for pl \<longleftrightarrow>
     (\<forall>k v. pl_proofs pl k = Some v \<longrightarrow> (\<exists>t i. k = proof_key t i \<and> CHR ''/'' \<notin> set t \<and> v = proof_for t i))"

lemma proof_key_inject:
  assumes "proof_key t i = proof_key t' i'" "CHR ''/'' \<notin> set t" "CHR ''/'' \<notin> set t'"
  shows "t = t' \<and> i = i'"
proof -
  have "takeWhile (\<lambda>ch. ch \<noteq> CHR ''/'') (proof_key a b) = a" if "CHR ''/'' \<notin> set a" for a b
    using that unfolding proof_key_def by (subst takeWhile_append2) auto
  then have "t = t'" using assms by metis
  then show ?thesis using assms(1) by (simp add: proof_key_def)
qed

lemma judge_one:
  assumes cache: "cache_ok proof_for pl" and tenant: "CHR ''/'' \<notin> set (r_tenant r)"
  shows "cache_ok proof_for (reclaim_judge proof_for r pl)"
    "pl_committed (reclaim_judge proof_for r pl) = pl_committed pl @ (if claim_proven proof_for r then [r_id r] else [])"
    "pl_requeue (reclaim_judge proof_for r pl) = pl_requeue pl @ (if claim_proven proof_for r then [] else [r_id r])"
    "pl_unprovable (reclaim_judge proof_for r pl) = pl_unprovable pl + (if claim_unprovable proof_for r then 1 else 0)"
proof -
  let ?key = "proof_key (r_tenant r) (r_index_id r)"
  let ?v = "proof_for (r_tenant r) (r_index_id r)"
  define proofs where "proofs = (case pl_proofs pl ?key of None \<Rightarrow> (pl_proofs pl)(?key \<mapsto> ?v) | Some _ \<Rightarrow> pl_proofs pl)"
  have "v = ?v" if "pl_proofs pl ?key = Some v" for v
    using cache that proof_key_inject [OF _ tenant] unfolding cache_ok_def by metis
  then have got: "proofs ?key = Some ?v" by (auto simp: proofs_def split: option.splits)
  have c: "cache_ok proof_for (pl'\<lparr>pl_proofs := proofs\<rparr>)" for pl'
    using cache tenant by (auto simp: cache_ok_def proofs_def split: option.splits)
  note step = reclaim_judge_def [of proof_for r pl, unfolded Let_def, folded proofs_def]
  show "pl_committed (reclaim_judge proof_for r pl) = pl_committed pl @ (if claim_proven proof_for r then [r_id r] else [])"
    "pl_requeue (reclaim_judge proof_for r pl) = pl_requeue pl @ (if claim_proven proof_for r then [] else [r_id r])"
    "pl_unprovable (reclaim_judge proof_for r pl) = pl_unprovable pl + (if claim_unprovable proof_for r then 1 else 0)"
    unfolding step got by (auto simp: claim_proven_def claim_unprovable_def split: option.splits)
  show "cache_ok proof_for (reclaim_judge proof_for r pl)"
    using c [of pl] unfolding step got by (auto simp: cache_ok_def split: option.splits)
qed

lemma judge_all:
  "cache_ok proof_for pl \<Longrightarrow> \<forall>r \<in> set rs. CHR ''/'' \<notin> set (r_tenant r) \<Longrightarrow>
    pl_committed (fold (reclaim_judge proof_for) rs pl) = pl_committed pl @ map r_id (filter (claim_proven proof_for) rs) \<and>
    pl_requeue (fold (reclaim_judge proof_for) rs pl) = pl_requeue pl @ map r_id (filter (\<lambda>r. \<not> claim_proven proof_for r) rs) \<and>
    pl_unprovable (fold (reclaim_judge proof_for) rs pl) = pl_unprovable pl + length (filter (claim_unprovable proof_for) rs)"
  by (induction rs arbitrary: pl) (simp_all add: judge_one)

lemma reclaim_plan_spec:
  assumes "\<forall>r \<in> set (wal_segments c). CHR ''/'' \<notin> set (r_tenant r)"
  shows "pl_committed (reclaim_plan now max_age proof_for c) =
      map r_id (filter (claim_proven proof_for) (abandoned_claims now max_age 1024 c))"
    "pl_requeue (reclaim_plan now max_age proof_for c) =
      map r_id (filter (\<lambda>r. \<not> claim_proven proof_for r) (abandoned_claims now max_age 1024 c))"
    "pl_unprovable (reclaim_plan now max_age proof_for c) =
      length (filter (claim_unprovable proof_for) (abandoned_claims now max_age 1024 c))"
proof -
  have "cache_ok proof_for empty_plan" by (simp add: cache_ok_def empty_plan_def)
  moreover have "\<forall>r \<in> set (abandoned_claims now max_age 1024 c). CHR ''/'' \<notin> set (r_tenant r)"
    using assms by (auto simp: abandoned_claims_def dest: in_set_takeD)
  ultimately show "pl_committed (reclaim_plan now max_age proof_for c) =
      map r_id (filter (claim_proven proof_for) (abandoned_claims now max_age 1024 c))"
    "pl_requeue (reclaim_plan now max_age proof_for c) =
      map r_id (filter (\<lambda>r. \<not> claim_proven proof_for r) (abandoned_claims now max_age 1024 c))"
    "pl_unprovable (reclaim_plan now max_age proof_for c) =
      length (filter (claim_unprovable proof_for) (abandoned_claims now max_age 1024 c))"
    using judge_all [of proof_for empty_plan] by (simp_all add: reclaim_plan_def) (simp_all add: empty_plan_def)
qed

lemma abandoned_row: "r \<in> set (abandoned_claims now max_age limit c) \<Longrightarrow> r \<in> set (wal_segments c) \<and> r_status r = Processing"
  by (auto simp: abandoned_claims_def claimed_before_def dest: in_set_takeD)

text \<open>C39. Reclaiming decides every abandoned claim the way the proof does. A claim whose segment the table's
  property or its retained snapshots name becomes committed; any other goes back to the queue as it
  was registered; every other row is left alone, no row is lost, and the count of unprovable ones is
  exactly those without a proof of either kind.\<close>

theorem reclaim_follows_proof:
  assumes at: "catalog_at t c" and tenants: "\<forall>r \<in> set (wal_segments c). CHR ''/'' \<notin> set (r_tenant r)"
    and run: "reclaim_with_proof_older_than now clock max_age proof_for c = (unprovable, c')"
  shows "map r_id (wal_segments c') = map r_id (wal_segments c) \<and>
    (\<forall>r \<in> set (wal_segments c).
       if r \<in> set (abandoned_claims now max_age 1024 c)
       then (if claim_proven proof_for r then \<exists>k. reclaimed_row k r \<in> set (wal_segments c') else requeue_row r \<in> set (wal_segments c'))
       else r \<in> set (wal_segments c')) \<and>
    unprovable = length (filter (claim_unprovable proof_for) (abandoned_claims now max_age 1024 c))"
proof -
  let ?as = "abandoned_claims now max_age 1024 c"
  let ?pl = "reclaim_plan now max_age proof_for c"
  note plan = reclaim_plan_spec [OF tenants, of now max_age proof_for]
  have c': "c' = reclaim_apply clock ?pl c" and u: "unprovable = pl_unprovable ?pl"
    using run by (simp_all add: reclaim_with_proof_older_than_def Let_def)
  obtain g where g: "wal_segments c' = map g (wal_segments c)"
      "\<And>r. r_status r = Processing \<Longrightarrow> r_id r \<in> set (pl_committed ?pl) \<Longrightarrow> \<exists>k. g r = reclaimed_row k r"
      "\<And>r. r_status r = Processing \<Longrightarrow> r_id r \<notin> set (pl_committed ?pl) \<Longrightarrow> r_id r \<in> set (pl_requeue ?pl) \<Longrightarrow> g r = requeue_row r"
      "\<And>r. r_status r \<noteq> Processing \<or> r_id r \<notin> set (pl_committed ?pl) \<union> set (pl_requeue ?pl) \<Longrightarrow> g r = r"
    by (rule reclaim_apply_rows [of clock ?pl c, folded c'], rule that)
  have unique: "x = r" if "x \<in> set ?as" "r \<in> set (wal_segments c)" "r_id x = r_id r" for x r
    using catalog_table_ok [OF at] abandoned_row [OF that(1)] that by (auto simp: table_ok_def distinct_map inj_on_def)
  have committed: "r_id r \<in> set (pl_committed ?pl) \<longleftrightarrow> r \<in> set ?as \<and> claim_proven proof_for r" if "r \<in> set (wal_segments c)" for r
    using unique [OF _ that] by (auto simp: plan(1))
  have requeue: "r_id r \<in> set (pl_requeue ?pl) \<longleftrightarrow> r \<in> set ?as \<and> \<not> claim_proven proof_for r" if "r \<in> set (wal_segments c)" for r
    using unique [OF _ that] by (auto simp: plan(2))
  have fate: "if r \<in> set ?as then (if claim_proven proof_for r then \<exists>k. g r = reclaimed_row k r else g r = requeue_row r) else g r = r"
    if "r \<in> set (wal_segments c)" for r
    using g(2-4) [of r] committed [OF that] requeue [OF that] abandoned_row [of r] by auto
  have "r_id (g r) = r_id r" if "r \<in> set (wal_segments c)" for r
    using fate [OF that] by (auto simp: reclaimed_row_def requeue_row_def split: if_splits)
  then have "map r_id (wal_segments c') = map r_id (wal_segments c)" by (simp add: g(1))
  moreover have "if r \<in> set ?as
       then (if claim_proven proof_for r then \<exists>k. reclaimed_row k r \<in> set (wal_segments c') else requeue_row r \<in> set (wal_segments c'))
       else r \<in> set (wal_segments c')" if "r \<in> set (wal_segments c)" for r
  proof -
    have "g r \<in> set (wal_segments c')" using that by (simp add: g(1))
    then show ?thesis using fate [OF that] by (auto split: if_splits)
  qed
  ultimately show ?thesis using u plan(3) by blast
qed

section \<open>Runs\<close>

definition stored_wire :: WireProof where
  "stored_wire = \<lparr>w_version = 1, w_coverage = None, w_acknowledged = None, w_entries = [(''s1.arrow'', 2)]\<rparr>"

definition written_wire :: WireProof where
  "written_wire = \<lparr>w_version = 1, w_coverage = None, w_acknowledged = Some 2, w_entries = [(''s2.arrow'', 5)]\<rparr>"

definition from_sample :: "string \<Rightarrow> WireProof option" where
  "from_sample s = (if s = ''old'' then Some stored_wire else if s = ''new'' then Some written_wire else None)"

definition to_sample :: "WireProof \<Rightarrow> string option" where
  "to_sample w = (if w = written_wire then Some ''new'' else None)"

lemma sample_laws: "json_laws from_sample to_sample"
  by (simp add: json_laws_def from_sample_def to_sample_def)

definition sample_table :: TableMetadata where
  "sample_table = \<lparr>md_proof = Some ''old'', md_snapshots = [], md_uuid = ''u''\<rparr>"

lemma catalog_one_ids: "map r_id (wal_segments catalog_one) = [''s1'']"
  by code_simp

lemma sample_fresh:
  "\<forall>r1. r1 \<in> set (wal_segments catalog_one) \<longrightarrow> r_id r1 = r_id open_row \<longrightarrow> r_registered_at_ms r1 = r_registered_at_ms open_row"
proof (intro allI impI)
  fix r1 assume "r1 \<in> set (wal_segments catalog_one)" "r_id r1 = r_id open_row"
  then have "r_id open_row \<in> set (map r_id (wal_segments catalog_one))" by (metis imageI list.set_map)
  then show "r_registered_at_ms r1 = r_registered_at_ms open_row" by (simp add: catalog_one_ids open_row_def del: list.set_map)
qed

abbreviation sample_before :: ConsumedProof where
  "sample_before \<equiv> \<lparr>coverage_start_ms = None, proof_acknowledged = None, proof_entries = [(''s1.arrow'', 2)]\<rparr>"

lemma sample_decode: "proof_decode from_sample ''old'' = Inr sample_before"
  by (simp add: proof_decode_def CONSUMED_PROOF_MAX_BYTES_def PROOF_FORMAT_VERSION_def from_sample_def stored_wire_def)

lemma sample_proof: "current_proof from_sample sample_table = Inr sample_before"
  by (simp add: current_proof_def sample_table_def sample_decode)

lemma sample_committed: "committed_segment_ids ''acme'' [] [''s1''] catalog_one = [''s1'']"
  by code_simp

lemma sample_terminal: "terminal_consumed_proof_entries from_sample sample_table ''acme'' [] catalog_one = [''s1.arrow'']"
  by (simp add: terminal_consumed_proof_entries_def durable_consumed_proof_def proof_from_table_def sample_table_def sample_decode
      catalog_id_def strip_suffix_def sample_committed)

lemma sample_merge:
  "merge_commit from_sample to_sample
     (with_terminal_segment_ids (terminal_consumed_proof_entries from_sample sample_table ''acme'' [] catalog_one)
       (MergeConsumedProofAction_new [(''s2.arrow'', 5)]
         (watermark_for_incarnation (Some \<lparr>acknowledged_through_ms = 2, wm_table_uuid = None\<rparr>) None))) sample_table = Inr ''new''"
  by (simp add: sample_terminal merge_commit_def sample_proof with_terminal_segment_ids_def MergeConsumedProofAction_new_def
      watermark_for_incarnation_def compact_through_def prune_terminal_entries_def proof_insert_def proof_encode_def
      to_sample_def written_wire_def PROOF_FORMAT_VERSION_def CONSUMED_PROOF_MAX_BYTES_def)

theorem merge_keeps_open_claims_witness:
  "proven (reclaim_proof_sources from_sample (sample_table\<lparr>md_proof := Some ''new''\<rparr>)) ''s2''"
  using merge_keeps_open_claims [OF sample_laws catalog_one_at catalog_one_watermark runs_refl catalog_two_later catalog_two_row _ _
      sample_fresh sample_proof _ _ _ _ sample_merge]
  by (simp add: open_row_def of_target_def unacknowledged_def timely_def names_def entry_name_def) blast

definition sample_history :: TableMetadata where
  "sample_history = \<lparr>md_proof = None, md_snapshots = [\<lparr>snap_timestamp_ms = 5, snap_consumed = Some ''s0.arrow,s1.arrow''\<rparr>], md_uuid = ''u''\<rparr>"

definition sample_proofs :: "string \<Rightarrow> string \<Rightarrow> ReclaimProofSources option" where
  "sample_proofs = reclaim_proof_for from_sample (\<lambda>ns. True) (\<lambda>ns name. Some sample_history)"

lemma sample_tenants: "\<forall>r \<in> set (wal_segments claimed_sample). CHR ''/'' \<notin> set (r_tenant r)"
  by code_simp

lemma sample_abandoned: "abandoned_claims 1000 10 1024 claimed_sample = [claimed_row]"
  by code_simp

lemma sample_proven: "claim_proven sample_proofs claimed_row"
  by code_simp

theorem reclaim_follows_proof_witness:
  "\<exists>k. reclaimed_row k claimed_row \<in> set (wal_segments (snd (reclaim_with_proof_older_than 1000 (\<lambda>k. 1001) 10 sample_proofs claimed_sample)))"
  using reclaim_follows_proof [OF claimed_sample_at sample_tenants surjective_pairing, of 1000 "\<lambda>k. 1001" 10 sample_proofs]
    claimed_sample_row sample_proven by (simp add: sample_abandoned)

definition no_proofs :: "string \<Rightarrow> string \<Rightarrow> ReclaimProofSources option" where
  "no_proofs = reclaim_proof_for from_sample (\<lambda>ns. True) (\<lambda>ns name. Some \<lparr>md_proof = None, md_snapshots = [], md_uuid = ''u''\<rparr>)"


end
