(* ===== verification/FileSystem.thy ===== *)
theory FileSystem
  imports Prelude "HOL-Library.Sublist"
begin

text \<open>
  A file system with power loss, and the \<^verbatim>\<open>durability\<close> module of
  \<^verbatim>\<open>crates/loglake-wal/src/lib.rs\<close> over it. Every directory entry has a history of values
  (\<open>hist\<close>, current version \<open>ver\<close>); syncing a directory makes the current version of its entries
  the oldest a crash can bring back (\<open>lo\<close>), and a crash may otherwise pick any version of each
  entry independently. The one ordering a journalling file system adds is that a rename is
  atomic: a crash that shows the source removed shows the destination made (\<open>deps\<close>). File
  contents revert to some extension of what was last synced (\<open>dur\<close>). Every call that can fail
  consults an oracle (\<open>fault_at\<close>), so a theorem about all states covers every pattern of I/O
  errors; a fault in a write may let a prefix of the bytes through.
\<close>

section \<open>State\<close>

type_synonym path = "string list" \<comment> \<open>components from the root; the empty path is the root\<close>

datatype node = Dir | File nat

record fs =
  names :: "path list"
  hist :: "path \<Rightarrow> nat \<Rightarrow> node option"
  ver :: "path \<Rightarrow> nat"
  lo :: "path \<Rightarrow> nat"
  deps :: "(path \<times> nat \<times> path \<times> nat) list"
  data :: "nat \<Rightarrow> bytes"
  dur :: "nat \<Rightarrow> bytes option"
  mtime :: "nat \<Rightarrow> nat"
  next_inode :: nat
  now :: nat
  fault_at :: "nat \<Rightarrow> nat option"
  clk :: nat

datatype io_error = EIO | ENoEnt | EExists | ENotDir | EPath | ERefused | ECodec

text \<open>Fallible code over a state of its own: an error or a value, and the state it leaves.\<close>

type_synonym ('s, 'a) eff = "'s \<Rightarrow> (io_error + 'a) \<times> 's"

type_synonym 'a io = "(fs, 'a) eff"

definition ent :: "fs \<Rightarrow> path \<Rightarrow> node option" where
  "ent s p = (if p = [] then Some Dir else hist s p (ver s p))"

definition parent :: "path \<Rightarrow> path option" where
  "parent p = (if p = [] then None else Some (butlast p))"

definition file_name :: "path \<Rightarrow> string option" where
  "file_name p = (if p = [] then None else Some (last p))"

definition is_dir :: "fs \<Rightarrow> path \<Rightarrow> bool" where
  "is_dir s p \<longleftrightarrow> ent s p = Some Dir"

definition is_file :: "fs \<Rightarrow> path \<Rightarrow> bool" where
  "is_file s p \<longleftrightarrow> (case ent s p of Some (File i) \<Rightarrow> True | _ \<Rightarrow> False)"

definition exists_path :: "fs \<Rightarrow> path \<Rightarrow> bool" where
  "exists_path s p \<longleftrightarrow> ent s p \<noteq> None"

definition read_file :: "fs \<Rightarrow> path \<Rightarrow> bytes option" where
  "read_file s p = (case ent s p of Some (File i) \<Rightarrow> Some (data s i) | _ \<Rightarrow> None)"

section \<open>The error monad\<close>

text \<open>\<open>qm m f\<close> is the question mark operator: run \<open>m\<close>, return its error, or go on with its value.\<close>

definition ret :: "'a \<Rightarrow> ('s, 'a) eff" where
  "ret x s = (Inr x, s)"

definition fail :: "io_error \<Rightarrow> ('s, 'a) eff" where
  "fail e s = (Inl e, s)"

definition qm :: "('s, 'a) eff \<Rightarrow> ('a \<Rightarrow> ('s, 'b) eff) \<Rightarrow> ('s, 'b) eff" where
  "qm m f s = (case m s of (Inl e, t) \<Rightarrow> (Inl e, t) | (Inr x, t) \<Rightarrow> f x t)"

text \<open>\<^verbatim>\<open>let _ = m\<close>: the outcome is dropped.\<close>

definition ignore :: "('s, 'a) eff \<Rightarrow> ('s, unit) eff" where
  "ignore m s = (Inr (), snd (m s))"

definition ok_or :: "'a option \<Rightarrow> io_error \<Rightarrow> ('s, 'a) eff" where
  "ok_or x e = (case x of None \<Rightarrow> fail e | Some v \<Rightarrow> ret v)"

definition gets :: "('s \<Rightarrow> 'a) \<Rightarrow> ('s, 'a) eff" where
  "gets f s = (Inr (f s), s)"

text \<open>A system call: it consults the fault oracle once and fails without effect when told to.\<close>

definition syscall :: "'a io \<Rightarrow> 'a io" where
  "syscall m s =
     (let t = s\<lparr>clk := Suc (clk s)\<rparr> in
      case fault_at s (clk s) of None \<Rightarrow> m t | Some _ \<Rightarrow> (Inl EIO, t))"

section \<open>The standard library's file operations\<close>

definition set_ent :: "path \<Rightarrow> node option \<Rightarrow> fs \<Rightarrow> fs" where
  "set_ent p v s =
     (let k = Suc (ver s p) in
      s\<lparr>names := List.insert p (names s), ver := (ver s)(p := k), hist := (hist s)(p := (hist s p)(k := v))\<rparr>)"

definition move_ent :: "path \<Rightarrow> path \<Rightarrow> node \<Rightarrow> fs \<Rightarrow> fs" where
  "move_ent f t n s =
     (let s' = set_ent f None (set_ent t (Some n) s) in
      s'\<lparr>deps := (f, ver s' f, t, ver s' t) # deps s'\<rparr>)"

definition std_rename :: "path \<Rightarrow> path \<Rightarrow> unit io" where
  "std_rename f t = syscall (\<lambda>s.
     case ent s f of
       Some (File i) \<Rightarrow>
         (case parent t of
            None \<Rightarrow> (Inl ENotDir, s)
          | Some d \<Rightarrow>
              if \<not> is_dir s d then (Inl ENoEnt, s)
              else if is_dir s t then (Inl ENotDir, s)
              else if f = t then (Inr (), s)
              else (Inr (), move_ent f t (File i) s))
     | _ \<Rightarrow> (Inl ENoEnt, s))"

definition std_remove_file :: "path \<Rightarrow> unit io" where
  "std_remove_file p = syscall (\<lambda>s.
     case ent s p of Some (File i) \<Rightarrow> (Inr (), set_ent p None s) | _ \<Rightarrow> (Inl ENoEnt, s))"

text \<open>\<^verbatim>\<open>File::create\<close>: a fresh inode, or the existing one truncated.\<close>

definition std_create :: "path \<Rightarrow> nat io" where
  "std_create p = syscall (\<lambda>s.
     case ent s p of
       Some Dir \<Rightarrow> (Inl ENotDir, s)
     | Some (File i) \<Rightarrow>
         (Inr i, s\<lparr>data := (data s)(i := []), dur := (dur s)(i := None), mtime := (mtime s)(i := now s)\<rparr>)
     | None \<Rightarrow>
         (case parent p of
            None \<Rightarrow> (Inl ENotDir, s)
          | Some d \<Rightarrow>
              if \<not> is_dir s d then (Inl ENoEnt, s)
              else let i = next_inode s in
                (Inr i, set_ent p (Some (File i))
                   (s\<lparr>next_inode := Suc i, data := (data s)(i := []), dur := (dur s)(i := Some []),
                      mtime := (mtime s)(i := now s)\<rparr>))))"

text \<open>Appending writes: a fault lets the first \<open>k\<close> bytes through. The result is how many went.\<close>

definition std_write :: "nat \<Rightarrow> bytes \<Rightarrow> fs \<Rightarrow> nat \<times> fs" where
  "std_write i bs s =
     (let n = (case fault_at s (clk s) of None \<Rightarrow> length bs | Some k \<Rightarrow> min k (length bs)) in
      (n, s\<lparr>clk := Suc (clk s), data := (data s)(i := data s i @ take n bs),
             mtime := (mtime s)(i := now s)\<rparr>))"

definition std_write_all :: "nat \<Rightarrow> bytes \<Rightarrow> unit io" where
  "std_write_all i bs s =
     (let (n, t) = std_write i bs s in
      (if fault_at s (clk s) = None then Inr () else Inl EIO, t))"

definition std_sync_all :: "nat \<Rightarrow> unit io" where
  "std_sync_all i = syscall (\<lambda>s. (Inr (), s\<lparr>dur := (dur s)(i := Some (data s i))\<rparr>))"

definition std_create_dir :: "path \<Rightarrow> unit io" where
  "std_create_dir p = syscall (\<lambda>s.
     if exists_path s p then (Inl EExists, s)
     else case parent p of
       None \<Rightarrow> (Inl ENoEnt, s)
     | Some d \<Rightarrow> if is_dir s d then (Inr (), set_ent p (Some Dir) s) else (Inl ENoEnt, s))"

definition std_hard_link :: "path \<Rightarrow> path \<Rightarrow> unit io" where
  "std_hard_link f t = syscall (\<lambda>s.
     case ent s f of
       Some (File i) \<Rightarrow>
         if exists_path s t then (Inl EExists, s)
         else (case parent t of
            None \<Rightarrow> (Inl ENoEnt, s)
          | Some d \<Rightarrow> if is_dir s d then (Inr (), set_ent t (Some (File i)) s) else (Inl ENoEnt, s))
     | _ \<Rightarrow> (Inl ENoEnt, s))"

definition std_read :: "path \<Rightarrow> bytes io" where
  "std_read p = syscall (\<lambda>s. case read_file s p of None \<Rightarrow> (Inl ENoEnt, s) | Some bs \<Rightarrow> (Inr bs, s))"

text \<open>The names in a directory, in the order the file system keeps them.\<close>

definition dir_entries :: "fs \<Rightarrow> path \<Rightarrow> (string \<times> node) list" where
  "dir_entries s d =
     List.map_filter (\<lambda>p. if p \<noteq> [] \<and> butlast p = d then map_option (Pair (last p)) (ent s p) else None)
       (names s)"

definition std_read_dir :: "path \<Rightarrow> (string \<times> node) list io" where
  "std_read_dir d = syscall (\<lambda>s. if is_dir s d then (Inr (dir_entries s d), s) else (Inl ENoEnt, s))"

text \<open>\<^verbatim>\<open>let entry = entry?\<close>: stepping a directory iterator can fail as well.\<close>

definition std_next_entry :: "'a \<Rightarrow> 'a io" where
  "std_next_entry e = syscall (ret e)"

section \<open>The durability module\<close>

definition sync_dir :: "path \<Rightarrow> unit io" where
  "sync_dir d = syscall (\<lambda>s.
     if is_dir s d
     then (Inr (), s\<lparr>lo := (\<lambda>p. if p \<noteq> [] \<and> butlast p = d then ver s p else lo s p)\<rparr>)
     else (Inl ENoEnt, s))"

definition sync_file :: "nat \<Rightarrow> unit io" where
  "sync_file i = std_sync_all i"

definition rename :: "path \<Rightarrow> path \<Rightarrow> unit io" where
  "rename f t = std_rename f t"

definition write_sync :: "path \<Rightarrow> bytes \<Rightarrow> unit io" where
  "write_sync p bs = qm (std_create p) (\<lambda>i. qm (std_write_all i bs) (\<lambda>_. sync_file i))"

definition publish_file :: "path \<Rightarrow> path \<Rightarrow> bytes \<Rightarrow> unit io" where
  "publish_file p tmp bs =
     qm (write_sync tmp bs) (\<lambda>_.
     qm (rename tmp p) (\<lambda>_.
     qm (ok_or (parent p) EPath) (\<lambda>d. sync_dir d)))"

definition remove_file :: "path \<Rightarrow> unit io" where
  "remove_file p = std_remove_file p"

definition persist_move :: "path \<Rightarrow> path \<Rightarrow> unit io" where
  "persist_move dest_dir source_dir = qm (sync_dir dest_dir) (\<lambda>_. sync_dir source_dir)"

function create_dir_all :: "path \<Rightarrow> unit io" where
  "create_dir_all p s =
     (if is_dir s p then (Inr (), s)
      else case parent p of
        None \<Rightarrow> (Inr (), s)
      | Some d \<Rightarrow>
          (case create_dir_all d s of
             (Inl e, t) \<Rightarrow> (Inl e, t)
           | (Inr _, t) \<Rightarrow>
               (case std_create_dir p t of
                  (Inr _, u) \<Rightarrow> sync_dir d u
                | (Inl EExists, u) \<Rightarrow> (Inr (), u)
                | (Inl e, u) \<Rightarrow> (Inl e, u))))"
  by pat_completeness auto
termination
  by (relation "measure (\<lambda>(p, s). length p)") (auto simp: parent_def split: if_splits)

declare create_dir_all.simps [simp del]

section \<open>Power loss\<close>

text \<open>A crash keeps one version \<open>c p\<close> of every entry.\<close>

definition valid :: "fs \<Rightarrow> (path \<Rightarrow> nat) \<Rightarrow> bool" where
  "valid s c \<longleftrightarrow> (\<forall>p. lo s p \<le> c p \<and> c p \<le> ver s p) \<and>
     (\<forall>p v q w. (p, v, q, w) \<in> set (deps s) \<longrightarrow> v \<le> c p \<longrightarrow> w \<le> c q)"

definition at_version :: "fs \<Rightarrow> (path \<Rightarrow> nat) \<Rightarrow> path \<Rightarrow> node option" where
  "at_version s c p = (if p = [] then Some Dir else hist s p (c p))"

definition reach :: "(path \<Rightarrow> node option) \<Rightarrow> path \<Rightarrow> bool" where
  "reach e p \<longleftrightarrow> (\<forall>k < length p. e (take k p) = Some Dir)"

definition crash :: "fs \<Rightarrow> fs \<Rightarrow> bool" where
  "crash s t \<longleftrightarrow>
     (\<exists>c. valid s c \<and>
        (\<forall>p. ent t p = (if reach (at_version s c) p then at_version s c p else None))) \<and>
     (\<forall>i. dur t i = Some (data t i) \<and>
        (case dur s i of
           None \<Rightarrow> True
         | Some d \<Rightarrow> if d = data s i then data t i = d else prefix d (data t i))) \<and>
     (\<forall>p. lo t p = ver t p) \<and> deps t = [] \<and> now s \<le> now t"

end
