(* ===== verification/FsLogic.thy ===== *)
theory FsLogic
  imports FileSystem
begin

text \<open>
  Reasoning about file system programs under faults and power loss: Hoare triples with one
  postcondition for success and one for failure, rules for the primitives, and the two durability
  assertions every lifecycle proof is phrased in. \<open>durable s p c\<close> says the name \<open>p\<close> with exactly
  the contents \<open>c\<close> survives every crash; \<open>kept s f t c\<close> says at least one of two names does.
\<close>

section \<open>Triples\<close>

definition triple :: "('s \<Rightarrow> bool) \<Rightarrow> ('s, 'a) eff \<Rightarrow> ('a \<Rightarrow> 's \<Rightarrow> bool) \<Rightarrow> ('s \<Rightarrow> bool) \<Rightarrow> bool" where
  "triple P m Q E \<longleftrightarrow>
     (\<forall>s. P s \<longrightarrow> (case m s of (Inr x, t) \<Rightarrow> Q x t | (Inl e, t) \<Rightarrow> E t))"

lemma tripleI:
  assumes "\<And>s x t. P s \<Longrightarrow> m s = (Inr x, t) \<Longrightarrow> Q x t" "\<And>s e t. P s \<Longrightarrow> m s = (Inl e, t) \<Longrightarrow> E t"
  shows "triple P m Q E"
  using assms unfolding triple_def by (simp split: prod.split sum.split)

lemma tripleD_ok: "triple P m Q E \<Longrightarrow> P s \<Longrightarrow> m s = (Inr x, t) \<Longrightarrow> Q x t"
  unfolding triple_def by (metis (no_types, lifting) case_prod_conv sum.case(2))

lemma tripleD_err: "triple P m Q E \<Longrightarrow> P s \<Longrightarrow> m s = (Inl e, t) \<Longrightarrow> E t"
  unfolding triple_def by (metis (no_types, lifting) case_prod_conv sum.case(1))

lemma triple_snd: "triple P m (\<lambda>_. Q) Q \<Longrightarrow> P s \<Longrightarrow> Q (snd (m s))"
  by (cases "m s"; cases "fst (m s)") (auto simp: triple_def)

lemma triple_run:
  assumes "triple P m Q E" "P s" "m s = (r, t)" "\<And>x. Q x t \<Longrightarrow> R" "E t \<Longrightarrow> R"
  shows R
proof (cases r)
  case (Inl e)
  then show R using tripleD_err [OF assms(1,2)] assms(3,5) by simp
next
  case (Inr x)
  then show R using tripleD_ok [OF assms(1,2)] assms(3,4) by simp
qed

lemma triple_conseq:
  assumes "triple P' m Q' E'" "\<And>s. P s \<Longrightarrow> P' s" "\<And>x t. Q' x t \<Longrightarrow> Q x t" "\<And>t. E' t \<Longrightarrow> E t"
  shows "triple P m Q E"
  using assms unfolding triple_def by (fastforce split: prod.splits sum.splits)

lemma triple_qm [wp_intros]:
  assumes "triple P m R E" "\<And>x. triple (R x) (f x) Q E"
  shows "triple P (qm m f) Q E"
  using assms unfolding triple_def qm_def by (fastforce split: prod.splits sum.splits)

lemma triple_ret [wp_intros]: "(\<And>s. P s \<Longrightarrow> Q x s) \<Longrightarrow> triple P (ret x) Q E"
  by (simp add: triple_def ret_def)

lemma triple_fail [wp_intros]: "(\<And>s. P s \<Longrightarrow> E s) \<Longrightarrow> triple P (fail e) Q E"
  by (simp add: triple_def fail_def)

lemma triple_gets: "(\<And>s. P s \<Longrightarrow> Q (f s) s) \<Longrightarrow> triple P (gets f) Q E"
  by (simp add: triple_def gets_def)

lemma triple_ignore:
  assumes "triple P m (\<lambda>_. Q) Q"
  shows "triple P (ignore m) (\<lambda>_. Q) E"
  unfolding triple_def ignore_def
proof (intro allI impI)
  fix s
  assume "P s"
  with assms show "case (Inr (), snd (m s)) of (Inr x, t) \<Rightarrow> Q t | (Inl e, t) \<Rightarrow> E t"
    unfolding triple_def by (cases "m s"; cases "fst (m s)") force+
qed

lemma triple_ok_or [wp_intros]:
  assumes "\<And>v. x = Some v \<Longrightarrow> (\<And>s. P s \<Longrightarrow> Q v s)" "x = None \<Longrightarrow> (\<And>s. P s \<Longrightarrow> E s)"
  shows "triple P (ok_or x e) Q E"
  using assms by (cases x) (simp_all add: ok_or_def triple_def fail_def ret_def)

lemma triple_state: "(\<And>s. P s \<Longrightarrow> triple (\<lambda>x. x = s) m Q E) \<Longrightarrow> triple P m Q E"
  by (simp add: triple_def)

text \<open>A run has one outcome, so what two triples say of it holds together.\<close>

lemma triple_conj:
  assumes "triple P m Q E" "triple P' m Q' E'"
  shows "triple (\<lambda>s. P s \<and> P' s) m (\<lambda>x s. Q x s \<and> Q' x s) (\<lambda>s. E s \<and> E' s)"
  by (rule tripleI) (auto dest: tripleD_ok [OF assms(1)] tripleD_ok [OF assms(2)]
      tripleD_err [OF assms(1)] tripleD_err [OF assms(2)])

lemma triple_if:
  assumes "triple P m Q E" "triple P m' Q E"
  shows "triple P (\<lambda>s. if c s then m s else m' s) Q E"
  using assms by (auto simp: triple_def)

text \<open>\<^verbatim>\<open>if let Err(e) = m { cleanup; return Err(e) }\<close>\<close>

lemma triple_on_error:
  assumes "triple P m (\<lambda>_. R) F" "\<And>s. F s \<Longrightarrow> E (h s)" "\<And>s. R s \<Longrightarrow> Q y s"
  shows "triple P (\<lambda>s. case m s of (Inl e, t) \<Rightarrow> (Inl e, h t) | (Inr _, t) \<Rightarrow> (Inr y, t)) Q E"
  unfolding triple_def
proof (intro allI impI)
  fix s
  assume "P s"
  then have "case m s of (Inr x, t) \<Rightarrow> R t | (Inl e, t) \<Rightarrow> F t" using assms(1) by (simp add: triple_def)
  then show "case (case m s of (Inl e, t) \<Rightarrow> (Inl e, h t) | (Inr _, t) \<Rightarrow> (Inr y, t)) of
      (Inr x, t) \<Rightarrow> Q x t | (Inl e, t) \<Rightarrow> E t"
    using assms(2,3) by (cases "m s"; cases "fst (m s)") simp_all
qed

text \<open>An assertion that names no file system state can be moved out of the precondition.\<close>

lemma triple_pure: "(A \<Longrightarrow> triple P m Q E) \<Longrightarrow> triple (\<lambda>s. A \<and> P s) m Q E"
  by (auto simp: triple_def)

section \<open>Updates and what they leave alone\<close>

definition tickd :: "fs \<Rightarrow> fs" where
  "tickd s = s\<lparr>clk := Suc (clk s)\<rparr>"

definition synced :: "path \<Rightarrow> fs \<Rightarrow> fs" where
  "synced d s = s\<lparr>lo := (\<lambda>p. if p \<noteq> [] \<and> butlast p = d then ver s p else lo s p)\<rparr>"

lemma ent_frame [simp]:
  "ent (s\<lparr>deps := r\<rparr>) = ent s" "ent (s\<lparr>data := x\<rparr>) = ent s" "ent (s\<lparr>dur := y\<rparr>) = ent s"
  "ent (s\<lparr>mtime := m\<rparr>) = ent s" "ent (s\<lparr>next_inode := n\<rparr>) = ent s" "ent (s\<lparr>clk := k\<rparr>) = ent s"
  "ent (s\<lparr>lo := l\<rparr>) = ent s"
  by (simp_all add: ent_def fun_eq_iff)

lemma tickd_simps [simp, fs_simps]:
  "ent (tickd s) = ent s" "ver (tickd s) = ver s" "lo (tickd s) = lo s" "hist (tickd s) = hist s"
  "deps (tickd s) = deps s" "names (tickd s) = names s"
  "data (tickd s) = data s" "dur (tickd s) = dur s" "next_inode (tickd s) = next_inode s"
  "now (tickd s) = now s" "mtime (tickd s) = mtime s"
  by (simp_all add: tickd_def)

lemma synced_simps [simp, fs_simps]:
  "ent (synced d s) = ent s" "ver (synced d s) = ver s" "hist (synced d s) = hist s"
  "lo (synced d s) p = (if p \<noteq> [] \<and> butlast p = d then ver s p else lo s p)"
  "deps (synced d s) = deps s" "names (synced d s) = names s"
  "data (synced d s) = data s" "dur (synced d s) = dur s" "next_inode (synced d s) = next_inode s"
  "now (synced d s) = now s" "mtime (synced d s) = mtime s"
  by (simp_all add: synced_def)

lemma set_ent_simps [simp, fs_simps]:
  "ent (set_ent p v s) q = (if q = p \<and> p \<noteq> [] then v else ent s q)"
  "ver (set_ent p v s) q = (if q = p then Suc (ver s p) else ver s q)"
  "k \<le> ver s q \<Longrightarrow> hist (set_ent p v s) q k = hist s q k"
  "hist (set_ent p v s) p (Suc (ver s p)) = v"
  "lo (set_ent p v s) = lo s" "deps (set_ent p v s) = deps s"
  "data (set_ent p v s) = data s" "dur (set_ent p v s) = dur s"
  "next_inode (set_ent p v s) = next_inode s" "now (set_ent p v s) = now s"
  "mtime (set_ent p v s) = mtime s"
  by (auto simp: set_ent_def Let_def ent_def)

lemma move_ent_simps [simp, fs_simps]:
  "f \<noteq> t \<Longrightarrow> ent (move_ent f t n s) q =
     (if q = t \<and> t \<noteq> [] then Some n else if q = f \<and> f \<noteq> [] then None else ent s q)"
  "f \<noteq> t \<Longrightarrow> ver (move_ent f t n s) q =
     (if q = t then Suc (ver s t) else if q = f then Suc (ver s f) else ver s q)"
  "k \<le> ver s q \<Longrightarrow> hist (move_ent f t n s) q k = hist s q k"
  "f \<noteq> t \<Longrightarrow> hist (move_ent f t n s) f (Suc (ver s f)) = None"
  "f \<noteq> t \<Longrightarrow> hist (move_ent f t n s) t (Suc (ver s t)) = Some n"
  "f \<noteq> t \<Longrightarrow> deps (move_ent f t n s) = (f, Suc (ver s f), t, Suc (ver s t)) # deps s"
  "lo (move_ent f t n s) = lo s"
  "data (move_ent f t n s) = data s" "dur (move_ent f t n s) = dur s"
  "next_inode (move_ent f t n s) = next_inode s" "now (move_ent f t n s) = now s"
  "mtime (move_ent f t n s) = mtime s"
  by (auto simp: move_ent_def Let_def set_ent_def ent_def)

section \<open>Rules for the primitives\<close>

lemma triple_syscall:
  assumes "\<And>s. P s \<Longrightarrow> E (tickd s)"
    and "triple (\<lambda>t. \<exists>s. P s \<and> t = tickd s) m Q E"
  shows "triple P (syscall m) Q E"
  using assms unfolding triple_def syscall_def tickd_def Let_def
  by (auto split: option.splits)

lemma triple_sync_dir [wp_intros]:
  assumes "\<And>s. P s \<Longrightarrow> E (tickd s)"
    and "\<And>s. P s \<Longrightarrow> is_dir s d \<Longrightarrow> Q () (synced d (tickd s))"
  shows "triple P (sync_dir d) Q E"
  unfolding sync_dir_def
  by (rule triple_syscall) (use assms in \<open>auto simp: triple_def synced_def is_dir_def\<close>)

lemma triple_sync_file [wp_intros]:
  assumes "\<And>s. P s \<Longrightarrow> E (tickd s)"
    and "\<And>s. P s \<Longrightarrow> Q () (tickd s\<lparr>dur := (dur s)(i := Some (data s i))\<rparr>)"
  shows "triple P (sync_file i) Q E"
  unfolding sync_file_def std_sync_all_def
  by (rule triple_syscall) (use assms in \<open>auto simp: triple_def\<close>)

lemma triple_rename [wp_intros]:
  assumes "\<And>s. P s \<Longrightarrow> E (tickd s)"
    and "\<And>s i d. P s \<Longrightarrow> ent s f = Some (File i) \<Longrightarrow> parent t = Some d \<Longrightarrow> is_dir s d \<Longrightarrow>
           \<not> is_dir s t \<Longrightarrow> f \<noteq> t \<Longrightarrow> Q () (move_ent f t (File i) (tickd s))"
    and "\<And>s. P s \<Longrightarrow> f = t \<Longrightarrow> Q () (tickd s)"
  shows "triple P (rename f t) Q E"
  unfolding rename_def std_rename_def
  by (rule triple_syscall)
    (use assms in \<open>auto simp: triple_def is_dir_def split: option.splits node.splits\<close>)

lemma triple_remove_file [wp_intros]:
  assumes "\<And>s. P s \<Longrightarrow> E (tickd s)"
    and "\<And>s i. P s \<Longrightarrow> ent s p = Some (File i) \<Longrightarrow> Q () (set_ent p None (tickd s))"
  shows "triple P (remove_file p) Q E"
  unfolding remove_file_def std_remove_file_def
  by (rule triple_syscall)
    (use assms in \<open>auto simp: triple_def split: option.splits node.splits\<close>)

definition made :: "path \<Rightarrow> fs \<Rightarrow> fs" where
  "made p s = (let i = next_inode s in
     set_ent p (Some (File i))
       (s\<lparr>next_inode := Suc i, data := (data s)(i := []), dur := (dur s)(i := Some []),
          mtime := (mtime s)(i := now s)\<rparr>))"

lemma triple_create [wp_intros]:
  assumes "\<And>s. P s \<Longrightarrow> E (tickd s)"
    and "\<And>s d. P s \<Longrightarrow> ent s p = None \<Longrightarrow> parent p = Some d \<Longrightarrow> is_dir s d \<Longrightarrow>
           Q (next_inode s) (made p (tickd s))"
    and "\<And>s i. P s \<Longrightarrow> ent s p = Some (File i) \<Longrightarrow>
           Q i (tickd s\<lparr>data := (data s)(i := []), dur := (dur s)(i := None), mtime := (mtime s)(i := now s)\<rparr>)"
  shows "triple P (std_create p) Q E"
  unfolding std_create_def
  by (rule triple_syscall)
    (use assms in \<open>auto simp: triple_def made_def Let_def is_dir_def split: option.splits node.splits\<close>)

definition wrote :: "nat \<Rightarrow> bytes \<Rightarrow> fs \<Rightarrow> fs" where
  "wrote i bs s = s\<lparr>data := (data s)(i := data s i @ bs), mtime := (mtime s)(i := now s)\<rparr>"

lemma wrote_simps [simp, fs_simps]:
  "ent (wrote i bs s) = ent s" "ver (wrote i bs s) = ver s" "lo (wrote i bs s) = lo s"
  "hist (wrote i bs s) = hist s" "deps (wrote i bs s) = deps s" "names (wrote i bs s) = names s"
  "data (wrote i bs s) = (data s)(i := data s i @ bs)" "dur (wrote i bs s) = dur s"
  "next_inode (wrote i bs s) = next_inode s" "now (wrote i bs s) = now s"
  by (simp_all add: wrote_def)

lemma triple_write_all [wp_intros]:
  assumes "\<And>s k. P s \<Longrightarrow> E (wrote i (take k bs) (tickd s))"
    and "\<And>s. P s \<Longrightarrow> Q () (wrote i bs (tickd s))"
  shows "triple P (std_write_all i bs) Q E"
proof -
  have w: "snd (std_write i bs s) = wrote i (take (fst (std_write i bs s)) bs) (tickd s)" for s
    by (simp add: std_write_def Let_def wrote_def tickd_def)
  have n: "fault_at s (clk s) = None \<Longrightarrow> fst (std_write i bs s) = length bs" for s
    by (simp add: std_write_def Let_def)
  show ?thesis
    unfolding triple_def
  proof (intro allI impI)
    fix s
    assume P: "P s"
    obtain m t where mt: "std_write i bs s = (m, t)" by force
    with w [of s] have t: "t = wrote i (take m bs) (tickd s)" by simp
    show "case std_write_all i bs s of (Inr x, t) \<Rightarrow> Q x t | (Inl e, t) \<Rightarrow> E t"
      using assms P mt t n [of s] by (auto simp: std_write_all_def)
  qed
qed

lemma triple_read [wp_intros]:
  assumes "\<And>s. P s \<Longrightarrow> E (tickd s)"
    and "\<And>s bs. P s \<Longrightarrow> read_file s p = Some bs \<Longrightarrow> Q bs (tickd s)"
  shows "triple P (std_read p) Q E"
  unfolding std_read_def
  by (rule triple_syscall)
    (use assms in \<open>auto simp: triple_def read_file_def split: option.splits node.splits\<close>)

lemma triple_hard_link [wp_intros]:
  assumes "\<And>s. P s \<Longrightarrow> E (tickd s)"
    and "\<And>s i d. P s \<Longrightarrow> ent s f = Some (File i) \<Longrightarrow> ent s t = None \<Longrightarrow> parent t = Some d \<Longrightarrow>
           is_dir s d \<Longrightarrow> Q () (set_ent t (Some (File i)) (tickd s))"
  shows "triple P (std_hard_link f t) Q E"
  unfolding std_hard_link_def
  by (rule triple_syscall)
    (use assms in \<open>auto simp: triple_def exists_path_def is_dir_def split: option.splits node.splits\<close>)

section \<open>What survives a crash\<close>

definition fs_wf :: "fs \<Rightarrow> bool" where
  "fs_wf s \<longleftrightarrow> (\<forall>p. lo s p \<le> ver s p) \<and>
     (\<forall>p v q w. (p, v, q, w) \<in> set (deps s) \<longrightarrow> v \<le> ver s p \<and> w \<le> ver s q)"

definition solid :: "fs \<Rightarrow> path \<Rightarrow> bool" where
  "solid s p \<longleftrightarrow> (\<forall>k < length p. ent s (take k p) = Some Dir \<and> lo s (take k p) = ver s (take k p))"

definition safe_at :: "fs \<Rightarrow> path set \<Rightarrow> nat \<Rightarrow> bool" where
  "safe_at s A i \<longleftrightarrow> fs_wf s \<and> (\<forall>p \<in> A. solid s p \<and> p \<noteq> []) \<and>
     (\<forall>c. valid s c \<longrightarrow> (\<exists>p \<in> A. hist s p (c p) = Some (File i)))"

definition kept :: "fs \<Rightarrow> path set \<Rightarrow> bytes \<Rightarrow> bool" where
  "kept s A b \<longleftrightarrow> (\<exists>i. safe_at s A i \<and> dur s i = Some b \<and> data s i = b)"

definition kept_ge :: "fs \<Rightarrow> path set \<Rightarrow> bytes \<Rightarrow> bool" where
  "kept_ge s A b \<longleftrightarrow> (\<exists>i d. safe_at s A i \<and> dur s i = Some d \<and> prefix b d)"

text \<open>Every directory that exists is durable, as the WAL tree is once it has been created.\<close>

definition dirs_solid :: "fs \<Rightarrow> bool" where
  "dirs_solid s \<longleftrightarrow> (\<forall>q. ent s q = Some Dir \<longrightarrow> lo s q = ver s q \<and> solid s q)"

lemma crash_solid: "valid s c \<Longrightarrow> solid s p \<Longrightarrow> reach (at_version s c) p"
  unfolding reach_def solid_def valid_def at_version_def ent_def
  by (metis dual_order.antisym)

lemma crash_data:
  assumes "crash s t" "dur s i = Some d"
  shows "prefix d (data t i) \<and> (d = data s i \<longrightarrow> data t i = d)"
proof -
  have "case dur s i of None \<Rightarrow> True
        | Some d \<Rightarrow> if d = data s i then data t i = d else prefix d (data t i)"
    using assms(1) unfolding crash_def by blast
  then show ?thesis using assms(2) by (auto split: if_splits)
qed

lemma crash_safe_at:
  assumes "crash s t" "safe_at s A i"
  shows "\<exists>p \<in> A. ent t p = Some (File i)"
proof -
  obtain c where c: "valid s c"
    and t: "\<And>p. ent t p = (if reach (at_version s c) p then at_version s c p else None)"
    using assms(1) unfolding crash_def by blast
  obtain p where "p \<in> A" "hist s p (c p) = Some (File i)" "solid s p" "p \<noteq> []"
    using assms(2) c unfolding safe_at_def by blast
  then show ?thesis
    using crash_solid [OF c] by (intro bexI [of _ p]) (auto simp: t at_version_def)
qed

lemma crash_kept:
  assumes "kept s A b" "crash s t"
  shows "\<exists>p \<in> A. read_file t p = Some b"
proof -
  obtain i where i: "safe_at s A i" "dur s i = Some b" "data s i = b"
    using assms(1) unfolding kept_def by blast
  obtain p where "p \<in> A" "ent t p = Some (File i)"
    using crash_safe_at [OF assms(2) i(1)] by blast
  then show ?thesis
    using crash_data [OF assms(2) i(2)] i(3) by (intro bexI [of _ p]) (auto simp: read_file_def)
qed

lemma crash_kept_ge:
  assumes "kept_ge s A b" "crash s t"
  shows "\<exists>p \<in> A. \<exists>c. read_file t p = Some c \<and> prefix b c"
proof -
  obtain i d where i: "safe_at s A i" "dur s i = Some d" "prefix b d"
    using assms(1) unfolding kept_ge_def by blast
  obtain p where "p \<in> A" "ent t p = Some (File i)"
    using crash_safe_at [OF assms(2) i(1)] by blast
  moreover have "prefix b (data t i)"
    using crash_data [OF assms(2) i(2)] i(3) by (auto intro: prefix_order.trans)
  ultimately show ?thesis by (intro bexI [of _ p]) (auto simp: read_file_def)
qed

lemma kept_imp_ge: "kept s A b \<Longrightarrow> prefix a b \<Longrightarrow> kept_ge s A a"
  unfolding kept_def kept_ge_def by blast

section \<open>Preservation\<close>

definition ext :: "fs \<Rightarrow> fs \<Rightarrow> bool" where
  "ext s s' \<longleftrightarrow> (\<forall>p. ver s p \<le> ver s' p \<and> lo s p \<le> lo s' p \<and> (\<forall>k \<le> ver s p. hist s' p k = hist s p k)) \<and>
     set (deps s) \<subseteq> set (deps s')"

lemma ext_updates [simp]:
  "ext s (tickd s)" "fs_wf s \<Longrightarrow> ext s (synced d s)" "ext s (set_ent p v s)"
  "f \<noteq> t \<Longrightarrow> ext s (move_ent f t n s)" "ext s (wrote i bs s)" "ext s (s\<lparr>dur := y\<rparr>)" "ext s (made p s)"
  by (auto simp: ext_def fs_wf_def wrote_def made_def Let_def)

lemma fs_wf_updates [simp]:
  "fs_wf (tickd s) = fs_wf s" "fs_wf s \<Longrightarrow> fs_wf (synced d s)"
  "fs_wf s \<Longrightarrow> fs_wf (set_ent p v s)" "fs_wf s \<Longrightarrow> f \<noteq> t \<Longrightarrow> fs_wf (move_ent f t n s)"
  "fs_wf (wrote i bs s) = fs_wf s" "fs_wf (s\<lparr>dur := y\<rparr>) = fs_wf s"
  "fs_wf s \<Longrightarrow> fs_wf (made p s)"
  by (auto simp: fs_wf_def wrote_def made_def Let_def intro!: le_SucI)

lemma valid_restrict:
  assumes "ext s s'" "fs_wf s" "valid s' c"
  shows "valid s (\<lambda>p. min (c p) (ver s p))"
proof -
  have "lo s p \<le> min (c p) (ver s p)" for p
    using assms by (auto simp: valid_def ext_def fs_wf_def intro: order_trans)
  moreover have "w \<le> min (c q) (ver s q)" if "(p, v, q, w) \<in> set (deps s)" "v \<le> min (c p) (ver s p)" for p v q w
    using that assms by (auto simp: valid_def ext_def fs_wf_def)
  ultimately show ?thesis by (simp add: valid_def)
qed

lemma solid_ext:
  assumes "ext s s'" "fs_wf s'" "solid s p"
    and "\<And>k. k < length p \<Longrightarrow> ver s' (take k p) = ver s (take k p)"
  shows "solid s' p"
  unfolding solid_def
proof (intro allI impI conjI)
  fix k
  assume k: "k < length p"
  let ?q = "take k p"
  have v: "ver s' ?q = ver s ?q" using assms(4) k .
  have "hist s' ?q (ver s ?q) = hist s ?q (ver s ?q)" using assms(1) by (simp add: ext_def)
  then show "ent s' ?q = Some Dir" using assms(3) k v by (auto simp: solid_def ent_def)
  have "lo s ?q \<le> lo s' ?q" "lo s' ?q \<le> ver s' ?q"
    using assms(1,2) by (auto simp: ext_def fs_wf_def)
  then show "lo s' ?q = ver s' ?q" using assms(3) k v by (auto simp: solid_def)
qed

lemma safe_at_ext:
  assumes e: "ext s s'" and wf: "fs_wf s'" and safe: "safe_at s A i"
    and same: "\<And>p k. p \<in> A \<Longrightarrow> k \<le> length p \<Longrightarrow> ver s' (take k p) = ver s (take k p)"
  shows "safe_at s' A i"
  unfolding safe_at_def
proof (intro conjI allI impI ballI)
  show "fs_wf s'" by (rule wf)
  show "solid s' p" "p \<noteq> []" if "p \<in> A" for p
    using that safe same by (auto simp: safe_at_def intro!: solid_ext [OF e wf])
  fix c
  assume c: "valid s' c"
  then have "valid s (\<lambda>p. min (c p) (ver s p))"
    using safe by (intro valid_restrict [OF e]) (auto simp: safe_at_def)
  then obtain p where p: "p \<in> A" "hist s p (min (c p) (ver s p)) = Some (File i)"
    using safe by (auto simp: safe_at_def)
  have "c p \<le> ver s' p" using c by (simp add: valid_def)
  then have "c p \<le> ver s p" using same [OF p(1), of "length p"] by simp
  then show "\<exists>p \<in> A. hist s' p (c p) = Some (File i)"
    using p e by (intro bexI [of _ p]) (auto simp: ext_def)
qed

lemma safe_at_wf: "safe_at s A i \<Longrightarrow> fs_wf s"
  by (simp add: safe_at_def)

lemma not_on_path:
  assumes "safe_at s A i" "p \<in> A" "k < length p" "ent s q \<noteq> Some Dir"
  shows "take k p \<noteq> q"
  using assms by (auto simp: safe_at_def solid_def)

lemma safe_at_quiet [simp]:
  "safe_at s A i \<Longrightarrow> safe_at (tickd s) A i"
  "safe_at s A i \<Longrightarrow> safe_at (synced d s) A i"
  "safe_at s A i \<Longrightarrow> safe_at (wrote j bs s) A i"
  "safe_at s A i \<Longrightarrow> safe_at (s\<lparr>dur := y\<rparr>) A i"
  by (auto intro!: safe_at_ext [of s] dest: safe_at_wf)

lemma safe_at_set_ent:
  assumes "safe_at s A i" "q \<notin> A" "ent s q \<noteq> Some Dir"
  shows "safe_at (set_ent q v s) A i"
proof (rule safe_at_ext [OF _ _ assms(1)])
  show "ver (set_ent q v s) (take k p) = ver s (take k p)" if "p \<in> A" "k \<le> length p" for p k
    using that assms not_on_path [OF assms(1) that(1) _ assms(3), of k]
    by (cases "k = length p") auto
qed (use assms in \<open>auto dest: safe_at_wf\<close>)

lemma safe_at_made:
  assumes "safe_at s A i" "q \<notin> A" "ent s q = None"
  shows "safe_at (made q s) A i"
proof (rule safe_at_ext [OF _ _ assms(1)])
  show "ver (made q s) (take k p) = ver s (take k p)" if "p \<in> A" "k \<le> length p" for p k
    using that assms not_on_path [OF assms(1) that(1), of k q]
    by (cases "k = length p") (auto simp: made_def Let_def)
qed (use assms in \<open>auto dest: safe_at_wf\<close>)

lemma safe_at_move_other:
  assumes "safe_at s A i" "f \<notin> A" "t \<notin> A" "f \<noteq> t" "ent s f \<noteq> Some Dir" "ent s t \<noteq> Some Dir"
  shows "safe_at (move_ent f t n s) A i"
proof (rule safe_at_ext [OF _ _ assms(1)])
  show "ver (move_ent f t n s) (take k p) = ver s (take k p)" if "p \<in> A" "k \<le> length p" for p k
    using that assms not_on_path [OF assms(1) that(1) _ assms(5), of k]
      not_on_path [OF assms(1) that(1) _ assms(6), of k]
    by (cases "k = length p") auto
qed (use assms in \<open>auto dest: safe_at_wf\<close>)

text \<open>A rename of the file between two of its safe names keeps it safe: if the crash shows the old
  name gone, the new one is there.\<close>

lemma safe_at_move:
  assumes safe: "safe_at s A i" and A: "f \<in> A" "t \<in> A" and ne: "f \<noteq> t"
    and nd: "ent s f \<noteq> Some Dir" "ent s t \<noteq> Some Dir"
  shows "safe_at (move_ent f t (File i) s) A i"
  unfolding safe_at_def
proof (intro conjI allI impI ballI)
  let ?s = "move_ent f t (File i) s"
  have wf: "fs_wf s" using safe by (rule safe_at_wf)
  then show wf': "fs_wf ?s" using ne by simp
  show "solid ?s p" "p \<noteq> []" if "p \<in> A" for p
  proof -
    have "ver ?s (take k p) = ver s (take k p)" if "k < length p" for k
      using \<open>p \<in> A\<close> that ne not_on_path [OF safe \<open>p \<in> A\<close> that nd(1)] not_on_path [OF safe \<open>p \<in> A\<close> that nd(2)]
      by simp
    then show "solid ?s p" "p \<noteq> []"
      using \<open>p \<in> A\<close> safe ne by (auto simp: safe_at_def intro!: solid_ext [OF _ wf'])
  qed
  fix c
  assume c: "valid ?s c"
  then have "valid s (\<lambda>p. min (c p) (ver s p))"
    using ne by (intro valid_restrict [OF _ wf]) auto
  then obtain p where p: "p \<in> A" "hist s p (min (c p) (ver s p)) = Some (File i)"
    using safe by (auto simp: safe_at_def)
  have dep: "Suc (ver s f) \<le> c f \<longrightarrow> Suc (ver s t) \<le> c t" and le: "\<And>q. c q \<le> ver ?s q"
    using c ne by (auto simp: valid_def)
  show "\<exists>p \<in> A. hist ?s p (c p) = Some (File i)"
  proof (cases "c p \<le> ver s p")
    case True
    then show ?thesis using p by (intro bexI [of _ p]) auto
  next
    case False
    then have "p = t \<or> p = f" using le [of p] ne by (auto split: if_splits)
    then have "Suc (ver s t) \<le> c t" using False dep by auto
    then have "c t = Suc (ver s t)" using le [of t] ne by simp
    then show ?thesis using A ne by (intro bexI [of _ t]) auto
  qed
qed

text \<open>A name whose directory has been synced since its last change is safe on its own.\<close>

lemma safe_at_single:
  assumes "fs_wf s" "solid s p" "p \<noteq> []" "lo s p = ver s p" "ent s p = Some (File i)"
  shows "safe_at s {p} i"
  using assms unfolding safe_at_def valid_def ent_def by (metis dual_order.antisym insertCI singletonD)

lemma safe_at_mono:
  assumes "safe_at s A i" "A \<subseteq> B" "\<And>p. p \<in> B \<Longrightarrow> solid s p \<and> p \<noteq> []"
  shows "safe_at s B i"
  using assms unfolding safe_at_def by blast

lemma valid_current: "fs_wf s \<Longrightarrow> valid s (ver s)"
  by (auto simp: valid_def fs_wf_def)

lemma safe_at_current: "safe_at s A i \<Longrightarrow> \<exists>p \<in> A. ent s p = Some (File i)"
  using valid_current [of s] by (fastforce simp: safe_at_def ent_def)

section \<open>Durable directories\<close>

lemma dirs_solid_child: "dirs_solid s \<Longrightarrow> is_dir s d \<Longrightarrow> solid s (d @ [n])"
  by (auto simp: dirs_solid_def solid_def is_dir_def less_Suc_eq)

lemma dirs_solid_tickd [simp]: "dirs_solid (tickd s) = dirs_solid s"
  by (simp add: dirs_solid_def solid_def)

lemma dirs_solid_wrote [simp]: "dirs_solid (wrote i bs s) = dirs_solid s"
  by (simp add: dirs_solid_def solid_def)

lemma dirs_solid_dur [simp]: "dirs_solid (s\<lparr>dur := y\<rparr>) = dirs_solid s"
  by (simp add: dirs_solid_def solid_def)

lemma dirs_solid_synced: "dirs_solid s \<Longrightarrow> dirs_solid (synced d s)"
  by (simp add: dirs_solid_def solid_def)

lemma dirs_solid_set_ent:
  assumes "dirs_solid s" "ent s q \<noteq> Some Dir" "v \<noteq> Some Dir"
  shows "dirs_solid (set_ent q v s)"
  using assms by (auto simp: dirs_solid_def solid_def split: if_splits)

lemma dirs_solid_made: "dirs_solid s \<Longrightarrow> ent s q = None \<Longrightarrow> dirs_solid (made q s)"
  unfolding made_def Let_def
  by (rule dirs_solid_set_ent) (auto simp: dirs_solid_def solid_def)

lemma dirs_solid_move_ent:
  assumes "dirs_solid s" "ent s f \<noteq> Some Dir" "ent s t \<noteq> Some Dir" "f \<noteq> t"
  shows "dirs_solid (move_ent f t (File i) s)"
  using assms by (auto simp: dirs_solid_def solid_def split: if_splits)

definition dir_ok :: "fs \<Rightarrow> path \<Rightarrow> bool" where
  "dir_ok s p \<longleftrightarrow> (\<forall>q i. prefix q p \<longrightarrow> ent s q \<noteq> Some (File i))"

text \<open>What \<^const>\<open>create_dir_all\<close> may do to a state before it reports: count calls, make missing
  directories, sync directories.\<close>

definition dir_closed :: "path \<Rightarrow> (fs \<Rightarrow> bool) \<Rightarrow> bool" where
  "dir_closed p P \<longleftrightarrow> (\<forall>s. P s \<longrightarrow> P (tickd s)) \<and> (\<forall>s d. P s \<longrightarrow> P (synced d s)) \<and>
     (\<forall>s q. P s \<longrightarrow> prefix q p \<longrightarrow> ent s q = None \<longrightarrow> P (set_ent q (Some Dir) s))"

lemma dirs_solid_mkdir:
  assumes "dirs_solid s" "fs_wf s" "is_dir s d" "p = d @ [n]" "ent s p = None"
  shows "dirs_solid (synced d (set_ent p (Some Dir) s))"
proof -
  have "solid s p" using assms by (simp add: dirs_solid_child)
  then show ?thesis
    using assms by (auto simp: dirs_solid_def solid_def split: if_splits)
qed

lemma synced_tickd: "synced d (tickd s) = tickd (synced d s)"
  by (simp add: synced_def tickd_def cong: if_cong)

lemma syscall_cases:
  assumes "syscall m s = (r, t)"
  obtains "r = Inl EIO" "t = tickd s" | "m (tickd s) = (r, t)"
proof (cases "fault_at s (clk s)")
  case None
  then have "m (tickd s) = (r, t)" using assms by (simp add: syscall_def tickd_def)
  then show thesis by (rule that(2))
next
  case (Some k)
  then have "r = Inl EIO" "t = tickd s" using assms by (simp_all add: syscall_def tickd_def)
  then show thesis by (rule that(1))
qed

lemma sync_dir_cases:
  assumes "sync_dir d s = (r, t)"
  obtains e where "r = Inl e" "t = tickd s" | "r = Inr ()" "t = synced d (tickd s)"
  using assms unfolding sync_dir_def
proof (rule syscall_cases)
  assume r: "r = Inl EIO" "t = tickd s"
  show thesis by (rule that(1) [OF r])
next
  assume "(\<lambda>s. if is_dir s d then (Inr (), s\<lparr>lo := \<lambda>p. if p \<noteq> [] \<and> butlast p = d then ver s p else lo s p\<rparr>)
      else (Inl ENoEnt, s)) (tickd s) = (r, t)"
  then show thesis using that unfolding synced_def by (cases "is_dir (tickd s) d") auto
qed

lemma std_create_dir_cases:
  assumes "std_create_dir (d @ [n]) s = (r, t)" "is_dir s d"
  obtains "r = Inl EIO" "t = tickd s" | "r = Inl EExists" "t = tickd s" "ent s (d @ [n]) \<noteq> None"
    | "r = Inr ()" "t = set_ent (d @ [n]) (Some Dir) (tickd s)" "ent s (d @ [n]) = None"
  using assms(1) unfolding std_create_dir_def
proof (rule syscall_cases)
  assume r: "r = Inl EIO" "t = tickd s"
  show thesis by (rule that(1) [OF r])
next
  assume "(if exists_path (tickd s) (d @ [n]) then (Inl EExists, tickd s)
     else case parent (d @ [n]) of None \<Rightarrow> (Inl ENoEnt, tickd s)
       | Some da \<Rightarrow> if is_dir (tickd s) da then (Inr (), set_ent (d @ [n]) (Some Dir) (tickd s))
           else (Inl ENoEnt, tickd s)) = (r, t)"
  then show thesis
    using that assms(2) by (cases "exists_path (tickd s) (d @ [n])") (auto simp: exists_path_def parent_def is_dir_def)
qed

lemma create_dir_all_step:
  assumes "dir_closed z P" "\<And>s. P s \<Longrightarrow> dir_ok s (d @ [n])" "P s" "fs_wf s" "dirs_solid s" "is_dir s d"
    and z: "prefix (d @ [n]) z"
    and r: "(case std_create_dir (d @ [n]) s of
               (Inr _, u) \<Rightarrow> sync_dir d u
             | (Inl EExists, u) \<Rightarrow> (Inr (), u)
             | (Inl e, u) \<Rightarrow> (Inl e, u)) = (r, t)"
  shows "P t \<and> fs_wf t \<and> (r = Inr () \<longrightarrow> dirs_solid t \<and> is_dir t (d @ [n]))"
proof -
  note tick = assms(1) [unfolded dir_closed_def, THEN conjunct1, rule_format]
  note sync = assms(1) [unfolded dir_closed_def, THEN conjunct2, THEN conjunct1, rule_format]
  note mk = assms(1) [unfolded dir_closed_def, THEN conjunct2, THEN conjunct2, rule_format]
  let ?p = "d @ [n]" and ?m = "set_ent (d @ [n]) (Some Dir) (tickd s)"
  obtain r1 u where 1: "std_create_dir ?p s = (r1, u)" by force
  from 1 assms(6) show ?thesis
  proof (cases rule: std_create_dir_cases)
    case e: 1
    have "r = Inl EIO" "t = tickd s" using r unfolding 1 e by simp_all
    then show ?thesis using assms(3,4) tick by simp
  next
    case e: 2
    have rt: "r = Inr ()" "t = tickd s" using r unfolding 1 e by simp_all
    have "ent s ?p = Some Dir"
      using assms(2) [OF assms(3)] e(3) unfolding dir_ok_def
      by (metis node.exhaust option.exhaust prefix_order.refl)
    then show ?thesis using rt assms(3,4,5) tick by (simp add: is_dir_def)
  next
    case e: 3
    have sd: "sync_dir d ?m = (r, t)" using r unfolding 1 e by simp
    have m: "P ?m" "fs_wf ?m" using e(3) assms(3,4) mk [OF _ z] tick by simp_all
    have ds: "dirs_solid (synced d (tickd ?m))"
      using dirs_solid_mkdir [of "tickd s" d ?p n] e(3) assms(4,5,6)
      by (simp add: synced_tickd is_dir_def)
    from sd show ?thesis
    proof (cases rule: sync_dir_cases)
      case (1 e)
      then show ?thesis using m tick by simp
    next
      case 2
      then show ?thesis using m tick sync ds by (simp add: is_dir_def)
    qed
  qed
qed

lemma create_dir_all_ok:
  assumes "dir_closed z P" "\<And>s. P s \<Longrightarrow> dir_ok s p" "P s" "fs_wf s" "dirs_solid s" "prefix p z"
    and "create_dir_all p s = (r, t)"
  shows "P t \<and> fs_wf t \<and> (r = Inr () \<longrightarrow> dirs_solid t \<and> is_dir t p)"
  using assms(2-)
proof (induction p arbitrary: s r t rule: rev_induct)
  case Nil
  then show ?case by (auto simp: create_dir_all.simps is_dir_def ent_def)
next
  case (snoc n d)
  let ?p = "d @ [n]"
  show ?case
  proof (cases "is_dir s ?p")
    case True
    then show ?thesis using snoc.prems by (auto simp: create_dir_all.simps [of ?p])
  next
    case False
    obtain r1 u where 1: "create_dir_all d s = (r1, u)" by force
    have "dir_ok s d" if "P s" for s
      using snoc.prems(1) [OF that] by (auto simp: dir_ok_def)
    then have IH: "P u \<and> fs_wf u \<and> (r1 = Inr () \<longrightarrow> dirs_solid u \<and> is_dir u d)"
      using snoc.IH [OF _ snoc.prems(2,3,4) append_prefixD [OF snoc.prems(5)] 1] by blast
    show ?thesis
    proof (cases r1)
      case (Inl e)
      then show ?thesis
        using IH False 1 snoc.prems(6) by (auto simp: create_dir_all.simps [of ?p] parent_def)
    next
      case (Inr x)
      have "(case std_create_dir ?p u of (Inr _, u) \<Rightarrow> sync_dir d u
              | (Inl EExists, u) \<Rightarrow> (Inr (), u) | (Inl e, u) \<Rightarrow> (Inl e, u)) = (r, t)"
        using Inr False 1 snoc.prems(6) by (simp add: create_dir_all.simps [of ?p] parent_def)
      then show ?thesis
        using IH Inr snoc.prems(5) by (intro create_dir_all_step [OF assms(1) snoc.prems(1)]) auto
    qed
  qed
qed

lemma dir_closed_dir_ok: "dir_closed z (\<lambda>s. dir_ok s p)"
  by (auto simp: dir_closed_def dir_ok_def)

lemma triple_create_dir_all:
  assumes "dir_closed p P"
  shows "triple (\<lambda>s. P s \<and> dir_ok s p \<and> fs_wf s \<and> dirs_solid s) (create_dir_all p)
     (\<lambda>_ s. P s \<and> dir_ok s p \<and> fs_wf s \<and> dirs_solid s \<and> is_dir s p) (\<lambda>s. P s \<and> fs_wf s)"
proof -
  have c: "dir_closed p (\<lambda>s. P s \<and> dir_ok s p)"
    using assms dir_closed_dir_ok [of p p] unfolding dir_closed_def by blast
  show ?thesis
    unfolding triple_def
  proof (intro allI impI)
    fix s
    assume pre: "P s \<and> dir_ok s p \<and> fs_wf s \<and> dirs_solid s"
    obtain r t where rt: "create_dir_all p s = (r, t)" by force
    have "(P t \<and> dir_ok t p) \<and> fs_wf t \<and> (r = Inr () \<longrightarrow> dirs_solid t \<and> is_dir t p)"
      by (rule create_dir_all_ok [OF c _ _ _ _ _ rt]) (use pre in auto)
    then show "case create_dir_all p s of
        (Inr x, t) \<Rightarrow> P t \<and> dir_ok t p \<and> fs_wf t \<and> dirs_solid t \<and> is_dir t p
      | (Inl e, t) \<Rightarrow> P t \<and> fs_wf t"
      unfolding rt by (cases r) simp_all
  qed
qed

section \<open>A crash always has an outcome\<close>

text \<open>The crash that keeps every directory entry and drops every unsynced byte.\<close>

definition settle :: "fs \<Rightarrow> fs" where
  "settle s =
     (let e = at_version s (ver s); d = (\<lambda>i. case dur s i of Some b \<Rightarrow> b | None \<Rightarrow> []) in
      s\<lparr>hist := (\<lambda>p k. if reach e p then e p else None), lo := ver s, deps := [],
        data := d, dur := (\<lambda>i. Some (d i))\<rparr>)"

lemma crash_settle: "fs_wf s \<Longrightarrow> crash s (settle s)"
proof -
  assume "fs_wf s"
  then have "valid s (ver s)" by (rule valid_current)
  moreover have "ent (settle s) p = (if reach (at_version s (ver s)) p then at_version s (ver s) p else None)" for p
    by (cases "p = []") (simp add: ent_def at_version_def reach_def, simp add: settle_def Let_def ent_def)
  ultimately show ?thesis
    unfolding crash_def by (intro conjI exI [of _ "ver s"]) (auto simp: settle_def Let_def split: option.splits)
qed

section \<open>File systems at rest\<close>

text \<open>A file system with everything synced, from its entries and the contents of its inodes.\<close>

definition fs_of :: "(path \<times> node) list \<Rightarrow> (nat \<Rightarrow> bytes) \<Rightarrow> fs" where
  "fs_of es d =
     \<lparr>names = map fst es, hist = (\<lambda>p k. map_of es p), ver = (\<lambda>p. 0), lo = (\<lambda>p. 0), deps = [],
      data = d, dur = (\<lambda>i. Some (d i)), mtime = (\<lambda>i. 0), next_inode = length es, now = 0,
      fault_at = (\<lambda>k. None), clk = 0\<rparr>"

definition tree_ok :: "(path \<times> node) list \<Rightarrow> bool" where
  "tree_ok es \<longleftrightarrow>
     list_all (\<lambda>(p, n). list_all (\<lambda>k. map_of es (take k p) = Some Dir) [1..<length p]) es"

lemma ent_fs_of [simp]: "ent (fs_of es d) p = (if p = [] then Some Dir else map_of es p)"
  by (simp add: ent_def fs_of_def)

lemma fs_of_sel [simp]: "data (fs_of es d) = d" "dur (fs_of es d) i = Some (d i)" "fs_wf (fs_of es d)"
  "names (fs_of es d) = map fst es"
  by (simp_all add: fs_of_def fs_wf_def)

lemma solid_fs_of:
  assumes "tree_ok es" "map_of es p = Some n"
  shows "solid (fs_of es d) p"
proof -
  have "map_of es (take k p) = Some Dir" if "0 < k" "k < length p" for k
    using assms map_of_SomeD [OF assms(2)] that by (fastforce simp: tree_ok_def list_all_iff)
  then show ?thesis by (auto simp: solid_def fs_of_def ent_def)
qed

lemma dirs_solid_fs_of: "tree_ok es \<Longrightarrow> dirs_solid (fs_of es d)"
  unfolding dirs_solid_def
proof (intro allI impI conjI)
  fix q
  assume "tree_ok es" "ent (fs_of es d) q = Some Dir"
  then show "solid (fs_of es d) q" by (cases "q = []") (simp add: solid_def, simp add: solid_fs_of)
  show "lo (fs_of es d) q = ver (fs_of es d) q" by (simp add: fs_of_def)
qed

lemma safe_fs_of:
  assumes "tree_ok es" "map_of es p = Some (File i)" "p \<noteq> []"
  shows "safe_at (fs_of es d) {p} i"
  using assms by (intro safe_at_single solid_fs_of) (auto simp: fs_of_def ent_def fs_wf_def)

lemma dir_ok_fs_of:
  assumes "list_all (\<lambda>k. case map_of es (take k p) of Some (File i) \<Rightarrow> False | _ \<Rightarrow> True) [0..<Suc (length p)]"
  shows "dir_ok (fs_of es d) p"
  unfolding dir_ok_def
proof (intro allI impI notI)
  fix q i
  assume q: "prefix q p" "ent (fs_of es d) q = Some (File i)"
  then have "map_of es q = Some (File i)" by (simp split: if_splits)
  moreover have "q = take (length q) p" "length q < Suc (length p)" using q(1) by (auto simp: prefix_def)
  ultimately have "case map_of es q of Some (File i) \<Rightarrow> False | _ \<Rightarrow> True"
    using assms unfolding list_all_iff by (metis atLeastLessThan_iff atLeastLessThan_upt le0)
  then show False using \<open>map_of es q = Some (File i)\<close> by simp
qed

end
