(* ===== verification/Crc32.thy ===== *)
theory Crc32
  imports Prelude
begin

text \<open>
  The table-driven CRC32 (IEEE) of \<^verbatim>\<open>crates/loglake-wal/src/lib.rs\<close>, its equivalence with
  the bit-at-a-time polynomial division, the incremental law the \<^verbatim>\<open>CrcWriter\<close> adapter rests
  on, and the detection of every corruption confined to one byte.
\<close>

section \<open>The code\<close>

text \<open>One round of the inner \<^verbatim>\<open>while k < 8\<close> loop that fills \<^verbatim>\<open>CRC32_TABLE\<close>.\<close>

definition crc32_bit :: "u32 \<Rightarrow> u32" where
  "crc32_bit c = (if c AND 1 \<noteq> 0 then 0xEDB88320 XOR drop_bit 1 c else drop_bit 1 c)"

definition CRC32_TABLE :: "u32 list" where
  "CRC32_TABLE = map (\<lambda>i. (crc32_bit ^^ 8) (of_nat i)) [0..<256]"

definition crc32_step :: "u32 \<Rightarrow> u8 \<Rightarrow> u32" where
  "crc32_step c b = CRC32_TABLE ! unat ((c XOR ucast b) AND 0xFF) XOR drop_bit 8 c"

primrec crc32_update :: "u32 \<Rightarrow> bytes \<Rightarrow> u32" where
  "crc32_update c [] = c"
| "crc32_update c (b # bs) = crc32_update (crc32_step c b) bs"

definition crc32 :: "bytes \<Rightarrow> u32" where
  "crc32 bs = crc32_update 0xFFFFFFFF bs XOR 0xFFFFFFFF"

text \<open>The \<^verbatim>\<open>CrcWriter\<close> adapter: the bytes it has forwarded and the running state.\<close>

record 'w crc_writer =
  cw_inner :: 'w
  cw_state :: u32

definition crc_writer_new :: "'w \<Rightarrow> 'w crc_writer" where
  "crc_writer_new inner = \<lparr>cw_inner = inner, cw_state = 0xFFFFFFFF\<rparr>"

text \<open>The inner writer says how many bytes of the buffer it took; only those are folded in.\<close>

definition crc_writer_write :: "('w \<Rightarrow> bytes \<Rightarrow> nat \<times> 'w) \<Rightarrow> bytes \<Rightarrow> 'w crc_writer \<Rightarrow> nat \<times> 'w crc_writer" where
  "crc_writer_write inner_write buf w =
     (let (n, inner) = inner_write (cw_inner w) buf in
      (n, \<lparr>cw_inner = inner, cw_state = crc32_update (cw_state w) (take n buf)\<rparr>))"

definition crc_writer_into_parts :: "'w crc_writer \<Rightarrow> u32 \<times> 'w" where
  "crc_writer_into_parts w = (cw_state w XOR 0xFFFFFFFF, cw_inner w)"

section \<open>The bit-at-a-time reference\<close>

definition crc32_ref_step :: "u32 \<Rightarrow> u8 \<Rightarrow> u32" where
  "crc32_ref_step c b = (crc32_bit ^^ 8) (c XOR ucast b)"

definition crc32_ref :: "bytes \<Rightarrow> u32" where
  "crc32_ref bs = foldl crc32_ref_step 0xFFFFFFFF bs XOR 0xFFFFFFFF"

lemma crc32_bit_alt: "crc32_bit c = (if bit c 0 then 0xEDB88320 XOR drop_bit 1 c else drop_bit 1 c)"
  by (simp add: crc32_bit_def bit_0 and_one_eq odd_iff_mod_2_eq_one)

lemma crc32_bit_xor: "crc32_bit (x XOR y) = crc32_bit x XOR crc32_bit y"
  unfolding crc32_bit_alt
  by (auto simp: bit_simps drop_bit_xor ac_simps bit.xor_left_self
           simp del: bit_0)


lemma crc32_bit_inj: "crc32_bit x = crc32_bit y \<longleftrightarrow> x = y"
proof
  assume eq: "crc32_bit x = crc32_bit y"
  have top: "bit (crc32_bit c) 31 \<longleftrightarrow> bit c 0" for c
    by (auto simp: crc32_bit_alt bit_simps simp del: bit_0 dest: bit_imp_le_length)
  have b0: "bit x 0 = bit y 0"
    using top[of x] top[of y] eq by simp
  then have "drop_bit 1 x = drop_bit 1 y"
    using eq by (auto simp: crc32_bit_alt split: if_splits)
  then have "bit x (Suc n) = bit y (Suc n)" for n
    by (metis bit_drop_bit_eq comp_apply plus_1_eq_Suc)
  with b0 show "x = y"
    by (intro bit_word_eqI) (metis not0_implies_Suc)
qed simp

lemma crc32_bit_zero: "crc32_bit 0 = 0"
  by (simp add: crc32_bit_def)

lemma crc32_bits_xor: "(crc32_bit ^^ n) (x XOR y) = (crc32_bit ^^ n) x XOR (crc32_bit ^^ n) y"
  by (induction n) (auto simp: crc32_bit_xor)

lemma crc32_bits_inj: "(crc32_bit ^^ n) x = (crc32_bit ^^ n) y \<longleftrightarrow> x = y"
  by (induction n) (auto simp: crc32_bit_inj)

text \<open>Rounds that only ever see a clear low bit are shifts.\<close>

lemma crc32_bits_shift:
  "(\<And>i. i < n \<Longrightarrow> \<not> bit x i) \<Longrightarrow> (crc32_bit ^^ n) x = drop_bit n x"
proof (induction n)
  case (Suc n)
  then have IH: "(crc32_bit ^^ n) x = drop_bit n x" by simp
  have "\<not> bit (drop_bit n x) 0"
    using Suc.prems[of n] by (simp add: bit_drop_bit_eq del: bit_0)
  then have "crc32_bit (drop_bit n x) = drop_bit 1 (drop_bit n x)"
    by (simp add: crc32_bit_alt del: bit_0)
  then show ?case by (simp add: IH)
qed simp

lemma CRC32_TABLE_nth: "n < 256 \<Longrightarrow> CRC32_TABLE ! n = (crc32_bit ^^ 8) (of_nat n)"
  by (simp add: CRC32_TABLE_def)

lemma low_byte_lt: "unat ((x :: u32) AND 0xFF) < 256"
proof -
  have "unat (x AND 0xFF) \<le> unat (0xFF :: u32)"
    by (rule word_and_le1 [THEN word_le_nat_alt [THEN iffD1]])
  then show ?thesis by simp
qed

lemma split_low_byte: "x = (x AND 0xFF) XOR push_bit 8 (drop_bit 8 x)" for x :: u32
proof -
  have m: "(0xFF :: u32) = mask 8" by (simp add: mask_eq_exp_minus_1)
  show ?thesis
    unfolding m by (rule bit_word_eqI) (auto simp: bit_simps)
qed

text \<open>The table lookup is eight rounds of the polynomial division at once.\<close>

lemma crc32_table_step:
  "CRC32_TABLE ! unat (x AND 0xFF) XOR drop_bit 8 x = (crc32_bit ^^ 8) x"
proof -
  have "(crc32_bit ^^ 8) x = (crc32_bit ^^ 8) ((x AND 0xFF) XOR push_bit 8 (drop_bit 8 x))"
    by (subst split_low_byte) (rule refl)
  also have "\<dots> = (crc32_bit ^^ 8) (x AND 0xFF) XOR (crc32_bit ^^ 8) (push_bit 8 (drop_bit 8 x))"
    by (rule crc32_bits_xor)
  also have "(crc32_bit ^^ 8) (push_bit 8 (drop_bit 8 x)) = drop_bit 8 (push_bit 8 (drop_bit 8 x))"
    by (rule crc32_bits_shift) (auto simp: bit_simps)
  also have "drop_bit 8 (push_bit 8 (drop_bit 8 x)) = drop_bit 8 x"
    by (rule bit_word_eqI) (auto simp: bit_simps dest: bit_imp_le_length)
  also have "(crc32_bit ^^ 8) (x AND 0xFF) = CRC32_TABLE ! unat (x AND 0xFF)"
    by (simp add: CRC32_TABLE_nth low_byte_lt)
  finally show ?thesis by simp
qed

lemma drop_byte_xor: "drop_bit 8 (c XOR ucast (b :: u8)) = drop_bit 8 (c :: u32)"
  by (rule bit_word_eqI) (auto simp: bit_simps dest: bit_imp_le_length)

lemma crc32_step_ref: "crc32_step c b = crc32_ref_step c b"
  unfolding crc32_step_def crc32_ref_step_def
  using crc32_table_step[of "c XOR ucast b"] unfolding drop_byte_xor .

lemma crc32_update_ref: "crc32_update c bs = foldl crc32_ref_step c bs"
  by (induction bs arbitrary: c) (auto simp: crc32_step_ref)

text \<open>Incrementality: what lets the writer checksum a segment while it streams.\<close>

lemma crc32_update_append: "crc32_update c (xs @ ys) = crc32_update (crc32_update c xs) ys"
  by (induction xs arbitrary: c) auto

section \<open>Error detection\<close>

lemma crc32_ref_step_inj_state: "crc32_ref_step c b = crc32_ref_step d b \<longleftrightarrow> c = d"
  by (simp add: crc32_ref_step_def crc32_bits_inj)

lemma crc32_ref_step_inj_byte: "crc32_ref_step c b = crc32_ref_step c b' \<longleftrightarrow> b = b'"
proof -
  have "(ucast b :: u32) = ucast b' \<longleftrightarrow> b = b'"
  proof
    assume eq: "(ucast b :: u32) = ucast b'"
    have "bit b n = bit b' n" if "n < 8" for n
      using arg_cong [OF eq, of "\<lambda>w. bit w n"] that by (simp add: bit_simps)
    then show "b = b'" by (intro bit_word_eqI) simp
  qed simp
  then show ?thesis
    by (simp add: crc32_ref_step_def crc32_bits_inj)
qed

lemma crc32_update_inj: "crc32_update c bs = crc32_update d bs \<longleftrightarrow> c = d"
  by (induction bs arbitrary: c d) (auto simp: crc32_step_ref crc32_ref_step_inj_state)

lemma crc32_one_byte:
  assumes "b \<noteq> b'"
  shows "crc32 (xs @ b # ys) \<noteq> crc32 (xs @ b' # ys)"
  using assms
  by (simp add: crc32_def crc32_update_append crc32_update_inj crc32_step_ref
      crc32_ref_step_inj_byte)

section \<open>The streaming checksum\<close>

text \<open>An inner writer over a byte vector that takes the first \<open>n\<close> bytes of what it is given.\<close>

definition vec_write :: "nat \<Rightarrow> bytes \<Rightarrow> bytes \<Rightarrow> nat \<times> bytes" where
  "vec_write n v buf = (min n (length buf), v @ take n buf)"

lemma crc_writer_fold:
  "fold (\<lambda>(n, buf) w. snd (crc_writer_write (vec_write n) buf w)) ws w =
     \<lparr>cw_inner = cw_inner w @ concat (map (\<lambda>(n, buf). take n buf) ws),
      cw_state = crc32_update (cw_state w) (concat (map (\<lambda>(n, buf). take n buf) ws))\<rparr>"
  by (induction ws arbitrary: w)
    (auto simp: crc_writer_write_def vec_write_def crc32_update_append min_def)

text \<open>C6. The table-driven checksum the writer accumulates while it streams, over any sequence of
  writes of which the inner writer may accept only a prefix each, is the bit-at-a-time CRC-32
  (reflected polynomial \<^verbatim>\<open>0xEDB88320\<close>) of exactly the bytes that reached the inner writer.\<close>

theorem crc_writer_stream:
  "crc_writer_into_parts
       (fold (\<lambda>(n, buf) w. snd (crc_writer_write (vec_write n) buf w)) ws (crc_writer_new inner)) =
     (crc32_ref (concat (map (\<lambda>(n, buf). take n buf) ws)),
      inner @ concat (map (\<lambda>(n, buf). take n buf) ws))"
  by (simp add: crc_writer_fold crc_writer_into_parts_def crc_writer_new_def crc32_ref_def
      crc32_update_ref)

end
