(* ===== verification/IpcExtent.thy ===== *)
theory IpcExtent
  imports Prelude
begin

text \<open>
  The Arrow IPC framing walk of \<^verbatim>\<open>crates/loglake-wal/src/lib.rs\<close> (\<^verbatim>\<open>ipc_stream_extent\<close>) and
  the two readers built on it. The flatbuffer verifier \<^verbatim>\<open>arrow::ipc::root_as_message\<close> and
  \<^verbatim>\<open>StreamReader\<close> belong to the arrow crate: \<open>root\<close> (the metadata's \<^verbatim>\<open>bodyLength\<close>, if the
  metadata verifies) and \<open>decode\<close> (the batches, if the stream decodes) are parameters.
\<close>

section \<open>The code\<close>

definition IPC_CONTINUATION_MARKER :: bytes where
  "IPC_CONTINUATION_MARKER = [0xFF, 0xFF, 0xFF, 0xFF]"

text \<open>The \<^verbatim>\<open>detail\<close> strings, one constructor per message with the numbers it prints.\<close>

datatype ipc_detail =
    NoMetadataLength
  | NegativeMetadata int
  | MetadataExceeds nat nat
  | FlatbufferRejects nat
  | NegativeBody int
  | BodyExceeds nat nat

datatype IpcStreamExtent =
    Complete
  | Truncated nat ipc_detail
  | Malformed nat ipc_detail

text \<open>From the metadata length prefix on: the rest of one iteration, ending at the next position.\<close>

definition ipc_message :: "(bytes \<Rightarrow> u64 option) \<Rightarrow> bytes \<Rightarrow> nat \<Rightarrow> bytes \<Rightarrow> nat \<Rightarrow> IpcStreamExtent + nat" where
  "ipc_message root bs start prefix pos =
     (let declared_meta = sint (from_le prefix :: u32) in
      if declared_meta = 0 then Inl Complete
      else if declared_meta < 0 then Inl (Malformed start (NegativeMetadata declared_meta))
      else let meta_len = nat declared_meta; remaining = length bs - pos in
        if remaining < meta_len then Inl (Truncated start (MetadataExceeds meta_len remaining))
        else let meta = subslice pos (pos + meta_len) bs; pos = pos + meta_len in
          case root meta of
            None \<Rightarrow> Inl (Malformed start (FlatbufferRejects meta_len))
          | Some w \<Rightarrow>
              let declared_body = sint w in
              if declared_body < 0 then Inl (Malformed start (NegativeBody declared_body))
              else let body_len = nat declared_body; remaining = length bs - pos in
                if remaining < body_len then Inl (Truncated start (BodyExceeds body_len remaining))
                else Inr (pos + body_len))"

text \<open>One iteration of the loop from \<open>pos\<close>.\<close>

definition ipc_iter :: "(bytes \<Rightarrow> u64 option) \<Rightarrow> bytes \<Rightarrow> nat \<Rightarrow> IpcStreamExtent + nat" where
  "ipc_iter root bs pos =
     (if length bs - pos < 4 then Inl Complete
      else let start = pos; prefix = subslice pos (pos + 4) bs; pos = pos + 4 in
        if prefix = IPC_CONTINUATION_MARKER then
          (if length bs - pos < 4 then Inl (Truncated start NoMetadataLength)
           else ipc_message root bs start (subslice pos (pos + 4) bs) (pos + 4))
        else ipc_message root bs start prefix pos)"

lemma ipc_message_next:
  "ipc_message root bs start prefix pos = Inr next \<Longrightarrow> pos \<le> length bs \<Longrightarrow> pos < next \<and> next \<le> length bs"
  by (auto simp: ipc_message_def Let_def split: if_splits option.splits)

lemma ipc_iter_next: "ipc_iter root bs pos = Inr next \<Longrightarrow> pos < next \<and> next \<le> length bs"
  by (auto simp: ipc_iter_def Let_def split: if_splits dest!: ipc_message_next)

function ipc_walk :: "(bytes \<Rightarrow> u64 option) \<Rightarrow> bytes \<Rightarrow> nat \<Rightarrow> IpcStreamExtent" where
  "ipc_walk root bs pos =
     (case ipc_iter root bs pos of Inl e \<Rightarrow> e | Inr next \<Rightarrow> ipc_walk root bs next)"
  by pat_completeness auto
termination
  by (relation "measure (\<lambda>(root, bs, pos). length bs - pos)") (auto dest: ipc_iter_next)

declare ipc_walk.simps [simp del]

definition ipc_stream_extent :: "(bytes \<Rightarrow> u64 option) \<Rightarrow> bytes \<Rightarrow> IpcStreamExtent" where
  "ipc_stream_extent root bs = ipc_walk root bs 0"

datatype read_error =
    FrameShort
  | FrameVersion u8
  | FrameShortVersion u8
  | FrameBodyLength nat nat
  | FrameBodyCrc u32 u32
  | ZstdError
  | IpcFraming nat ipc_detail
  | IpcDecode
  | SidecarParse
  | SidecarCrc u32 u32

definition decode_ipc_stream :: "(bytes \<Rightarrow> 'batch list option) \<Rightarrow> bytes \<Rightarrow> read_error + 'batch list" where
  "decode_ipc_stream decode bs = (case decode bs of None \<Rightarrow> Inl IpcDecode | Some v \<Rightarrow> Inr v)"

definition read_segment_bytes ::
  "(bytes \<Rightarrow> u64 option) \<Rightarrow> (bytes \<Rightarrow> 'batch list option) \<Rightarrow> bytes \<Rightarrow> read_error + 'batch list" where
  "read_segment_bytes root decode bs =
     (case ipc_stream_extent root bs of
        Complete \<Rightarrow> decode_ipc_stream decode bs
      | Truncated offset detail \<Rightarrow> Inl (IpcFraming offset detail)
      | Malformed offset detail \<Rightarrow> Inl (IpcFraming offset detail))"

definition read_partial_segment_bytes ::
  "(bytes \<Rightarrow> u64 option) \<Rightarrow> (bytes \<Rightarrow> 'batch list option) \<Rightarrow> bytes \<Rightarrow> read_error + 'batch list" where
  "read_partial_segment_bytes root decode bs =
     (case ipc_stream_extent root bs of
        Complete \<Rightarrow> decode_ipc_stream decode bs
      | Malformed offset detail \<Rightarrow> Inl (IpcFraming offset detail)
      | Truncated torn_at detail \<Rightarrow>
          (case decode_ipc_stream decode (take torn_at bs) of
             Inl e \<Rightarrow> Inl e
           | Inr batches \<Rightarrow> if batches = [] then Inl (IpcFraming torn_at detail) else Inr batches))"

section \<open>The walk on a prefix\<close>

text \<open>A message that fits below \<open>off\<close> is walked the same way when the stream ends at \<open>off\<close>.\<close>

lemma subslice_take_below: "j \<le> off \<Longrightarrow> subslice i j (take off xs) = subslice i j xs"
  by (simp add: subslice_def drop_take min_def)

lemma ipc_message_take:
  assumes "ipc_message root bs start prefix pos = Inr next" "next \<le> off" "off \<le> length bs"
  shows "ipc_message root (take off bs) start prefix pos = Inr next"
proof -
  define m where "m = sint (from_le prefix :: u32)"
  obtain w where m: "0 < m" "\<not> length bs - pos < nat m"
    and w: "root (subslice pos (pos + nat m) bs) = Some w" "0 \<le> sint w"
      "\<not> length bs - (pos + nat m) < nat (sint w)"
    and n: "next = pos + nat m + nat (sint w)"
    using assms(1) by (auto simp: ipc_message_def Let_def m_def split: if_splits option.splits)
  define k b where "k = nat m" and "b = nat (sint w)"
  have "\<not> off - pos < k" "\<not> off - (pos + k) < b" "pos + k \<le> off"
    using n assms(2) unfolding k_def [symmetric] b_def [symmetric] by auto
  then show ?thesis
    using m w n assms(3)
    by (simp add: ipc_message_def Let_def m_def [symmetric] k_def b_def subslice_take_below min_absorb1 min_absorb2)
qed

lemma ipc_iter_take:
  assumes it: "ipc_iter root bs pos = Inr next" and off: "next \<le> off" "off \<le> length bs"
  shows "ipc_iter root (take off bs) pos = Inr next"
proof -
  have len: "\<not> length bs - pos < 4" using it by (auto simp: ipc_iter_def split: if_splits)
  show ?thesis
  proof (cases "subslice pos (pos + 4) bs = IPC_CONTINUATION_MARKER")
    case True
    then have m: "ipc_message root bs pos (subslice (pos + 4) (pos + 8) bs) (pos + 8) = Inr next"
      and l8: "\<not> length bs - (pos + 4) < 4"
      using it len by (auto simp: ipc_iter_def Let_def add.assoc split: if_splits)
    have "pos + 8 < next" using ipc_message_next [OF m] l8 by simp
    then show ?thesis
      using True m off ipc_message_take [OF m]
      by (auto simp: ipc_iter_def Let_def subslice_take_below add.assoc)
  next
    case False
    then have m: "ipc_message root bs pos (subslice pos (pos + 4) bs) (pos + 4) = Inr next"
      using it len by (auto simp: ipc_iter_def Let_def split: if_splits)
    have "pos + 4 < next" using ipc_message_next [OF m] len by simp
    then show ?thesis
      using False m off ipc_message_take [OF m]
      by (auto simp: ipc_iter_def Let_def subslice_take_below)
  qed
qed

lemma ipc_message_Truncated:
  "ipc_message root bs start prefix pos = Inl (Truncated off d) \<Longrightarrow> off = start"
  by (auto simp: ipc_message_def Let_def split: if_splits option.splits)

lemma ipc_iter_Truncated:
  "ipc_iter root bs pos = Inl (Truncated off d) \<Longrightarrow> off = pos \<and> pos \<le> length bs"
  by (auto simp: ipc_iter_def Let_def split: if_splits dest: ipc_message_Truncated)

lemma ipc_iter_at_end: "length bs \<le> pos \<Longrightarrow> ipc_iter root bs pos = Inl Complete"
  by (simp add: ipc_iter_def)

lemma ipc_walk_prefix:
  assumes "ipc_walk root bs pos = Truncated off d"
  shows "pos \<le> off \<and> off \<le> length bs \<and> ipc_walk root (take off bs) pos = Complete"
  using assms
proof (induction root bs pos rule: ipc_walk.induct)
  case (1 root bs pos)
  show ?case
  proof (cases "ipc_iter root bs pos")
    case (Inl e)
    then have "off = pos \<and> pos \<le> length bs"
      using "1.prems" by (subst (asm) ipc_walk.simps) (auto dest: ipc_iter_Truncated)
    then show ?thesis
      by (subst ipc_walk.simps) (simp add: ipc_iter_at_end)
  next
    case (Inr n)
    then have "ipc_walk root bs n = Truncated off d"
      using "1.prems" by (subst (asm) ipc_walk.simps) simp
    then have IH: "n \<le> off \<and> off \<le> length bs \<and> ipc_walk root (take off bs) n = Complete"
      using "1.IH" Inr by blast
    then have "ipc_iter root (take off bs) pos = Inr n"
      using Inr by (intro ipc_iter_take) auto
    then show ?thesis
      using IH ipc_iter_next [OF Inr] by (subst ipc_walk.simps) auto
  qed
qed

section \<open>Streams of whole messages\<close>

text \<open>
  The encapsulated message format: continuation marker, metadata length, metadata, body.
  \<open>ipc_wf root m\<close> is what the arrow writer guarantees of a message it emits: a metadata
  length that fits an \<^verbatim>\<open>i32\<close> and metadata whose \<^verbatim>\<open>bodyLength\<close> is the body's.
\<close>

definition ipc_encap :: "bytes \<times> bytes \<Rightarrow> bytes" where
  "ipc_encap m = IPC_CONTINUATION_MARKER @ to_le 4 (of_nat (length (fst m)) :: u32) @ fst m @ snd m"

definition ipc_wf :: "(bytes \<Rightarrow> u64 option) \<Rightarrow> bytes \<times> bytes \<Rightarrow> bool" where
  "ipc_wf root m \<longleftrightarrow> 0 < length (fst m) \<and> length (fst m) < 2 ^ 31 \<and> length (snd m) < 2 ^ 63 \<and>
     root (fst m) = Some (of_nat (length (snd m)))"

lemma sint_of_nat_u32: "n < 2 ^ 31 \<Longrightarrow> sint (of_nat n :: u32) = int n"
  by (simp add: signed_of_nat signed_take_bit_int_eq_self)

lemma sint_of_nat_u64: "n < 2 ^ 63 \<Longrightarrow> sint (of_nat n :: u64) = int n"
  by (simp add: signed_of_nat signed_take_bit_int_eq_self)

lemma length_ipc_encap: "length (ipc_encap m) = 8 + length (fst m) + length (snd m)"
  by (simp add: ipc_encap_def IPC_CONTINUATION_MARKER_def)

lemma subslice_middle: "length pre = p \<Longrightarrow> length x = n \<Longrightarrow> subslice p (p + n) (pre @ x @ rest) = x"
  by (simp add: subslice_def)

lemma ipc_iter_whole:
  assumes wf: "ipc_wf root m"
  shows "ipc_iter root (pre @ ipc_encap m @ rest) (length pre) = Inr (length pre + length (ipc_encap m))"
proof -
  let ?p = "length pre" and ?k = "length (fst m)"
  let ?bs = "pre @ ipc_encap m @ rest" and ?l = "to_le 4 (of_nat ?k :: u32)"
  have 1: "subslice ?p (?p + 4) ?bs = IPC_CONTINUATION_MARKER"
    by (simp add: subslice_def ipc_encap_def IPC_CONTINUATION_MARKER_def)
  have 2: "subslice (?p + 4) (?p + 8) ?bs = ?l"
    by (simp add: subslice_def ipc_encap_def IPC_CONTINUATION_MARKER_def)
  have 3: "subslice (?p + 8) (?p + 8 + ?k) ?bs = fst m"
    by (simp add: subslice_def ipc_encap_def IPC_CONTINUATION_MARKER_def)
  have s: "sint (from_le ?l :: u32) = int ?k"
    using wf by (simp add: ipc_wf_def sint_of_nat_u32)
  have b: "sint (of_nat (length (snd m)) :: u64) = int (length (snd m))"
    using wf by (simp add: ipc_wf_def sint_of_nat_u64)
  have "ipc_message root ?bs ?p ?l (?p + 8) = Inr (?p + length (ipc_encap m))"
    using wf s b 3 by (simp add: ipc_message_def ipc_wf_def Let_def length_ipc_encap)
  then show ?thesis
    using 1 2 by (simp add: ipc_iter_def Let_def length_ipc_encap add.assoc)
qed

lemma ipc_iter_torn:
  fixes pre :: bytes
  assumes wf: "ipc_wf root m" and n: "n < length (ipc_encap m)"
  defines "r \<equiv> ipc_iter root (pre @ take n (ipc_encap m)) (length pre)"
  shows "n < 4 \<and> r = Inl Complete \<or> 4 \<le> n \<and> (\<exists>d. r = Inl (Truncated (length pre) d))"
proof (cases "n < 4")
  case True
  then show ?thesis by (simp add: r_def ipc_iter_def min_def)
next
  case False
  let ?p = "length pre" and ?k = "length (fst m)"
  let ?bs = "pre @ take n (ipc_encap m)" and ?l = "to_le 4 (of_nat ?k :: u32)"
  have len: "length ?bs = ?p + n" using n by simp
  have 1: "subslice ?p (?p + 4) ?bs = IPC_CONTINUATION_MARKER"
    using False by (simp add: subslice_def ipc_encap_def IPC_CONTINUATION_MARKER_def min_def)
  show ?thesis
  proof (cases "n < 8")
    case True
    then show ?thesis using False 1 len by (auto simp: r_def ipc_iter_def Let_def)
  next
    case n8: False
    have 2: "subslice (?p + 4) (?p + 8) ?bs = ?l"
      using n8 by (simp add: subslice_def ipc_encap_def IPC_CONTINUATION_MARKER_def drop_take)
    have s: "sint (from_le ?l :: u32) = int ?k"
      using wf by (simp add: ipc_wf_def sint_of_nat_u32)
    have b: "sint (of_nat (length (snd m)) :: u64) = int (length (snd m))"
      using wf by (simp add: ipc_wf_def sint_of_nat_u64)
    have "\<not> length ?bs - ?p < 4" "\<not> length ?bs - (?p + 4) < 4"
      using n8 unfolding len by auto
    then have r: "r = ipc_message root ?bs ?p ?l (?p + 8)"
      unfolding r_def ipc_iter_def Let_def 1 using 2 by (simp only: if_False if_True add.assoc) simp
    show ?thesis
    proof (cases "n < 8 + ?k")
      case True
      then show ?thesis
        using False r s len n8 wf by (auto simp: ipc_message_def Let_def ipc_wf_def)
    next
      case nk: False
      have "subslice (?p + 8) (?p + 8 + ?k) ?bs = fst m"
        using nk by (simp add: subslice_def ipc_encap_def IPC_CONTINUATION_MARKER_def drop_take)
      then show ?thesis
        using False nk r s b len n wf
        by (auto simp: ipc_message_def Let_def ipc_wf_def length_ipc_encap)
    qed
  qed
qed

definition ipc_stream :: "(bytes \<times> bytes) list \<Rightarrow> bytes" where
  "ipc_stream ms = concat (map ipc_encap ms)"

lemma ipc_stream_simps [simp]:
  "ipc_stream [] = []" "ipc_stream (m # ms) = ipc_encap m @ ipc_stream ms"
  by (simp_all add: ipc_stream_def)

text \<open>\<open>torn_at root ms n k r\<close>: cut after \<open>n\<close> bytes, \<open>k\<close> messages are whole and the walk says \<open>r\<close>.\<close>

definition torn_at :: "(bytes \<times> bytes) list \<Rightarrow> nat \<Rightarrow> nat \<Rightarrow> nat \<Rightarrow> IpcStreamExtent \<Rightarrow> bool" where
  "torn_at ms base n k r \<longleftrightarrow>
     (let off = length (ipc_stream (take k ms)) in
      k \<le> length ms \<and> off \<le> n \<and> (k < length ms \<longrightarrow> n < length (ipc_stream (take (Suc k) ms))) \<and>
      (n - off < 4 \<and> r = Complete \<or> 4 \<le> n - off \<and> (\<exists>d. r = Truncated (base + off) d)))"

lemma ipc_walk_torn:
  assumes "\<forall>m \<in> set ms. ipc_wf root m" "n \<le> length (ipc_stream ms)"
  shows "\<exists>k. torn_at ms (length pre) n k (ipc_walk root (pre @ take n (ipc_stream ms)) (length pre))"
  using assms
proof (induction ms arbitrary: pre n)
  case Nil
  then show ?case
    by (intro exI [of _ 0]) (simp add: torn_at_def ipc_walk.simps ipc_iter_at_end)
next
  case (Cons m ms)
  let ?e = "ipc_encap m"
  show ?case
  proof (cases "n < length ?e")
    case True
    have "take n (ipc_stream (m # ms)) = take n ?e" using True by simp
    moreover have "ipc_wf root m" using Cons.prems by simp
    ultimately show ?thesis
      using True ipc_iter_torn [of root m n pre]
      by (intro exI [of _ 0]) (auto simp: torn_at_def ipc_walk.simps [of root _ "length pre"])
  next
    case False
    let ?n = "n - length ?e"
    have tk: "pre @ take n (ipc_stream (m # ms)) = (pre @ ?e) @ take ?n (ipc_stream ms)"
      using False by simp
    have "ipc_iter root ((pre @ ?e) @ take ?n (ipc_stream ms)) (length pre) = Inr (length (pre @ ?e))"
      using False Cons.prems ipc_iter_whole [of root m pre "take ?n (ipc_stream ms)"] by simp
    then have w: "ipc_walk root (pre @ take n (ipc_stream (m # ms))) (length pre)
        = ipc_walk root ((pre @ ?e) @ take ?n (ipc_stream ms)) (length (pre @ ?e))"
      unfolding tk by (subst ipc_walk.simps) (simp only: sum.case)
    have "?n \<le> length (ipc_stream ms)" "\<forall>m \<in> set ms. ipc_wf root m"
      using Cons.prems False by auto
    then obtain k where "torn_at ms (length (pre @ ?e)) ?n k
        (ipc_walk root ((pre @ ?e) @ take ?n (ipc_stream ms)) (length (pre @ ?e)))"
      using Cons.IH [of ?n "pre @ ?e"] by blast
    then show ?thesis
      unfolding w using False
      by (intro exI [of _ "Suc k"]) (auto simp: torn_at_def Let_def add.assoc)
  qed
qed

section \<open>Properties\<close>

text \<open>C4. The bytes before a torn message tile completely: what the partial-segment reader hands
  to the decoder after dropping the torn tail passes the framing check again.\<close>

theorem ipc_torn_prefix_complete:
  assumes "ipc_stream_extent root bs = Truncated off d"
  shows "off \<le> length bs \<and> ipc_stream_extent root (take off bs) = Complete"
  using assms ipc_walk_prefix unfolding ipc_stream_extent_def by blast

definition torn_sample :: bytes where
  "torn_sample = ipc_encap ([7], []) @ IPC_CONTINUATION_MARKER @ [9, 0, 0, 0]"

lemma torn_sample_extent:
  "ipc_stream_extent (\<lambda>_. Some 0) torn_sample = Truncated 9 (MetadataExceeds 9 0)"
  by code_simp

theorem ipc_torn_prefix_complete_witness:
  "9 \<le> length torn_sample \<and> ipc_stream_extent (\<lambda>_. Some 0) (take 9 torn_sample) = Complete"
  by (rule ipc_torn_prefix_complete [OF torn_sample_extent])

text \<open>C3. A crash that cuts a stream of whole messages anywhere loses at most the message it cut:
  the walk never calls the tail malformed, and either ends cleanly (fewer than four stray bytes)
  or reports the torn message at exactly the boundary after the last whole one.\<close>

theorem ipc_crash_cut:
  assumes "\<forall>m \<in> set ms. ipc_wf root m" "n \<le> length (ipc_stream ms)"
  shows "\<exists>k. torn_at ms 0 n k (ipc_stream_extent root (take n (ipc_stream ms)))"
  using ipc_walk_torn [OF assms, of "[]"] by (simp add: ipc_stream_extent_def)

theorem ipc_crash_cut_witness:
  "\<exists>k. torn_at [([7], []), ([8], [])] 0 13 k
     (ipc_stream_extent (\<lambda>_. Some 0) (take 13 (ipc_stream [([7], []), ([8], [])])))"
  by (rule ipc_crash_cut) (simp_all add: ipc_wf_def length_ipc_encap)

end
