(* ===== verification/WalFrame.thy ===== *)
theory WalFrame
  imports Crc32 IpcExtent
begin

text \<open>
  The framed WAL segment of \<^verbatim>\<open>crates/loglake-wal/src/lib.rs\<close>: the fixed-size header
  (magic, version, flags, time bounds, body length, body CRC, owner UUID), its builder and the
  readers that verify, decode and interrogate it. \<^verbatim>\<open>zstd::decode_all\<close>, the arrow readers and
  the text form of a UUID are parameters; an owner UUID is the 128-bit value whose big-endian
  bytes \<^verbatim>\<open>Uuid::as_bytes\<close> returns.
\<close>

section \<open>Layout\<close>

type_synonym uuid = "128 word"

definition uuid_as_bytes :: "uuid \<Rightarrow> bytes" where
  "uuid_as_bytes u = rev (to_le 16 u)"

definition uuid_from_slice :: "bytes \<Rightarrow> uuid option" where
  "uuid_from_slice bs = (if length bs = 16 then Some (from_le (rev bs)) else None)"

definition WAL_FRAME_MAGIC :: bytes where
  "WAL_FRAME_MAGIC = [0x4C, 0x57, 0x41, 0x4C]"

definition WAL_FRAME_VERSION_V1 :: u8 where "WAL_FRAME_VERSION_V1 = 1"
definition WAL_FRAME_VERSION :: u8 where "WAL_FRAME_VERSION = 2"
definition WAL_FRAME_HEADER_LEN_V1 :: nat where "WAL_FRAME_HEADER_LEN_V1 = 36"
definition WAL_FRAME_HEADER_LEN :: nat where "WAL_FRAME_HEADER_LEN = 52"
definition WAL_FRAME_FLAG_ZSTD :: u8 where "WAL_FRAME_FLAG_ZSTD = 1"
definition WAL_FRAME_FLAG_PARTIAL :: u8 where "WAL_FRAME_FLAG_PARTIAL = 2"

lemmas frame_const_defs [codec_simps] =
  WAL_FRAME_MAGIC_def WAL_FRAME_VERSION_V1_def WAL_FRAME_VERSION_def
  WAL_FRAME_HEADER_LEN_V1_def WAL_FRAME_HEADER_LEN_def
  WAL_FRAME_FLAG_ZSTD_def WAL_FRAME_FLAG_PARTIAL_def

text \<open>The bounds are \<^verbatim>\<open>i64\<close> nanoseconds: 64-bit words read with \<^const>\<open>sint\<close>.\<close>

record WalFrameMeta =
  min_ts_nanos :: u64
  max_ts_nanos :: u64

datatype WalOwner = Unmarked | Owned | Stale string

section \<open>The code\<close>

definition is_framed :: "bytes \<Rightarrow> bool" where
  "is_framed bs \<longleftrightarrow> 4 \<le> length bs \<and> subslice 0 4 bs = WAL_FRAME_MAGIC"

definition frame_header_len :: "u8 \<Rightarrow> nat option" where
  "frame_header_len version =
     (if version = WAL_FRAME_VERSION_V1 then Some WAL_FRAME_HEADER_LEN_V1
      else if version = WAL_FRAME_VERSION then Some WAL_FRAME_HEADER_LEN
      else None)"

definition build_wal_frame :: "u8 \<Rightarrow> u64 \<Rightarrow> u64 \<Rightarrow> uuid option \<Rightarrow> bytes \<Rightarrow> u32 \<Rightarrow> bytes" where
  "build_wal_frame flags min_ts max_ts owner body body_crc =
     WAL_FRAME_MAGIC @ [WAL_FRAME_VERSION] @ [flags] @ to_le 2 (0 :: u16) @
     to_le 8 min_ts @ to_le 8 max_ts @ to_le 8 (of_nat (length body) :: u64) @
     to_le 4 body_crc @ uuid_as_bytes (case owner of None \<Rightarrow> 0 | Some u \<Rightarrow> u) @ body"

definition verify_wal_frame :: "bytes \<Rightarrow> read_error + bool \<times> bytes" where
  "verify_wal_frame bs =
     (if length bs < WAL_FRAME_HEADER_LEN_V1 then Inl FrameShort
      else let version = bs ! 4 in
        case frame_header_len version of
          None \<Rightarrow> Inl (FrameVersion version)
        | Some header_len \<Rightarrow>
            if length bs < header_len then Inl (FrameShortVersion version)
            else let zstd = (bs ! 5 AND WAL_FRAME_FLAG_ZSTD \<noteq> 0); body = drop header_len bs in
              if bs ! 5 AND WAL_FRAME_FLAG_PARTIAL \<noteq> 0 then Inr (zstd, body)
              else let body_len = unat (from_le (subslice 24 32 bs) :: u64);
                       body_crc = (from_le (subslice 32 36 bs) :: u32) in
                if length body \<noteq> body_len then Inl (FrameBodyLength (length body) body_len)
                else let actual = crc32 body in
                  if actual \<noteq> body_crc then Inl (FrameBodyCrc actual body_crc)
                  else Inr (zstd, body))"

definition decode_wal_frame ::
  "(bytes \<Rightarrow> bytes option) \<Rightarrow> (bytes \<Rightarrow> u64 option) \<Rightarrow> (bytes \<Rightarrow> 'batch list option) \<Rightarrow>
   bytes \<Rightarrow> read_error + 'batch list" where
  "decode_wal_frame zstd_decode root decode bs =
     (case verify_wal_frame bs of
        Inl e \<Rightarrow> Inl e
      | Inr (zstd, body) \<Rightarrow>
          if zstd then
            (case zstd_decode body of
               None \<Rightarrow> Inl ZstdError
             | Some raw \<Rightarrow> read_segment_bytes root decode raw)
          else if bs ! 5 AND WAL_FRAME_FLAG_PARTIAL \<noteq> 0 then read_partial_segment_bytes root decode body
          else read_segment_bytes root decode body)"

definition read_segment_from_bytes ::
  "(bytes \<Rightarrow> bytes option) \<Rightarrow> (bytes \<Rightarrow> u64 option) \<Rightarrow> (bytes \<Rightarrow> 'batch list option) \<Rightarrow>
   bytes \<Rightarrow> read_error + 'batch list" where
  "read_segment_from_bytes zstd_decode root decode bs =
     (if is_framed bs then decode_wal_frame zstd_decode root decode bs
      else read_segment_bytes root decode bs)"

definition frame_meta :: "bytes \<Rightarrow> WalFrameMeta option" where
  "frame_meta hdr =
     (if length hdr < WAL_FRAME_HEADER_LEN_V1 \<or> subslice 0 4 hdr \<noteq> WAL_FRAME_MAGIC then None
      else case frame_header_len (hdr ! 4) of
        None \<Rightarrow> None
      | Some _ \<Rightarrow>
          if hdr ! 5 AND WAL_FRAME_FLAG_PARTIAL \<noteq> 0 then None
          else Some \<lparr>min_ts_nanos = from_le (subslice 8 16 hdr),
                     max_ts_nanos = from_le (subslice 16 24 hdr)\<rparr>)"

text \<open>The file-reading wrapper: \<^verbatim>\<open>read_exact\<close> of the common v1 prefix, then the header alone.\<close>

definition read_segment_meta :: "bytes \<Rightarrow> WalFrameMeta option" where
  "read_segment_meta file =
     (if length file < WAL_FRAME_HEADER_LEN_V1 then None
      else frame_meta (take WAL_FRAME_HEADER_LEN_V1 file))"

definition segment_owner_from_bytes :: "bytes \<Rightarrow> uuid option" where
  "segment_owner_from_bytes bs =
     (if \<not> is_framed bs \<or> length bs < WAL_FRAME_HEADER_LEN then None
      else if bs ! 4 \<noteq> WAL_FRAME_VERSION then None
      else case uuid_from_slice (subslice WAL_FRAME_HEADER_LEN_V1 WAL_FRAME_HEADER_LEN bs) of
        None \<Rightarrow> None
      | Some u \<Rightarrow> if u \<noteq> 0 then Some u else None)"

text \<open>\<^verbatim>\<open>segment_owner\<close> over the file's bytes: \<^verbatim>\<open>read_exact\<close> of one v2 header.\<close>

definition segment_owner :: "bytes option \<Rightarrow> uuid option" where
  "segment_owner file =
     (case file of
        None \<Rightarrow> None
      | Some bs \<Rightarrow>
          if length bs < WAL_FRAME_HEADER_LEN then None
          else segment_owner_from_bytes (take WAL_FRAME_HEADER_LEN bs))"

definition classify_segment_owner_bytes :: "(uuid \<Rightarrow> string) \<Rightarrow> bytes \<Rightarrow> string \<Rightarrow> WalOwner" where
  "classify_segment_owner_bytes to_string bs expected =
     (case segment_owner_from_bytes bs of
        None \<Rightarrow> Unmarked
      | Some owner \<Rightarrow> if to_string owner = expected then Owned else Stale (to_string owner))"

definition classify_segment_owner :: "(uuid \<Rightarrow> string) \<Rightarrow> bytes option \<Rightarrow> string \<Rightarrow> WalOwner" where
  "classify_segment_owner to_string file expected =
     (case segment_owner file of
        None \<Rightarrow> Unmarked
      | Some owner \<Rightarrow> if to_string owner = expected then Owned else Stale (to_string owner))"

definition segment_serves_table :: "(uuid \<Rightarrow> string) \<Rightarrow> bytes option \<Rightarrow> string \<Rightarrow> bool" where
  "segment_serves_table to_string file expected =
     (case classify_segment_owner to_string file expected of Stale _ \<Rightarrow> False | _ \<Rightarrow> True)"

section \<open>Header fields of a built frame\<close>

lemma length_uuid_as_bytes [simp]: "length (uuid_as_bytes u) = 16"
  by (simp add: uuid_as_bytes_def)

lemma uuid_roundtrip [simp]: "uuid_from_slice (uuid_as_bytes u) = Some u"
  by (simp add: uuid_from_slice_def uuid_as_bytes_def)

lemma length_build_wal_frame [simp]:
  "length (build_wal_frame flags mn mx owner body crc) = 52 + length body"
  by (simp add: build_wal_frame_def codec_simps)

lemma build_magic: "subslice 0 4 (build_wal_frame flags mn mx owner body crc) = WAL_FRAME_MAGIC"
  by (simp add: build_wal_frame_def subslice_def codec_simps)

lemma build_version: "build_wal_frame flags mn mx owner body crc ! 4 = WAL_FRAME_VERSION"
  by (simp add: build_wal_frame_def codec_simps)

lemma build_flags: "build_wal_frame flags mn mx owner body crc ! 5 = flags"
  by (simp add: build_wal_frame_def codec_simps)

lemma build_min: "subslice 8 16 (build_wal_frame flags mn mx owner body crc) = to_le 8 mn"
  by (simp add: build_wal_frame_def subslice_def codec_simps numeral_2_eq_2)

lemma build_max: "subslice 16 24 (build_wal_frame flags mn mx owner body crc) = to_le 8 mx"
  by (simp add: build_wal_frame_def subslice_def codec_simps numeral_2_eq_2)

lemma build_len:
  "subslice 24 32 (build_wal_frame flags mn mx owner body crc) = to_le 8 (of_nat (length body) :: u64)"
  by (simp add: build_wal_frame_def subslice_def codec_simps numeral_2_eq_2)

lemma build_crc: "subslice 32 36 (build_wal_frame flags mn mx owner body crc) = to_le 4 crc"
  by (simp add: build_wal_frame_def subslice_def codec_simps numeral_2_eq_2)

lemma build_owner:
  "subslice 36 52 (build_wal_frame flags mn mx owner body crc) =
     uuid_as_bytes (case owner of None \<Rightarrow> 0 | Some u \<Rightarrow> u)"
  by (simp add: build_wal_frame_def subslice_def codec_simps numeral_2_eq_2)

lemma build_body: "drop 52 (build_wal_frame flags mn mx owner body crc) = body"
  by (simp add: build_wal_frame_def codec_simps numeral_2_eq_2)

lemmas build_fields = build_magic build_version build_flags build_min build_max build_len
  build_crc build_owner build_body

lemma frame_header_len_simps [simp]:
  "frame_header_len WAL_FRAME_VERSION = Some 52"
  by (simp add: frame_header_len_def codec_simps)

lemma unat_body_len: "n < 2 ^ 64 \<Longrightarrow> unat (of_nat n :: u64) = n"
  by (simp add: unsigned_of_nat take_bit_nat_eq_self)

lemma verify_wal_frame_v2:
  assumes "52 \<le> length bs" "bs ! 4 = WAL_FRAME_VERSION" "bs ! 5 AND WAL_FRAME_FLAG_PARTIAL = 0"
  shows "verify_wal_frame bs =
    (if length bs - 52 \<noteq> unat (from_le (subslice 24 32 bs) :: u64)
       then Inl (FrameBodyLength (length bs - 52) (unat (from_le (subslice 24 32 bs) :: u64)))
     else if crc32 (drop 52 bs) \<noteq> from_le (subslice 32 36 bs)
       then Inl (FrameBodyCrc (crc32 (drop 52 bs)) (from_le (subslice 32 36 bs)))
     else Inr (bs ! 5 AND WAL_FRAME_FLAG_ZSTD \<noteq> 0, drop 52 bs))"
  using assms by (simp add: verify_wal_frame_def WAL_FRAME_HEADER_LEN_V1_def Let_def)

lemma verify_build:
  assumes "length body < 2 ^ 64" "flags AND WAL_FRAME_FLAG_PARTIAL = 0"
  shows "verify_wal_frame (build_wal_frame flags mn mx owner body (crc32 body)) =
    Inr (flags AND WAL_FRAME_FLAG_ZSTD \<noteq> 0, body)"
proof -
  have "unat (of_nat (length body) :: u64) = length body"
    using assms(1) by (rule unat_body_len)
  then show ?thesis
    using assms(2) by (simp add: verify_wal_frame_v2 build_fields)
qed

lemma verify_build_partial:
  "verify_wal_frame (build_wal_frame WAL_FRAME_FLAG_PARTIAL mn mx owner [] crc @ body) = Inr (False, body)"
proof -
  let ?h = "build_wal_frame WAL_FRAME_FLAG_PARTIAL mn mx owner [] crc"
  have "(?h @ body) ! 4 = WAL_FRAME_VERSION" "(?h @ body) ! 5 = WAL_FRAME_FLAG_PARTIAL"
    by (simp_all add: nth_append build_version build_flags)
  then show ?thesis
    by (simp add: verify_wal_frame_def WAL_FRAME_HEADER_LEN_V1_def Let_def
        WAL_FRAME_FLAG_PARTIAL_def WAL_FRAME_FLAG_ZSTD_def)
qed

lemma owner_build:
  "segment_owner_from_bytes (build_wal_frame flags mn mx owner body crc @ rest) =
     (case owner of None \<Rightarrow> None | Some u \<Rightarrow> if u = 0 then None else Some u)"
proof -
  let ?f = "build_wal_frame flags mn mx owner body crc"
  have "subslice 36 52 (?f @ rest) = subslice 36 52 ?f" "subslice 0 4 (?f @ rest) = subslice 0 4 ?f"
    by (simp_all add: subslice_append_left)
  then show ?thesis
    by (simp add: segment_owner_from_bytes_def is_framed_def build_fields nth_append
        WAL_FRAME_HEADER_LEN_V1_def WAL_FRAME_HEADER_LEN_def split: option.splits)
qed

lemma frame_meta_build:
  "frame_meta (build_wal_frame flags mn mx owner body crc @ rest) =
     (if flags AND WAL_FRAME_FLAG_PARTIAL \<noteq> 0 then None
      else Some \<lparr>min_ts_nanos = mn, max_ts_nanos = mx\<rparr>)"
proof -
  let ?f = "build_wal_frame flags mn mx owner body crc"
  have "subslice 8 16 (?f @ rest) = subslice 8 16 ?f" "subslice 16 24 (?f @ rest) = subslice 16 24 ?f"
    "subslice 0 4 (?f @ rest) = subslice 0 4 ?f"
    by (simp_all add: subslice_append_left)
  then show ?thesis
    by (simp add: frame_meta_def build_fields nth_append WAL_FRAME_HEADER_LEN_V1_def)
qed

lemma verify_corrupt_byte:
  assumes len: "length body < 2 ^ 64" and flags: "flags AND WAL_FRAME_FLAG_PARTIAL = 0"
    and i: "i < length body" and b: "b \<noteq> body ! i"
  shows "verify_wal_frame ((build_wal_frame flags mn mx owner body (crc32 body))[52 + i := b]) =
    Inl (FrameBodyCrc (crc32 (body[i := b])) (crc32 body))"
proof -
  let ?f = "build_wal_frame flags mn mx owner body (crc32 body)"
  let ?g = "?f[52 + i := b]"
  have fields: "?g ! 4 = ?f ! 4" "?g ! 5 = ?f ! 5" "length ?g = length ?f"
    "drop 52 ?g = body[i := b]"
    by (simp_all add: drop_update_swap build_body)
  have "subslice 24 32 ?g = subslice 24 32 ?f" "subslice 32 36 ?g = subslice 32 36 ?f"
    by (simp_all add: subslice_def drop_update_swap take_update_cancel)
  moreover have "crc32 (body[i := b]) \<noteq> crc32 body"
    using crc32_one_byte [OF b, of "take i body" "drop (Suc i) body"] i
    by (simp add: upd_conv_take_nth_drop id_take_nth_drop [symmetric])
  moreover have "unat (of_nat (length body) :: u64) = length body"
    using len by (rule unat_body_len)
  ultimately show ?thesis
    using flags fields by (simp add: verify_wal_frame_v2 build_fields)
qed

lemma verify_truncated:
  assumes len: "length body < 2 ^ 64" and flags: "flags AND WAL_FRAME_FLAG_PARTIAL = 0"
    and n: "n < length (build_wal_frame flags mn mx owner body (crc32 body))"
  shows "\<exists>e. verify_wal_frame (take n (build_wal_frame flags mn mx owner body (crc32 body))) = Inl e"
proof (cases "n < 52")
  case True
  then show ?thesis
    by (simp add: verify_wal_frame_def codec_simps frame_header_len_def Let_def
        min_def build_version)
next
  case False
  let ?f = "build_wal_frame flags mn mx owner body (crc32 body)"
  have "subslice 24 32 (take n ?f) = subslice 24 32 ?f"
    using False by (simp add: subslice_take_below)
  moreover have "unat (of_nat (length body) :: u64) = length body"
    using len by (rule unat_body_len)
  ultimately show ?thesis
    using False n flags by (simp add: verify_wal_frame_v2 build_fields)
qed

section \<open>Properties\<close>

text \<open>C1. A sealed frame reads back exactly what was built: the verifier returns the compression
  flag and the body, the header reports the time bounds, and the owner is the UUID that was bound
  (the nil UUID and an unbound writer both read back as no opinion).\<close>

theorem wal_frame_roundtrip:
  assumes "length body < 2 ^ 64" and "flags AND WAL_FRAME_FLAG_PARTIAL = 0"
    and frame: "frame = build_wal_frame flags mn mx owner body (crc32 body)"
  shows "verify_wal_frame frame = Inr (flags AND WAL_FRAME_FLAG_ZSTD \<noteq> 0, body) \<and>
     frame_meta frame = Some \<lparr>min_ts_nanos = mn, max_ts_nanos = mx\<rparr> \<and>
     segment_owner_from_bytes frame = (if owner = Some 0 then None else owner)"
  using assms(1,2) verify_build frame_meta_build [of flags mn mx owner body "crc32 body" "[]"]
    owner_build [of flags mn mx owner body "crc32 body" "[]"]
  unfolding frame by (auto split: option.splits)

theorem wal_frame_roundtrip_witness:
  "verify_wal_frame (build_wal_frame 1 3 9 (Some 5) [1, 2] (crc32 [1, 2])) = Inr (True, [1, 2])"
  using wal_frame_roundtrip [of "[1, 2]" 1 "build_wal_frame 1 3 9 (Some 5) [1, 2] (crc32 [1, 2])" 3 9 "Some 5"]
  by (simp add: codec_simps)

text \<open>C2. Corruption of any single body byte of a sealed frame is rejected by the CRC check, and
  so is any truncation of the frame, whatever the body.\<close>

theorem wal_frame_detects_corruption:
  assumes "length body < 2 ^ 64" and "flags AND WAL_FRAME_FLAG_PARTIAL = 0"
    and frame: "frame = build_wal_frame flags mn mx owner body (crc32 body)"
  shows "(i < length body \<longrightarrow> b \<noteq> body ! i \<longrightarrow>
            verify_wal_frame (frame[52 + i := b]) = Inl (FrameBodyCrc (crc32 (body[i := b])) (crc32 body))) \<and>
         (n < length frame \<longrightarrow> (\<exists>e. verify_wal_frame (take n frame) = Inl e))"
  using verify_corrupt_byte [OF assms(1,2)] verify_truncated [OF assms(1,2)] unfolding frame by blast

theorem wal_frame_detects_corruption_witness:
  "verify_wal_frame ((build_wal_frame 0 0 0 None [7, 8] (crc32 [7, 8]))[53 := 9]) =
     Inl (FrameBodyCrc (crc32 [7, 9]) (crc32 [7, 8]))"
  using wal_frame_detects_corruption [of "[7, 8]" 0 _ 0 0 None 1 9] by (simp add: codec_simps)

text \<open>C5. Reading only the header off disk gives the verdict of reading the whole segment, for the
  owner and for the time bounds; and an open (PARTIAL) segment never reports bounds, so a
  time-bounded reader cannot prune its rows away.\<close>

theorem header_only_reads_agree:
  "classify_segment_owner to_string (Some bs) expected = classify_segment_owner_bytes to_string bs expected \<and>
   read_segment_meta bs = frame_meta bs \<and>
   read_segment_meta (build_wal_frame WAL_FRAME_FLAG_PARTIAL mn mx owner body crc @ rest) = None"
proof -
  have own: "segment_owner (Some bs) = segment_owner_from_bytes bs" for bs
    by (simp add: segment_owner_def segment_owner_from_bytes_def is_framed_def codec_simps
        subslice_take_below)
  have meta: "read_segment_meta bs = frame_meta bs" for bs
    by (simp add: read_segment_meta_def frame_meta_def subslice_take_below codec_simps split: option.split)
  show ?thesis
    by (simp add: classify_segment_owner_def classify_segment_owner_bytes_def own meta frame_meta_build)
      (simp add: codec_simps)
qed

end
