(* ===== verification/WalLifecycle.thy ===== *)
theory WalLifecycle
  imports FsLogic WalFrame
begin

text \<open>
  The lifecycle moves of \<^verbatim>\<open>crates/loglake-wal/src/lib.rs\<close>: a sealed segment is claimed into
  \<^verbatim>\<open>processing/\<close>, finished into \<^verbatim>\<open>committed/\<close> or released back, and set aside into
  \<^verbatim>\<open>orphans/\<close>, \<^verbatim>\<open>stale/\<close> or \<^verbatim>\<open>poison/\<close>. The contract of a move is a locale: on success the
  segment is durable under its new name alone, on any failure it survives every crash under one
  of the two names.
\<close>

section \<open>Names\<close>

abbreviation "ACTIVE_DIR \<equiv> ''active''"
abbreviation "SEALED_DIR \<equiv> ''sealed''"
abbreviation "PROCESSING_DIR \<equiv> ''processing''"
abbreviation "COMMITTED_DIR \<equiv> ''committed''"
abbreviation "ORPHANS_DIR \<equiv> ''orphans''"
abbreviation "POISON_DIR \<equiv> ''poison''"
abbreviation "CONSUMERS_DIR \<equiv> ''consumers''"
abbreviation "STALE_DIR \<equiv> ''stale''"
abbreviation "OWNER_FILE \<equiv> ''owner''"
abbreviation "CRC_SIDECAR_EXT \<equiv> ''crc''"

text \<open>\<^verbatim>\<open>Path::extension\<close>: what follows the last dot, unless there is none or it comes first.\<close>

definition extension :: "string \<Rightarrow> string option" where
  "extension n =
     (let after = takeWhile (\<lambda>c. c \<noteq> CHR ''.'') (rev n) in
      if length n - length after \<le> 1 then None else Some (rev after))"

definition append_name :: "path \<Rightarrow> string \<Rightarrow> path" where
  "append_name p suf = (if p = [] then [] else butlast p @ [last p @ suf])"

section \<open>The code\<close>

definition crc_sidecar_path :: "path \<Rightarrow> path" where
  "crc_sidecar_path segment = append_name segment (''.'' @ CRC_SIDECAR_EXT)"

definition move_sidecar :: "path \<Rightarrow> path \<Rightarrow> unit io" where
  "move_sidecar f t s =
     (let src = crc_sidecar_path f in
      if exists_path s src then ignore (std_rename src (crc_sidecar_path t)) s else ret () s)"

definition remove_sidecar :: "path \<Rightarrow> unit io" where
  "remove_sidecar segment = ignore (std_remove_file (crc_sidecar_path segment))"

definition delete_segment :: "path \<Rightarrow> unit io" where
  "delete_segment p = qm (std_remove_file p) (\<lambda>_. remove_sidecar p)"

text \<open>\<^verbatim>\<open>path.parent().and_then(|p| p.parent())\<close>: the WAL directory of a lifecycle file.\<close>

definition wal_root :: "path \<Rightarrow> path option" where
  "wal_root p = Option.bind (parent p) parent"

definition release_segment :: "path \<Rightarrow> path io" where
  "release_segment processing_path =
     qm (ok_or (wal_root processing_path) EPath) (\<lambda>dir.
     let sealed = dir @ [SEALED_DIR] in
     qm (ok_or (file_name processing_path) EPath) (\<lambda>name.
     let target = sealed @ [name] in
     qm (rename processing_path target) (\<lambda>_.
     qm (move_sidecar processing_path target) (\<lambda>_.
     qm (ok_or (parent processing_path) EPath) (\<lambda>processing.
     qm (persist_move sealed processing) (\<lambda>_.
     ret target))))))"

definition finish_segment :: "path \<Rightarrow> path io" where
  "finish_segment processing_path =
     qm (ok_or (wal_root processing_path) EPath) (\<lambda>dir.
     let committed = dir @ [COMMITTED_DIR] in
     qm (create_dir_all committed) (\<lambda>_.
     qm (ok_or (file_name processing_path) EPath) (\<lambda>name.
     let target = committed @ [name] in
     qm (rename processing_path target) (\<lambda>_.
     qm (move_sidecar processing_path target) (\<lambda>_.
     qm (ok_or (parent processing_path) EPath) (\<lambda>processing.
     qm (persist_move committed processing) (\<lambda>_.
     ret target)))))))"

text \<open>A claim whose syncs fail is put back by \<^const>\<open>release_segment\<close>, whose own outcome is only
  logged, and the original error is returned.\<close>

definition claim_segment :: "path \<Rightarrow> path io" where
  "claim_segment sealed_path =
     qm (ok_or (wal_root sealed_path) EPath) (\<lambda>dir.
     let processing = dir @ [PROCESSING_DIR] in
     qm (create_dir_all processing) (\<lambda>_.
     qm (ok_or (file_name sealed_path) EPath) (\<lambda>name.
     let target = processing @ [name] in
     qm (rename sealed_path target) (\<lambda>_.
     qm (move_sidecar sealed_path target) (\<lambda>_.
     qm (ok_or (parent sealed_path) EPath) (\<lambda>sealed s.
       case persist_move processing sealed s of
         (Inl e, t) \<Rightarrow> (Inl e, snd (release_segment target t))
       | (Inr _, t) \<Rightarrow> (Inr target, t)))))))"

definition quarantine_stale_segment :: "path \<Rightarrow> string \<Rightarrow> path io" where
  "quarantine_stale_segment p owner =
     qm (ok_or (wal_root p) EPath) (\<lambda>root.
     let quarantine = root @ [STALE_DIR, owner] in
     qm (create_dir_all quarantine) (\<lambda>_.
     qm (ok_or (file_name p) EPath) (\<lambda>name.
     let dest = quarantine @ [name] in
     qm (gets (\<lambda>s. exists_path s dest)) (\<lambda>there.
     if there then qm (delete_segment p) (\<lambda>_. ret dest)
     else
       qm (rename p dest) (\<lambda>_.
       qm (move_sidecar p dest) (\<lambda>_.
       qm (ok_or (parent p) EPath) (\<lambda>from.
       qm (persist_move quarantine from) (\<lambda>_.
       ret dest))))))))"

record PoisonNote =
  pn_segment :: string
  pn_reason :: string
  pn_attempts :: u32
  pn_quarantined_at_ms :: int

definition poison_note_path :: "path \<Rightarrow> path" where
  "poison_note_path segment = append_name segment ''.poison.json''"

text \<open>\<open>to_json\<close> stands for \<^verbatim>\<open>serde_json::to_vec_pretty\<close> and \<open>pid\<close> for the process id in the
  temporary name.\<close>

definition quarantine_poison_segment ::
  "(PoisonNote \<Rightarrow> bytes option) \<Rightarrow> string \<Rightarrow> path \<Rightarrow> string \<Rightarrow> u32 \<Rightarrow> path io" where
  "quarantine_poison_segment to_json pid p reason attempts =
     qm (ok_or (wal_root p) EPath) (\<lambda>root.
     let quarantine = root @ [POISON_DIR] in
     qm (create_dir_all quarantine) (\<lambda>_.
     qm (ok_or (file_name p) EPath) (\<lambda>name.
     let dest = quarantine @ [name] in
     qm (gets (\<lambda>s. exists_path s dest)) (\<lambda>there.
     if there then fail ERefused
     else
       qm (gets now) (\<lambda>at.
       let note = \<lparr>pn_segment = name, pn_reason = reason, pn_attempts = attempts, pn_quarantined_at_ms = int at\<rparr>;
           note_path = poison_note_path dest;
           tmp = quarantine @ [''.'' @ name @ ''.poison.'' @ pid @ ''.tmp'']
       in
       qm (ok_or (to_json note) ECodec) (\<lambda>body.
       qm (publish_file note_path tmp body) (\<lambda>_.
       qm (rename p dest) (\<lambda>_.
       qm (move_sidecar p dest) (\<lambda>_.
       qm (ok_or (parent p) EPath) (\<lambda>from.
       qm (persist_move quarantine from) (\<lambda>_.
       ret dest)))))))))))"

definition requeue_poisoned_segment :: "path \<Rightarrow> path io" where
  "requeue_poisoned_segment p =
     qm (ok_or (wal_root p) EPath) (\<lambda>root.
     let sealed = root @ [SEALED_DIR] in
     qm (create_dir_all sealed) (\<lambda>_.
     qm (ok_or (file_name p) EPath) (\<lambda>name.
     let dest = sealed @ [name] in
     qm (gets (\<lambda>s. exists_path s dest)) (\<lambda>there.
     if there then fail ERefused
     else
       qm (rename p dest) (\<lambda>_.
       qm (move_sidecar p dest) (\<lambda>_.
       qm (ok_or (parent p) EPath) (\<lambda>from.
       qm (persist_move sealed from) (\<lambda>_.
       let note = poison_note_path p in
       qm (gets (\<lambda>s. exists_path s note)) (\<lambda>noted.
       if noted then qm (remove_file note) (\<lambda>_. qm (sync_dir from) (\<lambda>_. ret dest))
       else ret dest)))))))))"

text \<open>The quarantine loop of \<^verbatim>\<open>recover_orphaned_processing\<close>; \<open>moved\<close> counts the renames.\<close>

primrec recover_processing_loop :: "path \<Rightarrow> path \<Rightarrow> string list \<Rightarrow> nat \<Rightarrow> nat io" where
  "recover_processing_loop processing orphans [] moved = ret moved"
| "recover_processing_loop processing orphans (e # es) moved =
     qm (std_next_entry e) (\<lambda>name.
     let p = processing @ [name]; dest = orphans @ [name] in
     qm (gets (\<lambda>s. is_file s p)) (\<lambda>file.
     if \<not> file then recover_processing_loop processing orphans es moved
     else
       qm (gets (\<lambda>s. exists_path s dest)) (\<lambda>there.
       if there then
         qm (ignore (std_remove_file p)) (\<lambda>_. recover_processing_loop processing orphans es moved)
       else
         qm (rename p dest) (\<lambda>_. recover_processing_loop processing orphans es (Suc moved)))))"

definition recover_orphaned_processing :: "path \<Rightarrow> nat io" where
  "recover_orphaned_processing dir =
     (let processing = dir @ [PROCESSING_DIR]; orphans = dir @ [ORPHANS_DIR] in
      qm (gets (\<lambda>s. exists_path s processing)) (\<lambda>there.
      if \<not> there then ret 0
      else
        qm (create_dir_all orphans) (\<lambda>_.
        qm (std_read_dir processing) (\<lambda>entries.
        qm (recover_processing_loop processing orphans (map fst entries) 0) (\<lambda>moved.
        if moved > 0 then qm (persist_move orphans processing) (\<lambda>_. ret moved) else ret moved)))))"

section \<open>Where a segment is\<close>

text \<open>Inode \<open>i\<close> holds \<open>b\<close>, synced, and every crash leaves it under one of the names \<open>A\<close>.\<close>

definition file_at :: "fs \<Rightarrow> path set \<Rightarrow> nat \<Rightarrow> bytes \<Rightarrow> bool" where
  "file_at s A i b \<longleftrightarrow> safe_at s A i \<and> dur s i = Some b \<and> data s i = b"

lemma kept_file_at: "kept s A b \<longleftrightarrow> (\<exists>i. file_at s A i b)"
  by (simp add: kept_def file_at_def)

lemma file_at_quiet [simp]:
  "file_at s A i b \<Longrightarrow> file_at (tickd s) A i b"
  "file_at s A i b \<Longrightarrow> file_at (synced d s) A i b"
  by (simp_all add: file_at_def)

lemma file_at_wf: "file_at s A i b \<Longrightarrow> fs_wf s"
  by (auto simp: file_at_def intro: safe_at_wf)

lemma file_at_sole: "file_at s {p} i b \<Longrightarrow> ent s p = Some (File i)"
  unfolding file_at_def using safe_at_current by blast

text \<open>No plain file stands where the WAL tree has a directory.\<close>

definition layout :: "fs \<Rightarrow> path \<Rightarrow> bool" where
  "layout s dir \<longleftrightarrow>
     (\<forall>x. x \<in> {SEALED_DIR, PROCESSING_DIR, COMMITTED_DIR, ORPHANS_DIR, POISON_DIR, STALE_DIR} \<longrightarrow>
        dir_ok s (dir @ [x]))"

lemma layout_iff:
  "layout s dir \<longleftrightarrow> dir_ok s (dir @ [SEALED_DIR]) \<and> dir_ok s (dir @ [PROCESSING_DIR]) \<and>
     dir_ok s (dir @ [COMMITTED_DIR]) \<and> dir_ok s (dir @ [ORPHANS_DIR]) \<and>
     dir_ok s (dir @ [POISON_DIR]) \<and> dir_ok s (dir @ [STALE_DIR])"
  unfolding layout_def by blast

lemma layout_quiet [simp]: "layout (tickd s) dir = layout s dir" "layout (synced d s) dir = layout s dir"
  by (simp_all add: layout_def dir_ok_def)

lemma dir_ok_set_ent:
  "dir_ok s p \<Longrightarrow> \<not> prefix q p \<or> (\<forall>i. v \<noteq> Some (File i)) \<Longrightarrow> dir_ok (set_ent q v s) p"
  by (auto simp: dir_ok_def)

lemma dir_ok_move_ent:
  "dir_ok s p \<Longrightarrow> f \<noteq> t \<Longrightarrow> \<not> prefix t p \<Longrightarrow> dir_ok (move_ent f t n s) p"
  by (auto simp: dir_ok_def)

lemma not_prefix_longer: "length p < length q \<Longrightarrow> \<not> prefix q p"
  using prefix_length_le by fastforce

lemma layout_mono:
  assumes "layout s dir" "\<And>x. dir_ok s (dir @ [x]) \<Longrightarrow> dir_ok s' (dir @ [x])"
  shows "layout s' dir"
  using assms unfolding layout_def by blast

lemma layout_set_ent:
  assumes "layout s dir" "length dir + 1 < length q \<or> (\<forall>i. v \<noteq> Some (File i))"
  shows "layout (set_ent q v s) dir"
  using assms(1) by (rule layout_mono) (use assms(2) not_prefix_longer in \<open>auto intro!: dir_ok_set_ent\<close>)

lemma layout_move_ent:
  assumes "layout s dir" "f \<noteq> t" "length dir + 1 < length t"
  shows "layout (move_ent f t n s) dir"
  using assms(1) by (rule layout_mono) (intro dir_ok_move_ent not_prefix_longer; use assms(2,3) in simp)

section \<open>The three phases of a move\<close>

definition at_src :: "path \<Rightarrow> path \<Rightarrow> path \<Rightarrow> nat \<Rightarrow> bytes \<Rightarrow> fs \<Rightarrow> bool" where
  "at_src dir f t i b s \<longleftrightarrow>
     file_at s {f, t} i b \<and> ent s f = Some (File i) \<and> dirs_solid s \<and> layout s dir"

definition moved :: "path \<Rightarrow> path \<Rightarrow> path \<Rightarrow> nat \<Rightarrow> bytes \<Rightarrow> fs \<Rightarrow> bool" where
  "moved dir f t i b s \<longleftrightarrow>
     file_at s {f, t} i b \<and> ent s t = Some (File i) \<and> dirs_solid s \<and> layout s dir"

lemma moved_at_src: "moved dir f t i b s = at_src dir t f i b s"
  by (simp add: moved_def at_src_def insert_commute)

lemma at_src_tickd: "at_src dir f t i b s \<Longrightarrow> at_src dir f t i b (tickd s)"
  by (simp add: at_src_def)

lemma at_src_synced: "at_src dir f t i b s \<Longrightarrow> at_src dir f t i b (synced d s)"
  by (simp add: at_src_def dirs_solid_synced)

text \<open>The segment is durable under one name, in a durable tree.\<close>

definition resting :: "path \<Rightarrow> path \<Rightarrow> nat \<Rightarrow> bytes \<Rightarrow> fs \<Rightarrow> bool" where
  "resting dir f i b s \<longleftrightarrow> file_at s {f} i b \<and> dirs_solid s \<and> layout s dir"

text \<open>What a failed move still guarantees.\<close>

definition within :: "path set \<Rightarrow> nat \<Rightarrow> bytes \<Rightarrow> fs \<Rightarrow> bool" where
  "within A i b s \<longleftrightarrow> (\<exists>B \<subseteq> A. file_at s B i b)"

lemma resting_tickd: "resting dir f i b s \<Longrightarrow> resting dir f i b (tickd s)"
  by (simp add: resting_def)

lemma resting_within: "resting dir f i b s \<Longrightarrow> f \<in> A \<Longrightarrow> within A i b s"
  unfolding resting_def within_def by blast

lemma moved_within: "moved dir f t i b s \<Longrightarrow> within {f, t} i b s"
  unfolding moved_def within_def by blast

lemma resting_at_src:
  assumes "resting dir f i b s" "t = e @ [n]" "is_dir s e"
  shows "at_src dir f t i b s"
proof -
  have "solid s t" using assms by (simp add: resting_def dirs_solid_child)
  moreover have f: "safe_at s {f} i" using assms(1) by (simp add: resting_def file_at_def)
  ultimately have "solid s p \<and> p \<noteq> []" if "p \<in> {f, t}" for p
    using that assms(2) by (auto simp: safe_at_def)
  then have "safe_at s {f, t} i"
    using safe_at_mono [OF f, of "{f, t}"] by blast
  moreover have "ent s f = Some (File i)" using assms(1) unfolding resting_def by (blast intro: file_at_sole)
  ultimately show ?thesis using assms(1) by (simp add: resting_def at_src_def file_at_def)
qed

lemma move_ent_moved:
  assumes "at_src dir f t i b s" "ent s t \<noteq> Some Dir" "f \<noteq> t" "length dir + 1 < length t"
  shows "moved dir f t i b (move_ent f t (File i) s)"
proof -
  have nd: "ent s f \<noteq> Some Dir" using assms(1) by (auto simp: at_src_def)
  have "safe_at (move_ent f t (File i) s) {f, t} i"
    using assms nd by (intro safe_at_move) (auto simp: at_src_def file_at_def)
  moreover have "dirs_solid (move_ent f t (File i) s)"
    using assms nd by (intro dirs_solid_move_ent) (auto simp: at_src_def)
  moreover have "layout (move_ent f t (File i) s) dir"
    using assms by (intro layout_move_ent) (auto simp: at_src_def)
  moreover have "t \<noteq> []" using assms(4) by auto
  ultimately show ?thesis
    using assms(1,3) by (simp add: moved_def at_src_def file_at_def)
qed

lemma rename_move:
  assumes "f \<noteq> t" "length dir + 1 < length t"
  shows "triple (at_src dir f t i b) (rename f t) (\<lambda>_. moved dir f t i b) (at_src dir f t i b)"
proof (rule triple_rename)
  fix s j d
  assume s: "at_src dir f t i b s" and f: "ent s f = Some (File j)" and t: "\<not> is_dir s t"
  then have "j = i" "ent (tickd s) t \<noteq> Some Dir" by (auto simp: at_src_def is_dir_def)
  then show "moved dir f t i b (move_ent f t (File j) (tickd s))"
    using move_ent_moved [OF at_src_tickd [OF s]] assms by simp
next
  fix s
  assume "at_src dir f t i b s"
  then show "at_src dir f t i b (tickd s)" by (rule at_src_tickd)
qed (use assms in simp)

lemma rename_resting:
  assumes "t = e @ [n]" "f \<noteq> t" "length dir < length e"
  shows "triple (resting dir f i b) (rename f t) (\<lambda>_. moved dir f t i b) (resting dir f i b)"
proof (rule triple_rename)
  fix s j d
  assume s: "resting dir f i b s" and f: "ent s f = Some (File j)" and t: "\<not> is_dir s t"
    and d: "parent t = Some d" "is_dir s d"
  have "is_dir s e" using d assms(1) by (simp add: parent_def)
  then have a: "at_src dir f t i b (tickd s)" using s assms(1) by (intro at_src_tickd resting_at_src)
  then have "j = i" "ent (tickd s) t \<noteq> Some Dir" using f t by (auto simp: at_src_def is_dir_def)
  then show "moved dir f t i b (move_ent f t (File j) (tickd s))"
    using move_ent_moved [OF a] assms by simp
next
  fix s
  assume "resting dir f i b s"
  then show "resting dir f i b (tickd s)" by (rule resting_tickd)
qed (use assms in simp)

lemma crc_sidecar_snoc [simp]: "crc_sidecar_path (d @ [n]) = d @ [n @ ''.crc'']"
  by (simp add: crc_sidecar_path_def append_name_def)

text \<open>Moving the sidecar touches neither name of the segment.\<close>

lemma move_sidecar_move:
  assumes "f = d @ [n]" "t = e @ [n]" "d \<noteq> e" "length dir < length e"
  shows "triple (moved dir f t i b) (move_sidecar f t) (\<lambda>_. moved dir f t i b) E"
proof -
  let ?f = "d @ [n @ ''.crc'']" and ?t = "e @ [n @ ''.crc'']"
  have "triple (moved dir f t i b) (rename ?f ?t) (\<lambda>_. moved dir f t i b) (moved dir f t i b)"
  proof (rule triple_rename)
    fix s j p
    assume s: "moved dir f t i b s" and j: "ent s ?f = Some (File j)" and t: "\<not> is_dir s ?t"
    have out: "?f \<notin> {f, t}" "?t \<notin> {f, t}" "?f \<noteq> ?t" "t \<noteq> ?f" "t \<noteq> ?t" using assms by auto
    have nd: "ent s ?f \<noteq> Some Dir" "ent s ?t \<noteq> Some Dir" using j t by (auto simp: is_dir_def)
    have "safe_at (tickd s) {f, t} i" using s by (simp add: moved_def file_at_def)
    then have "safe_at (move_ent ?f ?t (File j) (tickd s)) {f, t} i"
      using out nd by (intro safe_at_move_other) auto
    moreover have "dirs_solid (move_ent ?f ?t (File j) (tickd s))"
      using s nd out by (intro dirs_solid_move_ent) (auto simp: moved_def)
    moreover have "layout (move_ent ?f ?t (File j) (tickd s)) dir"
      using s out assms by (intro layout_move_ent) (auto simp: moved_def)
    ultimately show "moved dir f t i b (move_ent ?f ?t (File j) (tickd s))"
      using s out by (simp add: moved_def file_at_def)
  next
    fix s
    assume "moved dir f t i b s"
    then show "moved dir f t i b (tickd s)" unfolding moved_at_src by (rule at_src_tickd)
  qed (use assms in simp)
  then show ?thesis
    unfolding assms(1,2)
    by (auto simp: move_sidecar_def [abs_def] Let_def rename_def [abs_def]
        intro!: triple_if triple_ret triple_ignore)
qed

text \<open>Syncing the destination pins the new name; the source sync adds nothing to its safety.\<close>

lemma persist_move_move:
  assumes "t = e @ [n]"
  shows "triple (moved dir f t i b) (persist_move e d)
     (\<lambda>_. resting dir t i b) (moved dir f t i b)"
  unfolding persist_move_def
proof (rule triple_qm)
  let ?R = "\<lambda>s. file_at s {t} i b \<and> moved dir f t i b s"
  show "triple (moved dir f t i b) (sync_dir e) (\<lambda>_. ?R) (moved dir f t i b)"
  proof (rule triple_sync_dir)
    fix s
    assume s: "moved dir f t i b s" and d: "is_dir s e"
    have m: "moved dir f t i b (synced e (tickd s))"
      using s unfolding moved_at_src by (intro at_src_synced at_src_tickd)
    have "solid s t" using s d assms by (simp add: moved_def dirs_solid_child)
    moreover have "fs_wf s" using s by (auto simp: moved_def intro: file_at_wf)
    ultimately have "safe_at (synced e (tickd s)) {t} i"
      using s m assms by (intro safe_at_single) (auto simp: moved_def file_at_def safe_at_def)
    then show "?R (synced e (tickd s))" using m by (simp add: moved_def file_at_def)
  next
    fix s
    assume "moved dir f t i b s"
    then show "moved dir f t i b (tickd s)" unfolding moved_at_src by (rule at_src_tickd)
  qed
  show "triple ?R (sync_dir d) (\<lambda>_. resting dir t i b) (moved dir f t i b)"
  proof (rule triple_sync_dir)
    fix s
    assume s: "?R s"
    show "moved dir f t i b (tickd s)" using s unfolding moved_at_src by (simp add: at_src_tickd)
    show "resting dir t i b (synced d (tickd s))"
      using s by (simp add: moved_def resting_def dirs_solid_synced)
  qed
qed

lemma relocate:
  assumes "f = d @ [n]" "t = e @ [n]" "d \<noteq> e" "length dir < length e"
    and that: "\<And>x. triple (resting dir t i b) (k x) Q (within {f, t} i b)"
  shows "triple (resting dir f i b)
     (qm (rename f t) (\<lambda>_. qm (move_sidecar f t) (\<lambda>_. qm (persist_move e d) k)))
     Q (within {f, t} i b)"
proof -
  have ne: "f \<noteq> t" using assms by simp
  have 1: "triple (resting dir f i b) (rename f t) (\<lambda>_. moved dir f t i b) (within {f, t} i b)"
    by (rule triple_conseq [OF rename_resting]) (use assms ne resting_within in auto)
  have 2: "triple (moved dir f t i b) (persist_move e d) (\<lambda>_. resting dir t i b) (within {f, t} i b)"
    by (rule triple_conseq [OF persist_move_move]) (use assms moved_within in auto)
  show ?thesis
    using that by (intro triple_qm [OF 1] triple_qm [OF move_sidecar_move [OF assms(1-4)]] triple_qm [OF 2])
qed

text \<open>Making the destination directory leaves the segment where it is.\<close>

lemma dir_closed_file: "dir_closed p (\<lambda>s. file_at s {f} i b \<and> layout s dir)"
proof -
  have "file_at (set_ent q (Some Dir) s) {f} i b" if "file_at s {f} i b" "ent s q = None" for s q
  proof -
    have "q \<noteq> f" using file_at_sole [OF that(1)] that(2) by auto
    then show ?thesis using that by (simp add: file_at_def safe_at_set_ent)
  qed
  then show ?thesis by (auto simp: dir_closed_def layout_set_ent)
qed

lemma create_dir_resting:
  "triple (\<lambda>s. resting dir f i b s \<and> dir_ok s p) (create_dir_all p)
     (\<lambda>_. resting dir f i b) (within {f} i b)"
  by (rule triple_conseq [OF triple_create_dir_all [OF dir_closed_file]])
    (auto simp: resting_def within_def dest: file_at_wf)

lemma wal_paths [simp]:
  "wal_root (dir @ [a, n]) = Some dir" "parent (dir @ [a, n]) = Some (dir @ [a])"
  "file_name (dir @ [a, n]) = Some n"
  by (simp_all add: wal_root_def parent_def file_name_def butlast_append)

lemma qm_ok_or [simp]: "qm (ok_or (Some x) e) k = k x" "qm (ok_or None e) k = fail e"
  by (simp_all add: qm_def ok_or_def ret_def fail_def fun_eq_iff)

lemma release_segment_resting:
  "triple (resting dir (dir @ [PROCESSING_DIR, n]) i b) (release_segment (dir @ [PROCESSING_DIR, n]))
     (\<lambda>q s. q = dir @ [SEALED_DIR, n] \<and> resting dir (dir @ [SEALED_DIR, n]) i b s)
     (within {dir @ [PROCESSING_DIR, n], dir @ [SEALED_DIR, n]} i b)"
  by (simp add: release_segment_def Let_def)
    (rule relocate [where n = n], auto intro: triple_ret)

text \<open>A release started before the claim was durable: whatever happens, one of the names holds.\<close>

lemma release_segment_moved:
  assumes "p = dir @ [PROCESSING_DIR, n]" "q = dir @ [SEALED_DIR, n]"
  shows "triple (moved dir q p i b) (release_segment p) (\<lambda>_. within {q, p} i b) (within {q, p} i b)"
proof -
  let ?W = "within {q, p} i b"
  have 1: "triple (at_src dir p q i b) (rename p q) (\<lambda>_. moved dir p q i b) ?W"
    by (rule triple_conseq [OF rename_move])
      (use assms in \<open>auto simp: insert_commute dest!: moved_within simp flip: moved_at_src\<close>)
  have 2: "triple (moved dir p q i b) (move_sidecar p q) (\<lambda>_. moved dir p q i b) ?W"
    by (rule move_sidecar_move [where n = n]) (use assms in auto)
  have 3: "triple (moved dir p q i b) (persist_move (dir @ [SEALED_DIR]) (dir @ [PROCESSING_DIR])) (\<lambda>_. ?W) ?W"
    by (rule triple_conseq [OF persist_move_move [where n = n]])
      (use assms in \<open>auto simp: insert_commute resting_within dest!: moved_within\<close>)
  have "release_segment p = qm (rename p q) (\<lambda>_. qm (move_sidecar p q) (\<lambda>_.
      qm (persist_move (dir @ [SEALED_DIR]) (dir @ [PROCESSING_DIR])) (\<lambda>_. ret q)))"
    using assms by (simp add: release_segment_def Let_def)
  then show ?thesis
    unfolding moved_at_src [of dir q p]
    by (auto intro!: triple_qm [OF 1] triple_qm [OF 2] triple_qm [OF 3] triple_ret)
qed

lemma finish_segment_resting:
  "triple (resting dir (dir @ [PROCESSING_DIR, n]) i b) (finish_segment (dir @ [PROCESSING_DIR, n]))
     (\<lambda>q s. q = dir @ [COMMITTED_DIR, n] \<and> resting dir (dir @ [COMMITTED_DIR, n]) i b s)
     (within {dir @ [PROCESSING_DIR, n], dir @ [COMMITTED_DIR, n]} i b)"
proof -
  let ?f = "dir @ [PROCESSING_DIR, n]" and ?t = "dir @ [COMMITTED_DIR, n]"
  have 1: "triple (resting dir ?f i b) (create_dir_all (dir @ [COMMITTED_DIR]))
      (\<lambda>_. resting dir ?f i b) (within {?f, ?t} i b)"
    by (rule triple_conseq [OF create_dir_resting]) (auto simp: resting_def layout_def within_def)
  show ?thesis
    by (simp add: finish_segment_def Let_def)
      (rule triple_qm [OF 1], rule relocate [where n = n], auto intro: triple_ret)
qed

lemma claim_segment_resting:
  "triple (resting dir (dir @ [SEALED_DIR, n]) i b) (claim_segment (dir @ [SEALED_DIR, n]))
     (\<lambda>q s. q = dir @ [PROCESSING_DIR, n] \<and> resting dir (dir @ [PROCESSING_DIR, n]) i b s)
     (within {dir @ [SEALED_DIR, n], dir @ [PROCESSING_DIR, n]} i b)"
proof -
  let ?f = "dir @ [SEALED_DIR, n]" and ?t = "dir @ [PROCESSING_DIR, n]"
  let ?W = "within {?f, ?t} i b"
  have 1: "triple (resting dir ?f i b) (create_dir_all (dir @ [PROCESSING_DIR])) (\<lambda>_. resting dir ?f i b) ?W"
    by (rule triple_conseq [OF create_dir_resting]) (auto simp: resting_def layout_def within_def)
  have 2: "triple (resting dir ?f i b) (rename ?f ?t) (\<lambda>_. moved dir ?f ?t i b) ?W"
    by (rule triple_conseq [OF rename_resting [where n = n]]) (auto intro: resting_within)
  have 3: "triple (moved dir ?f ?t i b) (move_sidecar ?f ?t) (\<lambda>_. moved dir ?f ?t i b) ?W"
    by (rule move_sidecar_move [where n = n]) auto
  have p: "triple (moved dir ?f ?t i b) (persist_move (dir @ [PROCESSING_DIR]) (dir @ [SEALED_DIR]))
      (\<lambda>_. resting dir ?t i b) (moved dir ?f ?t i b)"
    by (rule persist_move_move [where n = n]) auto
  have r: "?W (snd (release_segment ?t s))" if "moved dir ?f ?t i b s" for s
    using release_segment_moved [OF refl refl, of dir n i b] that
    by (rule triple_snd)
  define tl where "tl = (\<lambda>s. case persist_move (dir @ [PROCESSING_DIR]) (dir @ [SEALED_DIR]) s of
         (Inl e, t) \<Rightarrow> (Inl e, snd (release_segment ?t t)) | (Inr _, t) \<Rightarrow> (Inr ?t, t))"
  have 4: "triple (moved dir ?f ?t i b) tl (\<lambda>q s. q = ?t \<and> resting dir ?t i b s) ?W"
    unfolding tl_def by (rule triple_on_error [OF p]) (simp_all add: r)
  have "claim_segment ?f = qm (create_dir_all (dir @ [PROCESSING_DIR])) (\<lambda>_.
      qm (rename ?f ?t) (\<lambda>_. qm (move_sidecar ?f ?t) (\<lambda>_. tl)))"
    unfolding claim_segment_def Let_def wal_paths qm_ok_or append_assoc append.simps tl_def by (rule refl)
  then show ?thesis
    using triple_qm [OF 1 triple_qm [OF 2 triple_qm [OF 3 4]]] by simp
qed

section \<open>The contract of a move\<close>

text \<open>A move takes a segment from one lifecycle directory to another: on success it is durable
  under the new name, on failure it is still under one of the names it may pass through (\<open>M\<close>).
  Two moves in sequence are a move again.\<close>

locale segment_move =
  fixes mv :: "path \<Rightarrow> path io" and a c :: string and M :: "string set"
  assumes mv: "triple (resting dir (dir @ [a, n]) i b) (mv (dir @ [a, n]))
      (\<lambda>q s. q = dir @ [c, n] \<and> resting dir (dir @ [c, n]) i b s)
      (within ((\<lambda>x. dir @ [x, n]) ` M) i b)"
begin

lemma mv_ok:
  assumes "resting dir (dir @ [a, n]) i b s" "mv (dir @ [a, n]) s = (Inr q, t)"
  shows "q = dir @ [c, n]" "resting dir (dir @ [c, n]) i b t"
  using tripleD_ok [OF mv assms] by auto

lemma mv_crash:
  assumes s: "resting dir (dir @ [a, n]) i b s" and r: "mv (dir @ [a, n]) s = (r, t)" and "c \<in> M"
    and u: "crash t u"
  shows "(\<exists>x \<in> M. read_file u (dir @ [x, n]) = Some b) \<and>
     (\<forall>q. r = Inr q \<longrightarrow> q = dir @ [c, n] \<and> read_file u q = Some b)"
proof (cases r)
  case (Inl e)
  then obtain B where "B \<subseteq> (\<lambda>x. dir @ [x, n]) ` M" "file_at t B i b"
    using tripleD_err [OF mv s] r by (auto simp: within_def)
  moreover from this have "\<exists>p \<in> B. read_file u p = Some b"
    using u by (intro crash_kept) (auto simp: kept_file_at)
  ultimately show ?thesis using Inl by auto
next
  case (Inr q)
  then have q: "q = dir @ [c, n]" "resting dir q i b t" using mv_ok [OF s] r by auto
  then have "\<exists>p \<in> {q}. read_file u p = Some b"
    using u by (intro crash_kept) (auto simp: kept_file_at resting_def)
  then show ?thesis using Inr q \<open>c \<in> M\<close> by auto
qed

end

locale two_moves = first: segment_move mv1 a c M1 + second: segment_move mv2 c d M2
  for mv1 mv2 a c d M1 M2

lemma within_mono: "A \<subseteq> B \<Longrightarrow> within A i b s \<Longrightarrow> within B i b s"
  unfolding within_def by blast

sublocale two_moves \<subseteq> both: segment_move "\<lambda>p. qm (mv1 p) mv2" a d "M1 \<union> M2"
proof
  fix dir n i b
  let ?W = "within ((\<lambda>x. dir @ [x, n]) ` (M1 \<union> M2)) i b"
  have 1: "triple (resting dir (dir @ [a, n]) i b) (mv1 (dir @ [a, n]))
      (\<lambda>q s. q = dir @ [c, n] \<and> resting dir (dir @ [c, n]) i b s) ?W"
    by (rule triple_conseq [OF first.mv]) (auto elim!: within_mono [rotated])
  have 2: "triple (resting dir (dir @ [c, n]) i b) (mv2 (dir @ [c, n]))
      (\<lambda>q s. q = dir @ [d, n] \<and> resting dir (dir @ [d, n]) i b s) ?W"
    by (rule triple_conseq [OF second.mv]) (auto elim!: within_mono [rotated])
  show "triple (resting dir (dir @ [a, n]) i b) (qm (mv1 (dir @ [a, n])) mv2)
      (\<lambda>q s. q = dir @ [d, n] \<and> resting dir (dir @ [d, n]) i b s) ?W"
    by (rule triple_qm [OF 1]) (rule triple_pure, use 2 in simp)
qed

interpretation claim: segment_move claim_segment SEALED_DIR PROCESSING_DIR "{SEALED_DIR, PROCESSING_DIR}"
  by unfold_locales (use claim_segment_resting in simp)

interpretation finish: segment_move finish_segment PROCESSING_DIR COMMITTED_DIR "{PROCESSING_DIR, COMMITTED_DIR}"
  by unfold_locales (use finish_segment_resting in simp)

interpretation release: segment_move release_segment PROCESSING_DIR SEALED_DIR "{PROCESSING_DIR, SEALED_DIR}"
  by unfold_locales (use release_segment_resting in simp)

interpretation drain: two_moves claim_segment finish_segment SEALED_DIR PROCESSING_DIR COMMITTED_DIR
    "{SEALED_DIR, PROCESSING_DIR}" "{PROCESSING_DIR, COMMITTED_DIR}"
  by unfold_locales

interpretation retry: two_moves claim_segment release_segment SEALED_DIR PROCESSING_DIR SEALED_DIR
    "{SEALED_DIR, PROCESSING_DIR}" "{PROCESSING_DIR, SEALED_DIR}"
  by unfold_locales

lemma resting_wf: "resting dir f i b s \<Longrightarrow> fs_wf s"
  unfolding resting_def by (blast intro: file_at_wf)

lemma within_wf: "within A i b s \<Longrightarrow> fs_wf s"
  unfolding within_def by (blast intro: file_at_wf)

text \<open>A WAL directory \<^verbatim>\<open>/w\<close> with one sealed segment, at rest.\<close>

definition sample_tree :: "(path \<times> node) list" where
  "sample_tree = [([''w''], Dir), ([''w'', SEALED_DIR], Dir), ([''w'', SEALED_DIR, ''a.arrow''], File 0)]"

definition sample_fs :: fs where
  "sample_fs = fs_of sample_tree (\<lambda>i. if i = 0 then [1, 2, 3] else [])"

lemma sample_tree_ok: "tree_ok sample_tree"
  by code_simp

lemma sample_layout: "layout sample_fs [''w'']"
  unfolding layout_iff sample_fs_def by (intro conjI dir_ok_fs_of) code_simp+

lemma sample_resting: "resting [''w''] [''w'', SEALED_DIR, ''a.arrow''] 0 [1, 2, 3] sample_fs"
proof -
  have "map_of sample_tree [''w'', SEALED_DIR, ''a.arrow''] = Some (File 0)" by code_simp
  then show ?thesis
    using safe_fs_of [OF sample_tree_ok, of "[''w'', SEALED_DIR, ''a.arrow'']" 0]
      dirs_solid_fs_of [OF sample_tree_ok] sample_layout
    by (simp add: resting_def file_at_def sample_fs_def)
qed

section \<open>Properties\<close>

text \<open>C7. A drain cycle never loses a sealed segment. Claim it and finish it, with any of the file
  system calls failing, and cut the power at any time afterwards: the segment's exact bytes are
  in \<^verbatim>\<open>sealed/\<close>, \<^verbatim>\<open>processing/\<close> or \<^verbatim>\<open>committed/\<close>, and they are in \<^verbatim>\<open>committed/\<close>
  whenever the cycle reported success.\<close>

theorem drain_never_loses:
  assumes "resting dir (dir @ [SEALED_DIR, n]) i b s"
    and "qm (claim_segment (dir @ [SEALED_DIR, n])) finish_segment s = (r, t)" and "crash t u"
  shows "(\<exists>x \<in> {SEALED_DIR, PROCESSING_DIR, COMMITTED_DIR}. read_file u (dir @ [x, n]) = Some b) \<and>
     (\<forall>q. r = Inr q \<longrightarrow> q = dir @ [COMMITTED_DIR, n] \<and> read_file u q = Some b)"
  using drain.both.mv_crash [OF assms(1,2) _ assms(3)] by auto

lemma sample_drained:
  "fst (qm (claim_segment [''w'', SEALED_DIR, ''a.arrow'']) finish_segment sample_fs) =
     Inr [''w'', COMMITTED_DIR, ''a.arrow'']"
  by code_simp

theorem drain_never_loses_witness:
  "\<exists>t u. qm (claim_segment [''w'', SEALED_DIR, ''a.arrow'']) finish_segment sample_fs =
       (Inr [''w'', COMMITTED_DIR, ''a.arrow''], t) \<and>
     crash t u \<and> read_file u [''w'', COMMITTED_DIR, ''a.arrow''] = Some [1, 2, 3]"
proof -
  obtain t where t: "qm (claim_segment [''w'', SEALED_DIR, ''a.arrow'']) finish_segment sample_fs =
      (Inr [''w'', COMMITTED_DIR, ''a.arrow''], t)"
    using sample_drained by (cases "qm (claim_segment [''w'', SEALED_DIR, ''a.arrow'']) finish_segment sample_fs") simp
  have "resting [''w''] [''w'', COMMITTED_DIR, ''a.arrow''] 0 [1, 2, 3] t"
    by (rule drain.both.mv_ok(2) [of "[''w'']" "''a.arrow''", unfolded append.simps, OF sample_resting t])
  then have c: "crash t (settle t)" by (intro crash_settle resting_wf)
  show ?thesis
    using drain_never_loses [of "[''w'']" "''a.arrow''", unfolded append.simps, OF sample_resting t c] t c
    by blast
qed

end
