(* ===== verification/WalQuarantine.thy ===== *)
theory WalQuarantine
  imports WalLifecycle
begin

text \<open>
  The moves that set a segment aside: poison and stale quarantine, the operator's requeue, and
  the startup sweep of \<^verbatim>\<open>processing/\<close> into \<^verbatim>\<open>orphans/\<close>. Each keeps the bytes of the segment under
  one of its two names through every pattern of I/O errors and power loss; a segment under
  \<^verbatim>\<open>poison/\<close> always comes with its note.
\<close>

section \<open>Bystanders\<close>

lemma triple_ex:
  assumes "\<And>x. triple (P x) m Q E"
  shows "triple (\<lambda>s. \<exists>x. P x s) m Q E"
proof (rule tripleI)
  show "Q y t" if "\<exists>x. P x s" "m s = (Inr y, t)" for s y t
    using that tripleD_ok [OF assms] by blast
  show "E t" if "\<exists>x. P x s" "m s = (Inl e, t)" for s e t
    using that tripleD_err [OF assms] by blast
qed

text \<open>A file whose names a step does not touch is where it was.\<close>

lemma rename_other:
  assumes "f \<notin> A" "t \<notin> A"
  shows "triple (\<lambda>s. file_at s A j b) (rename f t) (\<lambda>_ s. file_at s A j b) (\<lambda>s. file_at s A j b)"
proof (rule triple_rename)
  fix s i d
  assume s: "file_at s A j b" and f: "ent s f = Some (File i)" "\<not> is_dir s t" "f \<noteq> t"
  have "safe_at (move_ent f t (File i) (tickd s)) A j"
    by (rule safe_at_move_other) (use s f assms in \<open>auto simp: file_at_def is_dir_def\<close>)
  then show "file_at (move_ent f t (File i) (tickd s)) A j b" using s by (simp add: file_at_def)
qed simp_all

lemma sync_dir_other:
  "triple (\<lambda>s. file_at s A j b) (sync_dir d) (\<lambda>_ s. file_at s A j b) (\<lambda>s. file_at s A j b)"
  by (rule triple_sync_dir) simp_all

lemma persist_other:
  "triple (\<lambda>s. file_at s A j b) (persist_move e d) (\<lambda>_ s. file_at s A j b) (\<lambda>s. file_at s A j b)"
  unfolding persist_move_def by (rule triple_qm [OF sync_dir_other sync_dir_other])

lemma remove_other:
  assumes "q \<notin> A"
  shows "triple (\<lambda>s. file_at s A j b) (remove_file q) (\<lambda>_ s. file_at s A j b) (\<lambda>s. file_at s A j b)"
proof (rule triple_remove_file)
  fix s i
  assume s: "file_at s A j b" and q: "ent s q = Some (File i)"
  have "safe_at (set_ent q None (tickd s)) A j"
    by (rule safe_at_set_ent) (use s q assms in \<open>auto simp: file_at_def\<close>)
  then show "file_at (set_ent q None (tickd s)) A j b" using s by (simp add: file_at_def)
qed simp_all

lemma move_sidecar_other:
  assumes "crc_sidecar_path f \<notin> A" "crc_sidecar_path t \<notin> A"
  shows "triple (\<lambda>s. file_at s A j b) (move_sidecar f t) (\<lambda>_ s. file_at s A j b) (\<lambda>s. file_at s A j b)"
  unfolding move_sidecar_def [abs_def] Let_def
  by (intro triple_if triple_ret triple_ignore)
    (use rename_other [OF assms, unfolded rename_def [abs_def]] in auto)

lemma relocate_other:
  assumes "{f, t, crc_sidecar_path f, crc_sidecar_path t} \<inter> A = {}"
  shows "triple (\<lambda>s. file_at s A j b)
     (qm (rename f t) (\<lambda>_. qm (move_sidecar f t) (\<lambda>_. qm (persist_move e d) (\<lambda>_. ret x))))
     (\<lambda>_ s. file_at s A j b) (\<lambda>s. file_at s A j b)"
  by (rule triple_qm [OF rename_other], use assms in blast, use assms in blast,
      rule triple_qm [OF move_sidecar_other], use assms in blast, use assms in blast,
      rule triple_qm [OF persist_other], rule triple_ret)

lemma triple_disj:
  assumes "triple P m Q E" "triple P' m Q E"
  shows "triple (\<lambda>s. P s \<or> P' s) m Q E"
  by (rule tripleI) (auto dest: tripleD_ok [OF assms(1)] tripleD_ok [OF assms(2)]
      tripleD_err [OF assms(1)] tripleD_err [OF assms(2)])

section \<open>Requeueing\<close>

lemma poison_note_snoc [simp]: "poison_note_path (d @ [a, n]) = d @ [a, n @ ''.poison.json'']"
  by (simp add: poison_note_path_def append_name_def butlast_append)

lemmas move_paths = Let_def wal_paths qm_ok_or append_assoc append.simps

lemma gets_if:
  assumes "triple P m Q E" "triple P m' Q E"
  shows "triple P (qm (gets c) (\<lambda>x. if x then m else m')) Q E"
  using assms unfolding triple_def qm_def gets_def by auto

lemma requeue_note_removal:
  assumes "q \<noteq> t" "length dir + 1 < length q"
  shows "triple (resting dir t i b)
     (qm (gets (\<lambda>s. exists_path s q)) (\<lambda>noted.
        if noted then qm (remove_file q) (\<lambda>_. qm (sync_dir d) (\<lambda>_. ret t)) else ret t))
     (\<lambda>p s. p = t \<and> resting dir t i b s) (within {f, t} i b)"
proof -
  have W: "within {f, t} i b s" if "resting dir t i b s" for s
    using that by (rule resting_within) simp
  have 1: "triple (resting dir t i b) (remove_file q) (\<lambda>_. resting dir t i b) (within {f, t} i b)"
  proof (rule triple_remove_file)
    fix s k
    assume s: "resting dir t i b s" and q: "ent s q = Some (File k)"
    have "safe_at (set_ent q None (tickd s)) {t} i"
      by (rule safe_at_set_ent) (use s q assms in \<open>auto simp: resting_def file_at_def\<close>)
    moreover have "dirs_solid (set_ent q None (tickd s))"
      using s q by (intro dirs_solid_set_ent) (auto simp: resting_def)
    moreover have "layout (set_ent q None (tickd s)) dir"
      using s assms by (intro layout_set_ent) (auto simp: resting_def)
    ultimately show "resting dir t i b (set_ent q None (tickd s))"
      using s by (simp add: resting_def file_at_def)
  qed (simp add: W resting_tickd)
  have 2: "triple (resting dir t i b) (sync_dir d) (\<lambda>_. resting dir t i b) (within {f, t} i b)"
    by (rule triple_sync_dir) (simp_all add: W resting_tickd, simp add: resting_def dirs_solid_synced)
  show ?thesis
    by (intro gets_if triple_qm [OF 1] triple_qm [OF 2] triple_ret) simp_all
qed

lemma requeue_resting:
  "triple (resting dir (dir @ [POISON_DIR, n]) i b) (requeue_poisoned_segment (dir @ [POISON_DIR, n]))
     (\<lambda>q s. q = dir @ [SEALED_DIR, n] \<and> resting dir (dir @ [SEALED_DIR, n]) i b s)
     (within {dir @ [POISON_DIR, n], dir @ [SEALED_DIR, n]} i b)"
proof -
  let ?f = "dir @ [POISON_DIR, n]" and ?t = "dir @ [SEALED_DIR, n]"
  let ?note = "dir @ [POISON_DIR, n @ ''.poison.json'']"
  have 1: "triple (resting dir ?f i b) (create_dir_all (dir @ [SEALED_DIR]))
      (\<lambda>_. resting dir ?f i b) (within {?f, ?t} i b)"
    by (rule triple_conseq [OF create_dir_resting]) (auto simp: resting_def layout_iff within_def)
  have 2: "triple (resting dir ?f i b)
      (qm (rename ?f ?t) (\<lambda>_. qm (move_sidecar ?f ?t) (\<lambda>_.
        qm (persist_move (dir @ [SEALED_DIR]) (dir @ [POISON_DIR])) (\<lambda>_.
        qm (gets (\<lambda>s. exists_path s ?note)) (\<lambda>noted.
          if noted then qm (remove_file ?note) (\<lambda>_. qm (sync_dir (dir @ [POISON_DIR])) (\<lambda>_. ret ?t))
          else ret ?t)))))
      (\<lambda>q s. q = ?t \<and> resting dir ?t i b s) (within {?f, ?t} i b)"
    by (rule relocate [where n = n]) (auto intro: requeue_note_removal)
  have 3: "triple (resting dir ?f i b) (fail ERefused)
      (\<lambda>q s. q = ?t \<and> resting dir ?t i b s) (within {?f, ?t} i b)"
    by (rule triple_fail) (auto intro: resting_within)
  show ?thesis
    unfolding requeue_poisoned_segment_def move_paths poison_note_snoc
    by (rule triple_qm [OF 1 gets_if [OF 3 2]])
qed

interpretation requeue: segment_move requeue_poisoned_segment POISON_DIR SEALED_DIR "{POISON_DIR, SEALED_DIR}"
  by unfold_locales (use requeue_resting in simp)

section \<open>Setting a poisoned segment aside\<close>

text \<open>No crash can bring the name back.\<close>

definition absent :: "fs \<Rightarrow> path \<Rightarrow> bool" where
  "absent s p \<longleftrightarrow> (\<forall>k. lo s p \<le> k \<longrightarrow> k \<le> ver s p \<longrightarrow> hist s p k = None)"

lemma crash_absent:
  assumes "crash s t" "absent s p" "p \<noteq> []"
  shows "read_file t p = None"
proof -
  obtain c where c: "valid s c"
    and e: "ent t p = (if reach (at_version s c) p then at_version s c p else None)"
    using assms(1) unfolding crash_def by blast
  have "at_version s c p = None" using c assms(2,3) by (simp add: at_version_def absent_def valid_def)
  then show ?thesis using e by (simp add: read_file_def)
qed

lemma absent_updates [simp]:
  "absent (tickd s) p = absent s p" "fs_wf s \<Longrightarrow> absent s p \<Longrightarrow> absent (synced d s) p"
  "q \<noteq> p \<Longrightarrow> absent (set_ent q v s) p = absent s p"
  "f \<noteq> p \<Longrightarrow> t \<noteq> p \<Longrightarrow> absent (move_ent f t n s) p = absent s p"
  "q \<noteq> p \<Longrightarrow> absent (made q s) p = absent s p" "absent (wrote i bs s) p = absent s p"
  by (auto simp: absent_def tickd_def synced_def set_ent_def move_ent_def made_def wrote_def Let_def fs_wf_def)

text \<open>The segment at rest, its inode in use, and the name it will take not yet in existence.\<close>

definition before_aside :: "path \<Rightarrow> path \<Rightarrow> path \<Rightarrow> path \<Rightarrow> nat \<Rightarrow> bytes \<Rightarrow> fs \<Rightarrow> bool" where
  "before_aside dir f dest tmp i b s \<longleftrightarrow>
     resting dir f i b s \<and> absent s dest \<and> i < next_inode s \<and> ent s tmp \<noteq> Some (File i)"

lemma before_aside_tickd: "before_aside dir f dest tmp i b s \<Longrightarrow> before_aside dir f dest tmp i b (tickd s)"
  by (simp add: before_aside_def resting_tickd)

lemma resting_cong:
  assumes "ver s' = ver s" "lo s' = lo s" "hist s' = hist s" "deps s' = deps s"
    and "data s' i = data s i" "dur s' i = dur s i"
  shows "resting dir f i b s' = resting dir f i b s"
proof -
  have e: "ent s' = ent s" by (simp add: fun_eq_iff ent_def assms)
  have "valid s' = valid s" by (simp add: fun_eq_iff valid_def assms)
  moreover have "solid s' = solid s" by (simp add: fun_eq_iff solid_def assms e)
  moreover have "fs_wf s' = fs_wf s" by (simp add: fs_wf_def assms)
  ultimately show ?thesis
    by (simp add: resting_def file_at_def safe_at_def dirs_solid_def layout_def dir_ok_def assms e)
qed

lemma resting_made:
  assumes "resting dir f i b s" "q \<noteq> f" "ent s q = None" "i < next_inode s" "length dir + 1 < length q"
  shows "resting dir f i b (made q s)"
proof -
  have "safe_at (made q s) {f} i"
    by (rule safe_at_made) (use assms in \<open>auto simp: resting_def file_at_def\<close>)
  moreover have "dirs_solid (made q s)" using assms by (simp add: resting_def dirs_solid_made)
  moreover have "layout (made q s) dir"
    using assms unfolding made_def Let_def
    by (intro layout_set_ent) (auto simp: resting_def layout_def dir_ok_def)
  ultimately show ?thesis using assms by (simp add: resting_def file_at_def made_def Let_def)
qed

lemma resting_move_other:
  assumes "resting dir f i b s" "p \<noteq> f" "q \<noteq> f" "p \<noteq> q" "ent s p = Some (File j)" "\<not> is_dir s q"
    and "length dir + 1 < length q"
  shows "resting dir f i b (move_ent p q (File j) s)"
proof -
  have nd: "ent s p \<noteq> Some Dir" "ent s q \<noteq> Some Dir" using assms by (auto simp: is_dir_def)
  have "safe_at (move_ent p q (File j) s) {f} i"
    by (rule safe_at_move_other) (use assms nd in \<open>auto simp: resting_def file_at_def\<close>)
  moreover have "dirs_solid (move_ent p q (File j) s)"
    using assms nd by (intro dirs_solid_move_ent) (auto simp: resting_def)
  moreover have "layout (move_ent p q (File j) s) dir"
    using assms by (intro layout_move_ent) (auto simp: resting_def)
  ultimately show ?thesis using assms by (simp add: resting_def file_at_def)
qed

lemma before_aside_cong:
  assumes "ver s' = ver s" "lo s' = lo s" "hist s' = hist s" "deps s' = deps s" "next_inode s' = next_inode s"
    and "data s' i = data s i" "dur s' i = dur s i"
  shows "before_aside dir f dest tmp i b s' = before_aside dir f dest tmp i b s"
  using resting_cong [OF assms(1-4,6,7)] assms by (simp add: before_aside_def absent_def ent_def)

text \<open>The note is written under the temporary name \<open>tmp\<close> as inode \<open>j\<close>.\<close>

definition note_at :: "path \<Rightarrow> path \<Rightarrow> path \<Rightarrow> path \<Rightarrow> nat \<Rightarrow> bytes \<Rightarrow> path \<Rightarrow> nat \<Rightarrow> bytes \<Rightarrow> fs \<Rightarrow> bool" where
  "note_at dir f dest tmp i b q j body s \<longleftrightarrow>
     before_aside dir f dest tmp i b s \<and> j \<noteq> i \<and> ent s q = Some (File j) \<and> data s j = body"

lemma create_note:
  assumes "tmp \<noteq> f" "tmp \<noteq> dest" "length dir + 1 < length tmp"
  shows "triple (before_aside dir f dest tmp i b) (std_create tmp)
     (\<lambda>j. note_at dir f dest tmp i b tmp j []) (before_aside dir f dest tmp i b)"
proof (rule triple_create)
  fix s d
  assume s: "before_aside dir f dest tmp i b s" and none: "ent s tmp = None"
  have "resting dir f i b (made tmp (tickd s))"
    by (rule resting_made) (use s none assms in \<open>auto simp: before_aside_def resting_tickd\<close>)
  then show "note_at dir f dest tmp i b tmp (next_inode s) [] (made tmp (tickd s))"
    using s assms by (auto simp: note_at_def before_aside_def made_def Let_def absent_def set_ent_def tickd_def ent_def)
next
  fix s j
  assume s: "before_aside dir f dest tmp i b s" and j: "ent s tmp = Some (File j)"
  let ?s = "tickd s\<lparr>data := (data s)(j := []), dur := (dur s)(j := None), mtime := (mtime s)(j := now s)\<rparr>"
  have "j \<noteq> i" using s j by (auto simp: before_aside_def)
  then have "before_aside dir f dest tmp i b ?s"
    using before_aside_tickd [OF s] by (subst before_aside_cong [of _ "tickd s"]) simp_all
  then show "note_at dir f dest tmp i b tmp j [] ?s" using j \<open>j \<noteq> i\<close> by (simp add: note_at_def)
qed (rule before_aside_tickd)

lemma write_note:
  "triple (note_at dir f dest tmp i b tmp j []) (std_write_all j body)
     (\<lambda>_. note_at dir f dest tmp i b tmp j body) (before_aside dir f dest tmp i b)"
proof (rule triple_write_all)
  have *: "note_at dir f dest tmp i b tmp j x (wrote j x (tickd s))" if "note_at dir f dest tmp i b tmp j [] s" for s x
  proof -
    have "before_aside dir f dest tmp i b (wrote j x (tickd s))"
      using that before_aside_tickd by (subst before_aside_cong [of _ "tickd s"]) (auto simp: note_at_def)
    then show ?thesis using that by (simp add: note_at_def)
  qed
  then show "note_at dir f dest tmp i b tmp j body (wrote j body (tickd s))"
    if "note_at dir f dest tmp i b tmp j [] s" for s using that .
  show "before_aside dir f dest tmp i b (wrote j (take k body) (tickd s))"
    if "note_at dir f dest tmp i b tmp j [] s" for s k using * [OF that] by (simp add: note_at_def)
qed

lemma sync_note:
  "triple (note_at dir f dest tmp i b tmp j body) (sync_file j)
     (\<lambda>_ s. note_at dir f dest tmp i b tmp j body s \<and> dur s j = Some body) (before_aside dir f dest tmp i b)"
proof (rule triple_sync_file)
  fix s
  assume s: "note_at dir f dest tmp i b tmp j body s"
  show "before_aside dir f dest tmp i b (tickd s)" using s by (simp add: note_at_def before_aside_tickd)
  then have "before_aside dir f dest tmp i b (tickd s\<lparr>dur := (dur s)(j := Some (data s j))\<rparr>)"
    using s by (subst before_aside_cong [of _ "tickd s"]) (auto simp: note_at_def)
  then show "note_at dir f dest tmp i b tmp j body (tickd s\<lparr>dur := (dur s)(j := Some (data s j))\<rparr>) \<and>
      dur (tickd s\<lparr>dur := (dur s)(j := Some (data s j))\<rparr>) j = Some body"
    using s by (simp add: note_at_def)
qed

lemma rename_note:
  assumes "tmp \<noteq> f" "note \<noteq> f" "tmp \<noteq> dest" "note \<noteq> dest" "tmp \<noteq> note" "length dir + 1 < length note"
  shows "triple (\<lambda>s. note_at dir f dest tmp i b tmp j body s \<and> dur s j = Some body) (rename tmp note)
     (\<lambda>_ s. note_at dir f dest tmp i b note j body s \<and> dur s j = Some body) (before_aside dir f dest tmp i b)"
proof (rule triple_rename)
  fix s k d
  assume s: "note_at dir f dest tmp i b tmp j body s \<and> dur s j = Some body"
    and k: "ent s tmp = Some (File k)" and nd: "\<not> is_dir s note"
  have j: "k = j" using s k by (simp add: note_at_def)
  have "resting dir f i b (move_ent tmp note (File j) (tickd s))"
    by (rule resting_move_other)
      (use s k nd j assms in \<open>auto simp: note_at_def before_aside_def resting_tickd is_dir_def\<close>)
  moreover have "note \<noteq> []" using assms(6) by auto
  ultimately show "note_at dir f dest tmp i b note j body (move_ent tmp note (File k) (tickd s)) \<and>
      dur (move_ent tmp note (File k) (tickd s)) j = Some body"
    using s assms(3-5) j by (auto simp: note_at_def before_aside_def)
qed (use assms in \<open>auto simp: note_at_def before_aside_tickd\<close>)

lemma solid_synced: "solid s p \<Longrightarrow> solid (synced d (tickd s)) p"
  by (simp add: solid_def)

lemma sync_note_dir:
  assumes "note = d @ [x]"
  shows "triple (\<lambda>s. note_at dir f dest tmp i b note j body s \<and> dur s j = Some body) (sync_dir d)
     (\<lambda>_ s. before_aside dir f dest tmp i b s \<and> file_at s {note} j body) (before_aside dir f dest tmp i b)"
proof (rule triple_sync_dir)
  fix s
  assume s: "note_at dir f dest tmp i b note j body s \<and> dur s j = Some body" and d: "is_dir s d"
  have wf: "fs_wf s" using s by (auto simp: note_at_def before_aside_def intro: resting_wf)
  have "solid s note" using s d assms by (simp add: note_at_def before_aside_def resting_def dirs_solid_child)
  then have "solid (synced d (tickd s)) note" by (simp add: solid_synced)
  then have "safe_at (synced d (tickd s)) {note} j"
    by (rule safe_at_single [rotated]) (use s wf assms in \<open>simp_all add: note_at_def\<close>)
  then show "before_aside dir f dest tmp i b (synced d (tickd s)) \<and> file_at (synced d (tickd s)) {note} j body"
    using s wf by (simp add: note_at_def before_aside_def file_at_def resting_def dirs_solid_synced)
qed (auto simp: note_at_def before_aside_tickd)

lemma publish_note:
  assumes "note = d @ [x]" "tmp \<noteq> f" "note \<noteq> f" "tmp \<noteq> dest" "note \<noteq> dest" "tmp \<noteq> note"
    and "length dir + 1 < length note" "length dir + 1 < length tmp"
  shows "triple (before_aside dir f dest tmp i b) (publish_file note tmp body)
     (\<lambda>_ s. before_aside dir f dest tmp i b s \<and> (\<exists>j. file_at s {note} j body)) (before_aside dir f dest tmp i b)"
proof -
  let ?E = "before_aside dir f dest tmp i b"
  have w: "triple ?E (write_sync tmp body)
      (\<lambda>_ s. \<exists>j. note_at dir f dest tmp i b tmp j body s \<and> dur s j = Some body) ?E"
    unfolding write_sync_def
    by (rule triple_qm [OF create_note], use assms in \<open>simp_all\<close>, rule triple_qm [OF write_note],
        rule triple_conseq [OF sync_note]) auto
  have r: "triple (\<lambda>s. \<exists>j. note_at dir f dest tmp i b tmp j body s \<and> dur s j = Some body) (rename tmp note)
      (\<lambda>_ s. \<exists>j. note_at dir f dest tmp i b note j body s \<and> dur s j = Some body) ?E"
    by (rule triple_ex, rule triple_conseq [OF rename_note]) (use assms in auto)
  have d: "triple (\<lambda>s. \<exists>j. note_at dir f dest tmp i b note j body s \<and> dur s j = Some body) (sync_dir d)
      (\<lambda>_ s. ?E s \<and> (\<exists>j. file_at s {note} j body)) ?E"
    by (rule triple_ex, rule triple_conseq [OF sync_note_dir]) (use assms in auto)
  have p: "parent note = Some d" using assms(1) by (simp add: parent_def)
  show ?thesis
    unfolding publish_file_def p qm_ok_or by (rule triple_qm [OF w triple_qm [OF r d]])
qed

lemma create_dir_aside:
  assumes "length dir + 1 < length dest" "dest \<noteq> []"
  shows "triple (before_aside dir f dest tmp i b) (create_dir_all (dir @ [POISON_DIR]))
     (\<lambda>_. before_aside dir f dest tmp i b) (\<lambda>s. within {f} i b s \<and> absent s dest)"
proof -
  let ?P = "\<lambda>s. (file_at s {f} i b \<and> layout s dir) \<and> absent s dest \<and> i < next_inode s \<and> ent s tmp \<noteq> Some (File i)"
  have ne: "q \<noteq> dest" if "prefix q (dir @ [POISON_DIR])" for q
    using prefix_length_le [OF that] assms(1) by auto
  have "dir_closed (dir @ [POISON_DIR]) ?P"
    using dir_closed_file [of "dir @ [POISON_DIR]" f i b dir] ne unfolding dir_closed_def
    by (auto dest: file_at_wf)
  from triple_create_dir_all [OF this] show ?thesis
    by (rule triple_conseq)
      (auto simp: before_aside_def resting_def layout_iff within_def dest: file_at_wf)
qed

definition has_note :: "(PoisonNote \<Rightarrow> bytes option) \<Rightarrow> path \<Rightarrow> string \<Rightarrow> string \<Rightarrow> u32 \<Rightarrow> fs \<Rightarrow> bool" where
  "has_note to_json note n reason attempts s \<longleftrightarrow>
     (\<exists>j body at. file_at s {note} j body \<and>
        to_json \<lparr>pn_segment = n, pn_reason = reason, pn_attempts = attempts, pn_quarantined_at_ms = int at\<rparr> = Some body)"

lemma relocate_aside:
  assumes "a \<noteq> POISON_DIR" "f = dir @ [a, n]" "dest = dir @ [POISON_DIR, n]"
    and "note = dir @ [POISON_DIR, n @ ''.poison.json'']"
    and "to_json \<lparr>pn_segment = n, pn_reason = reason, pn_attempts = attempts, pn_quarantined_at_ms = int at\<rparr> = Some body"
  shows "triple (\<lambda>s. before_aside dir f dest tmp i b s \<and> (\<exists>j. file_at s {note} j body))
     (qm (rename f dest) (\<lambda>_. qm (move_sidecar f dest) (\<lambda>_.
        qm (persist_move (dir @ [POISON_DIR]) (dir @ [a])) (\<lambda>_. ret dest))))
     (\<lambda>q s. (q = dest \<and> resting dir dest i b s) \<and> has_note to_json note n reason attempts s)
     (\<lambda>s. within {f, dest} i b s \<and> has_note to_json note n reason attempts s)"
proof -
  let ?m = "qm (rename f dest) (\<lambda>_. qm (move_sidecar f dest) (\<lambda>_.
        qm (persist_move (dir @ [POISON_DIR]) (dir @ [a])) (\<lambda>_. ret dest)))"
  have 1: "triple (resting dir f i b) ?m (\<lambda>q s. q = dest \<and> resting dir dest i b s) (within {f, dest} i b)"
    by (rule relocate [where n = n]) (use assms in \<open>auto intro: triple_ret\<close>)
  have "crc_sidecar_path f = dir @ [a, n @ ''.crc'']" "crc_sidecar_path dest = dir @ [POISON_DIR, n @ ''.crc'']"
    using assms(2,3) crc_sidecar_snoc [of "dir @ [a]" n] crc_sidecar_snoc [of "dir @ [POISON_DIR]" n] by simp_all
  then have 2: "triple (\<lambda>s. file_at s {note} j body) ?m (\<lambda>_ s. file_at s {note} j body) (\<lambda>s. file_at s {note} j body)" for j
    using assms(1-4) by (intro relocate_other) auto
  have 3: "triple (\<lambda>s. \<exists>j. file_at s {note} j body) ?m
      (\<lambda>_. has_note to_json note n reason attempts) (has_note to_json note n reason attempts)"
    by (rule triple_ex, rule triple_conseq [OF 2]) (use assms(5) in \<open>auto simp: has_note_def\<close>)
  show ?thesis
    by (rule triple_conseq [OF triple_conj [OF 1 3]]) (auto simp: before_aside_def)
qed

lemma gets_bind: "(\<And>x. triple P (k x) Q E) \<Longrightarrow> triple P (qm (gets c) k) Q E"
  by (simp add: triple_def qm_def gets_def)

lemma poison_tmp_ne:
  fixes n pid :: string
  shows "n \<noteq> ''.'' @ n @ ''.poison.'' @ pid @ ''.tmp''" "''.'' @ n @ ''.poison.'' @ pid @ ''.tmp'' \<noteq> n @ ''.poison.json''"
proof -
  show "n \<noteq> ''.'' @ n @ ''.poison.'' @ pid @ ''.tmp''" by (rule notI, drule arg_cong [of _ _ length]) simp
  show "''.'' @ n @ ''.poison.'' @ pid @ ''.tmp'' \<noteq> n @ ''.poison.json''"
    by (rule notI, drule arg_cong [of _ _ last]) simp
qed

lemma quarantine_poison_triple:
  assumes "a \<noteq> POISON_DIR" "f = dir @ [a, n]" "dest = dir @ [POISON_DIR, n]"
    and "note = dir @ [POISON_DIR, n @ ''.poison.json'']"
    and "tmp = dir @ [POISON_DIR, ''.'' @ n @ ''.poison.'' @ pid @ ''.tmp'']"
  shows "triple (before_aside dir f dest tmp i b) (quarantine_poison_segment to_json pid f reason attempts)
     (\<lambda>q s. (q = dest \<and> resting dir dest i b s) \<and> has_note to_json note n reason attempts s)
     (\<lambda>s. within {f, dest} i b s \<and> (absent s dest \<or> has_note to_json note n reason attempts s))"
    (is "triple ?P _ ?Q ?E")
proof -
  have E: "?E s" if "?P s" for s
    using that by (auto simp: before_aside_def intro: resting_within)
  have 1: "triple ?P (create_dir_all (dir @ [POISON_DIR])) (\<lambda>_. ?P) ?E"
    by (rule triple_conseq [OF create_dir_aside]) (use assms in \<open>auto elim: within_mono [rotated]\<close>)
  have 2: "triple ?P (publish_file note tmp body) (\<lambda>_ s. ?P s \<and> (\<exists>j. file_at s {note} j body)) ?E" for body
    by (rule triple_conseq [OF publish_note [where d = "dir @ [POISON_DIR]" and x = "n @ ''.poison.json''"]])
      (use assms E poison_tmp_ne in auto)
  have 3: "triple ?P (qm (publish_file note tmp body) (\<lambda>_. qm (rename f dest) (\<lambda>_. qm (move_sidecar f dest) (\<lambda>_.
        qm (persist_move (dir @ [POISON_DIR]) (dir @ [a])) (\<lambda>_. ret dest))))) ?Q ?E"
    if "to_json \<lparr>pn_segment = n, pn_reason = reason, pn_attempts = attempts, pn_quarantined_at_ms = int at\<rparr> = Some body"
    for at body
    by (rule triple_qm [OF 2], rule triple_conseq [OF relocate_aside [where to_json = to_json, OF assms(1-4) that]]) auto
  have 4: "triple ?P (qm (ok_or (to_json \<lparr>pn_segment = n, pn_reason = reason, pn_attempts = attempts,
        pn_quarantined_at_ms = int at\<rparr>) ECodec) (\<lambda>body. qm (publish_file note tmp body) (\<lambda>_.
        qm (rename f dest) (\<lambda>_. qm (move_sidecar f dest) (\<lambda>_.
        qm (persist_move (dir @ [POISON_DIR]) (dir @ [a])) (\<lambda>_. ret dest)))))) ?Q ?E" for at
    using 3 E by (cases "to_json \<lparr>pn_segment = n, pn_reason = reason, pn_attempts = attempts, pn_quarantined_at_ms = int at\<rparr>")
      (auto intro: triple_fail)
  have "triple ?P (fail ERefused) ?Q ?E" by (rule triple_fail) (rule E)
  from triple_qm [OF 1 gets_if [OF this gets_bind [OF 4]]] show ?thesis
    unfolding quarantine_poison_segment_def assms move_paths poison_note_snoc .
qed

section \<open>Setting a stale segment aside\<close>

definition survives :: "path set \<Rightarrow> bytes \<Rightarrow> fs \<Rightarrow> bool" where
  "survives A b s \<longleftrightarrow> (\<exists>i. within A i b s)"

lemma crash_survives:
  assumes "survives A b s" "crash s t"
  shows "\<exists>p \<in> A. read_file t p = Some b"
proof -
  obtain i B where "B \<subseteq> A" "file_at s B i b" using assms(1) by (auto simp: survives_def within_def)
  then show ?thesis using crash_kept [of s B b t] assms(2) by (auto simp: kept_file_at)
qed

lemma survives_within: "within A i b s \<Longrightarrow> A \<subseteq> B \<Longrightarrow> survives B b s"
  unfolding survives_def using within_mono by blast

lemma survives_file: "file_at s {p} i b \<Longrightarrow> p \<in> A \<Longrightarrow> survives A b s"
  unfolding survives_def within_def by blast

lemma gets_if_cond:
  assumes "triple (\<lambda>s. P s \<and> c s) m Q E" "triple (\<lambda>s. P s \<and> \<not> c s) m' Q E"
  shows "triple P (qm (gets c) (\<lambda>x. if x then m else m')) Q E"
  using assms unfolding triple_def qm_def gets_def by auto

text \<open>The quarantined name is free, or it already holds these bytes.\<close>

definition stale_free :: "path \<Rightarrow> bytes \<Rightarrow> fs \<Rightarrow> bool" where
  "stale_free dest b s \<longleftrightarrow> ent s dest = None \<or> (\<exists>j. file_at s {dest} j b)"

lemma stale_free_quiet [simp]:
  "stale_free dest b s \<Longrightarrow> stale_free dest b (tickd s)" "stale_free dest b s \<Longrightarrow> stale_free dest b (synced d s)"
  by (auto simp: stale_free_def intro: file_at_quiet)

lemma stale_free_mkdir:
  assumes "stale_free dest b s" "q \<noteq> dest" "ent s q = None"
  shows "stale_free dest b (set_ent q (Some Dir) s)"
proof -
  have "file_at (set_ent q (Some Dir) s) {dest} j b" if "file_at s {dest} j b" for j
    using safe_at_set_ent [of s "{dest}" j q "Some Dir"] that assms by (auto simp: file_at_def)
  then show ?thesis using assms by (auto simp: stale_free_def)
qed

lemma delete_segment_other:
  assumes "f \<notin> A" "crc_sidecar_path f \<notin> A"
  shows "triple (\<lambda>s. file_at s A j b) (delete_segment f) (\<lambda>_ s. file_at s A j b) (\<lambda>s. file_at s A j b)"
  unfolding delete_segment_def remove_sidecar_def
  by (rule triple_qm [OF remove_other [OF assms(1), unfolded remove_file_def]],
      rule triple_ignore, rule remove_other [OF assms(2), unfolded remove_file_def])

lemma create_dir_stale:
  assumes "p = dir @ [STALE_DIR, owner]" "dest = p @ [n]"
  shows "triple (\<lambda>s. resting dir f i b s \<and> stale_free dest b s \<and> dir_ok s p) (create_dir_all p)
     (\<lambda>_ s. resting dir f i b s \<and> stale_free dest b s) (within {f} i b)"
proof -
  let ?P = "\<lambda>s. (file_at s {f} i b \<and> layout s dir) \<and> stale_free dest b s"
  have d: "q \<noteq> dest" if "prefix q p" for q
    using prefix_length_le [OF that] assms by auto
  have "dir_closed p ?P"
    using dir_closed_file [of p f i b dir] d unfolding dir_closed_def by (auto intro: stale_free_mkdir)
  from triple_create_dir_all [OF this] show ?thesis
    by (rule triple_conseq) (auto simp: resting_def within_def dest: file_at_wf)
qed

lemma quarantine_stale_triple:
  assumes "a \<noteq> STALE_DIR" "f = dir @ [a, n]" "dest = dir @ [STALE_DIR, owner, n]"
  shows "triple (\<lambda>s. (resting dir f i b s \<and> stale_free dest b s) \<and> dir_ok s (dir @ [STALE_DIR, owner]))
     (quarantine_stale_segment f owner)
     (\<lambda>q s. q = dest \<and> survives {dest} b s) (survives {f, dest} b)"
proof -
  let ?e = "dir @ [STALE_DIR, owner]"
  let ?P = "\<lambda>s. resting dir f i b s \<and> stale_free dest b s"
  have 1: "triple (\<lambda>s. ?P s \<and> dir_ok s ?e) (create_dir_all ?e) (\<lambda>_. ?P) (survives {f, dest} b)"
    by (rule triple_conseq [OF create_dir_stale [where n = n]])
      (use assms in \<open>auto intro: survives_within\<close>)
  have crc: "crc_sidecar_path f \<noteq> dest" "f \<noteq> dest"
    using assms(2,3) crc_sidecar_snoc [of "dir @ [a]" n] by auto
  have 2: "triple (\<lambda>s. file_at s {dest} j b) (qm (delete_segment f) (\<lambda>_. ret dest))
      (\<lambda>q s. q = dest \<and> survives {dest} b s) (survives {f, dest} b)" for j
    by (rule triple_qm [OF triple_conseq [OF delete_segment_other [of f "{dest}" j b]] triple_ret])
      (use crc in \<open>auto intro: survives_file\<close>)
  have 3: "triple (\<lambda>s. ?P s \<and> exists_path s dest) (qm (delete_segment f) (\<lambda>_. ret dest))
      (\<lambda>q s. q = dest \<and> survives {dest} b s) (survives {f, dest} b)"
    by (rule triple_conseq [OF triple_ex [OF 2]]) (auto simp: stale_free_def exists_path_def)
  have 4: "triple (resting dir f i b) (qm (rename f dest) (\<lambda>_. qm (move_sidecar f dest) (\<lambda>_.
        qm (persist_move ?e (dir @ [a])) (\<lambda>_. ret dest))))
      (\<lambda>q s. q = dest \<and> resting dir dest i b s) (within {f, dest} i b)"
    by (rule relocate [where n = n]) (use assms in \<open>auto intro: triple_ret\<close>)
  have 5: "triple (\<lambda>s. ?P s \<and> \<not> exists_path s dest) (qm (rename f dest) (\<lambda>_. qm (move_sidecar f dest) (\<lambda>_.
        qm (persist_move ?e (dir @ [a])) (\<lambda>_. ret dest))))
      (\<lambda>q s. q = dest \<and> survives {dest} b s) (survives {f, dest} b)"
    by (rule triple_conseq [OF 4]) (auto simp: resting_def intro: survives_file survives_within)
  from triple_qm [OF 1 gets_if_cond [OF 3 5]] show ?thesis
    unfolding quarantine_stale_segment_def assms move_paths .
qed

section \<open>Properties\<close>

lemma survives_wf: "survives A b s \<Longrightarrow> fs_wf s"
  unfolding survives_def by (blast intro: within_wf)

text \<open>C8. Setting a poisoned segment aside loses neither the segment nor the verdict. With any
  pattern of I/O errors and a power cut at any later time, the bytes of the segment are readable
  where they were or under \<^verbatim>\<open>poison/\<close>, and if anything is readable under the segment's name in
  \<^verbatim>\<open>poison/\<close> then its complete note is readable beside it; a successful call has moved it.\<close>

theorem poison_note_first:
  assumes "before_aside dir (dir @ [a, n]) (dir @ [POISON_DIR, n])
      (dir @ [POISON_DIR, ''.'' @ n @ ''.poison.'' @ pid @ ''.tmp'']) i b s"
    and "a \<noteq> POISON_DIR"
    and run: "quarantine_poison_segment to_json pid (dir @ [a, n]) reason attempts s = (r, t)"
    and crash: "crash t u"
  shows "(\<exists>x \<in> {a, POISON_DIR}. read_file u (dir @ [x, n]) = Some b) \<and>
     (read_file u (dir @ [POISON_DIR, n]) \<noteq> None \<longrightarrow>
        (\<exists>at body. to_json \<lparr>pn_segment = n, pn_reason = reason, pn_attempts = attempts,
              pn_quarantined_at_ms = int at\<rparr> = Some body \<and>
           read_file u (poison_note_path (dir @ [POISON_DIR, n])) = Some body)) \<and>
     (\<forall>q. r = Inr q \<longrightarrow> q = dir @ [POISON_DIR, n] \<and> read_file u q = Some b)"
proof -
  let ?f = "dir @ [a, n]" and ?d = "dir @ [POISON_DIR, n]" and ?note = "dir @ [POISON_DIR, n @ ''.poison.json'']"
  note T = quarantine_poison_triple [OF assms(2) refl refl refl refl,
      where to_json = to_json and reason = reason and attempts = attempts]
  have nt: "\<exists>at body. to_json \<lparr>pn_segment = n, pn_reason = reason, pn_attempts = attempts,
        pn_quarantined_at_ms = int at\<rparr> = Some body \<and> read_file u ?note = Some body"
    if h: "has_note to_json ?note n reason attempts t"
  proof -
    obtain j body at where "file_at t {?note} j body"
      and j: "to_json \<lparr>pn_segment = n, pn_reason = reason, pn_attempts = attempts,
        pn_quarantined_at_ms = int at\<rparr> = Some body" using h by (auto simp: has_note_def)
    then have "\<exists>p \<in> {?note}. read_file u p = Some body"
      using crash_kept [OF _ crash] by (auto simp: kept_file_at)
    then show ?thesis using j by blast
  qed
  show ?thesis
  proof (cases r)
    case (Inl e)
    then have t: "within {?f, ?d} i b t" "absent t ?d \<or> has_note to_json ?note n reason attempts t"
      using tripleD_err [OF T assms(1) run [unfolded Inl]] by blast+
    then have "\<exists>p \<in> {?f, ?d}. read_file u p = Some b"
      by (intro crash_survives [OF survives_within crash]) auto
    then show ?thesis using Inl t(2) nt crash_absent [OF crash, of ?d] by auto
  next
    case (Inr q)
    then have t: "q = ?d" "resting dir ?d i b t" "has_note to_json ?note n reason attempts t"
      using tripleD_ok [OF T assms(1) run [unfolded Inr]] by blast+
    then have "\<exists>p \<in> {?d}. read_file u p = Some b"
      by (intro crash_survives [OF survives_file crash]) (auto simp: resting_def)
    then show ?thesis using Inr t nt by auto
  qed
qed

lemma quarantine_poison_wf:
  assumes "before_aside dir (dir @ [a, n]) (dir @ [POISON_DIR, n])
      (dir @ [POISON_DIR, ''.'' @ n @ ''.poison.'' @ pid @ ''.tmp'']) i b s"
    and "a \<noteq> POISON_DIR" and run: "quarantine_poison_segment to_json pid (dir @ [a, n]) reason attempts s = (r, t)"
  shows "fs_wf t"
proof -
  note T = quarantine_poison_triple [OF assms(2) refl refl refl refl,
      where to_json = to_json and reason = reason and attempts = attempts]
  show ?thesis
  proof (cases r)
    case (Inl e)
    then show ?thesis using tripleD_err [OF T assms(1) run [unfolded Inl]] by (blast intro: within_wf)
  next
    case (Inr q)
    then show ?thesis using tripleD_ok [OF T assms(1) run [unfolded Inr]] by (blast intro: resting_wf)
  qed
qed

lemma sample_before_aside:
  "before_aside [''w''] [''w'', SEALED_DIR, ''a.arrow''] [''w'', POISON_DIR, ''a.arrow'']
     [''w'', POISON_DIR, ''.'' @ ''a.arrow'' @ ''.poison.'' @ ''7'' @ ''.tmp''] 0 [1, 2, 3] sample_fs"
  using sample_resting by (simp add: before_aside_def absent_def sample_fs_def fs_of_def sample_tree_def ent_def)

theorem poison_note_first_witness:
  "\<exists>r t u. quarantine_poison_segment (\<lambda>_. Some [9]) ''7'' [''w'', SEALED_DIR, ''a.arrow''] ''bad'' 3 sample_fs = (r, t) \<and>
     crash t u \<and> (\<exists>x \<in> {SEALED_DIR, POISON_DIR}. read_file u [''w'', x, ''a.arrow''] = Some [1, 2, 3])"
proof -
  obtain r t where t: "quarantine_poison_segment (\<lambda>_. Some [9]) ''7'' [''w'', SEALED_DIR, ''a.arrow''] ''bad'' 3 sample_fs = (r, t)"
    by (rule prod.exhaust)
  have ne: "SEALED_DIR \<noteq> POISON_DIR" by simp
  have "fs_wf t"
    using quarantine_poison_wf [of "[''w'']" SEALED_DIR "''a.arrow''" "''7''", unfolded append.simps,
        OF sample_before_aside [unfolded append.simps] ne t] .
  then have c: "crash t (settle t)" by (rule crash_settle)
  show ?thesis
    using poison_note_first [of "[''w'']" SEALED_DIR "''a.arrow''" "''7''", unfolded append.simps,
        OF sample_before_aside [unfolded append.simps] ne t c] t c by blast
qed

text \<open>C9. The operator's requeue never loses the segment: after any run of it and any later power
  cut the exact bytes are under \<^verbatim>\<open>poison/\<close> or \<^verbatim>\<open>sealed/\<close>, and under \<^verbatim>\<open>sealed/\<close> on success.\<close>

theorem requeue_never_loses:
  assumes "resting dir (dir @ [POISON_DIR, n]) i b s"
    and "requeue_poisoned_segment (dir @ [POISON_DIR, n]) s = (r, t)" and "crash t u"
  shows "(\<exists>x \<in> {POISON_DIR, SEALED_DIR}. read_file u (dir @ [x, n]) = Some b) \<and>
     (\<forall>q. r = Inr q \<longrightarrow> q = dir @ [SEALED_DIR, n] \<and> read_file u q = Some b)"
  using requeue.mv_crash [OF assms(1,2) _ assms(3)] by blast

definition poison_sample :: fs where
  "poison_sample = fs_of [([''w''], Dir), ([''w'', POISON_DIR], Dir), ([''w'', POISON_DIR, ''a.arrow''], File 0)]
     (\<lambda>i. [1, 2, 3])"

lemma poison_sample_resting: "resting [''w''] [''w'', POISON_DIR, ''a.arrow''] 0 [1, 2, 3] poison_sample"
proof -
  let ?es = "[([''w''], Dir), ([''w'', POISON_DIR], Dir), ([''w'', POISON_DIR, ''a.arrow''], File 0)]"
  have t: "tree_ok ?es" by code_simp
  have "map_of ?es [''w'', POISON_DIR, ''a.arrow''] = Some (File 0)" by code_simp
  moreover have "layout poison_sample [''w'']"
    unfolding layout_iff poison_sample_def by (intro conjI dir_ok_fs_of) code_simp+
  ultimately show ?thesis
    using safe_fs_of [OF t, of "[''w'', POISON_DIR, ''a.arrow'']" 0] dirs_solid_fs_of [OF t]
    by (simp add: resting_def file_at_def poison_sample_def)
qed

theorem requeue_never_loses_witness:
  "\<exists>r t u. requeue_poisoned_segment [''w'', POISON_DIR, ''a.arrow''] poison_sample = (r, t) \<and>
     crash t u \<and> (\<exists>x \<in> {POISON_DIR, SEALED_DIR}. read_file u [''w'', x, ''a.arrow''] = Some [1, 2, 3])"
proof -
  obtain r t where t: "requeue_poisoned_segment [''w'', POISON_DIR, ''a.arrow''] poison_sample = (r, t)"
    by (rule prod.exhaust)
  have "fs_wf t"
    by (rule triple_run [OF requeue_resting [of "[''w'']" "''a.arrow''", unfolded append.simps] poison_sample_resting t])
      (blast intro: resting_wf within_wf)+
  then have c: "crash t (settle t)" by (rule crash_settle)
  show ?thesis
    using requeue_never_loses [of "[''w'']" "''a.arrow''", unfolded append.simps, OF poison_sample_resting t c] t c
    by blast
qed

text \<open>C10. Quarantining a segment of a dropped table keeps its bytes: as long as the quarantined
  name is free or already holds the same bytes, every power cut after any run leaves them under
  the old name or under \<^verbatim>\<open>stale/<owner>/\<close>, and under the latter on success.\<close>

theorem stale_quarantine_keeps:
  assumes "resting dir (dir @ [a, n]) i b s" "stale_free (dir @ [STALE_DIR, owner, n]) b s"
    and "dir_ok s (dir @ [STALE_DIR, owner])" "a \<noteq> STALE_DIR"
    and run: "quarantine_stale_segment (dir @ [a, n]) owner s = (r, t)" and crash: "crash t u"
  shows "(\<exists>p \<in> {dir @ [a, n], dir @ [STALE_DIR, owner, n]}. read_file u p = Some b) \<and>
     (\<forall>q. r = Inr q \<longrightarrow> q = dir @ [STALE_DIR, owner, n] \<and> read_file u q = Some b)"
proof (cases r)
  case (Inl e)
  then have "survives {dir @ [a, n], dir @ [STALE_DIR, owner, n]} b t"
    using tripleD_err [OF quarantine_stale_triple [OF assms(4) refl refl]] assms(1-3) run by blast
  from crash_survives [OF this crash] show ?thesis using Inl by auto
next
  case (Inr q)
  then have "q = dir @ [STALE_DIR, owner, n]" "survives {dir @ [STALE_DIR, owner, n]} b t"
    using tripleD_ok [OF quarantine_stale_triple [OF assms(4) refl refl]] assms(1-3) run by blast+
  with crash_survives [OF this(2) crash] show ?thesis using Inr by auto
qed

theorem stale_quarantine_keeps_witness:
  "\<exists>r t u. quarantine_stale_segment [''w'', SEALED_DIR, ''a.arrow''] ''old'' sample_fs = (r, t) \<and> crash t u \<and>
     (\<exists>p \<in> {[''w'', SEALED_DIR, ''a.arrow''], [''w'', STALE_DIR, ''old'', ''a.arrow'']}. read_file u p = Some [1, 2, 3])"
proof -
  obtain r t where t: "quarantine_stale_segment [''w'', SEALED_DIR, ''a.arrow''] ''old'' sample_fs = (r, t)"
    by (rule prod.exhaust)
  have ne: "SEALED_DIR \<noteq> STALE_DIR" by simp
  have free: "stale_free [''w'', STALE_DIR, ''old'', ''a.arrow''] [1, 2, 3] sample_fs"
    by (simp add: stale_free_def sample_fs_def sample_tree_def)
  have ok: "dir_ok sample_fs [''w'', STALE_DIR, ''old'']"
    unfolding sample_fs_def by (rule dir_ok_fs_of) code_simp
  have "fs_wf t"
    by (rule triple_run [OF quarantine_stale_triple [OF ne refl refl,
            where dir = "[''w'']" and n = "''a.arrow''" and owner = "''old''", unfolded append.simps] conjI [OF conjI [OF sample_resting free] ok] t])
      (blast intro: survives_wf)+
  then have c: "crash t (settle t)" by (rule crash_settle)
  show ?thesis
    using stale_quarantine_keeps [of "[''w'']" SEALED_DIR "''a.arrow''", unfolded append.simps,
        OF sample_resting free ok ne t c] t c by blast
qed

end
