(* ===== verification/WalOrphans.thy ===== *)
theory WalOrphans
  imports WalQuarantine
begin

text \<open>
  The startup sweep \<^verbatim>\<open>recover_orphaned_processing\<close>: whatever a dead compactor left in
  \<^verbatim>\<open>processing/\<close> goes to \<^verbatim>\<open>orphans/\<close>, and the call reports only once both directories are synced.
\<close>

section \<open>One iteration\<close>

text \<open>Before the sweep reaches segment \<open>n\<close>, and after it has.\<close>

definition unswept :: "path \<Rightarrow> path \<Rightarrow> path \<Rightarrow> nat \<Rightarrow> bytes \<Rightarrow> fs \<Rightarrow> bool" where
  "unswept dir f t i b s \<longleftrightarrow> resting dir f i b s \<and> stale_free t b s"

definition swept :: "path \<Rightarrow> path \<Rightarrow> path \<Rightarrow> nat \<Rightarrow> bytes \<Rightarrow> nat \<Rightarrow> fs \<Rightarrow> bool" where
  "swept dir f t i b c s \<longleftrightarrow>
     (moved dir f t i b s \<and> ent s f = None \<and> 0 < c) \<or> (\<exists>j. file_at s {t} j b)"

lemma unswept_survives: "unswept dir f t i b s \<Longrightarrow> survives {f, t} b s"
  by (auto simp: unswept_def resting_def intro: survives_file)

lemma swept_survives: "swept dir f t i b c s \<Longrightarrow> survives {f, t} b s"
  by (auto simp: swept_def intro: survives_within [OF moved_within] survives_file)

lemma unswept_tickd: "unswept dir f t i b s \<Longrightarrow> unswept dir f t i b (tickd s)"
  by (simp add: unswept_def resting_tickd)

lemma swept_tickd: "swept dir f t i b c s \<Longrightarrow> swept dir f t i b c (tickd s)"
  unfolding swept_def moved_at_src by (auto dest: at_src_tickd intro: file_at_quiet)

lemma file_at_move_other:
  assumes "file_at s A j b" "p \<notin> A" "q \<notin> A" "p \<noteq> q" "ent s p = Some (File k)" "\<not> is_dir s q"
  shows "file_at (move_ent p q (File k) s) A j b"
proof -
  have "safe_at (move_ent p q (File k) s) A j"
    by (rule safe_at_move_other) (use assms in \<open>auto simp: file_at_def is_dir_def\<close>)
  then show ?thesis using assms(1) by (simp add: file_at_def)
qed

lemma file_at_remove_other:
  assumes "file_at s A j b" "p \<notin> A" "ent s p = Some (File k)"
  shows "file_at (set_ent p None s) A j b"
proof -
  have "safe_at (set_ent p None s) A j"
    by (rule safe_at_set_ent) (use assms in \<open>auto simp: file_at_def\<close>)
  then show ?thesis using assms(1) by (simp add: file_at_def)
qed

lemma tree_move_other:
  assumes "dirs_solid s" "layout s dir" "p \<noteq> q" "ent s p = Some (File k)" "\<not> is_dir s q" "length dir + 1 < length q"
  shows "dirs_solid (move_ent p q (File k) s) \<and> layout (move_ent p q (File k) s) dir"
  using dirs_solid_move_ent [OF assms(1) _ _ assms(3), of k] layout_move_ent [OF assms(2,3,6)] assms(4,5)
  by (simp add: is_dir_def)

lemma tree_remove_other:
  assumes "dirs_solid s" "layout s dir" "ent s p = Some (File k)"
  shows "dirs_solid (set_ent p None s) \<and> layout (set_ent p None s) dir"
  using dirs_solid_set_ent [OF assms(1), of p None] layout_set_ent [OF assms(2), of p None] assms(3) by simp

lemma unswept_move_other:
  assumes "unswept dir f t i b s" "p \<notin> {f, t}" "q \<notin> {f, t}" "p \<noteq> q" "ent s p = Some (File k)" "\<not> is_dir s q"
    and "length dir + 1 < length q"
  shows "unswept dir f t i b (move_ent p q (File k) s)"
proof -
  have "stale_free t b (move_ent p q (File k) s)"
    using assms file_at_move_other [of s "{t}" _ b p q k]
    unfolding unswept_def stale_free_def by auto
  then show ?thesis using assms resting_move_other [of dir f i b s p q k] by (auto simp: unswept_def)
qed

lemma unswept_remove_other:
  assumes "unswept dir f t i b s" "p \<notin> {f, t}" "ent s p = Some (File k)"
  shows "unswept dir f t i b (set_ent p None s)"
  using assms file_at_remove_other [of s "{f}" i b p k] file_at_remove_other [of s "{t}" _ b p k]
    tree_remove_other [of s dir p k]
  unfolding unswept_def resting_def stale_free_def by auto

lemma swept_move_other:
  assumes "swept dir f t i b c s" "p \<notin> {f, t}" "q \<notin> {f, t}" "p \<noteq> q" "ent s p = Some (File k)" "\<not> is_dir s q"
    and "length dir + 1 < length q" "c \<le> c'"
  shows "swept dir f t i b c' (move_ent p q (File k) s)"
  using assms file_at_move_other [of s "{f, t}" i b p q k] file_at_move_other [of s "{t}" _ b p q k]
    tree_move_other [of s dir p q k]
  unfolding swept_def moved_def by auto

lemma swept_remove_other:
  assumes "swept dir f t i b c s" "p \<noteq> t" "p = f \<Longrightarrow> \<exists>j. file_at s {t} j b" "ent s p = Some (File k)"
  shows "swept dir f t i b c (set_ent p None s)"
proof (cases "\<exists>j. file_at s {t} j b")
  case True
  then show ?thesis using file_at_remove_other [of s "{t}" _ b p k] assms by (auto simp: swept_def)
next
  case False
  then have "p \<notin> {f, t}" using assms by auto
  then show ?thesis
    using False assms file_at_remove_other [of s "{f, t}" i b p k] tree_remove_other [of s dir p k]
    unfolding swept_def moved_def by auto
qed

section \<open>The loop\<close>

lemma gets_unless:
  assumes "triple (\<lambda>s. P s \<and> \<not> c s) m Q E" "triple (\<lambda>s. P s \<and> c s) m' Q E"
  shows "triple P (qm (gets c) (\<lambda>x. if \<not> x then m else m')) Q E"
  using assms unfolding triple_def qm_def gets_def by auto

lemma triple_next:
  assumes "\<And>s. P s \<Longrightarrow> P (tickd s)" "\<And>s. P s \<Longrightarrow> E s"
  shows "triple P (std_next_entry e) (\<lambda>x s. x = e \<and> P s) E"
  unfolding std_next_entry_def using assms
  by (intro triple_syscall) (auto intro!: triple_ret)

lemma loop_step:
  assumes "\<And>s. P s \<Longrightarrow> P (tickd s)" "\<And>s. P s \<Longrightarrow> E s"
    and "triple (\<lambda>s. P s \<and> \<not> is_file s (pr @ [m])) (recover_processing_loop pr orp es c) Q E"
    and "triple (\<lambda>s. (P s \<and> is_file s (pr @ [m])) \<and> exists_path s (orp @ [m]))
      (qm (ignore (std_remove_file (pr @ [m]))) (\<lambda>_. recover_processing_loop pr orp es c)) Q E"
    and "triple (\<lambda>s. (P s \<and> is_file s (pr @ [m])) \<and> \<not> exists_path s (orp @ [m]))
      (qm (rename (pr @ [m]) (orp @ [m])) (\<lambda>_. recover_processing_loop pr orp es (Suc c))) Q E"
  shows "triple P (recover_processing_loop pr orp (m # es) c) Q E"
proof -
  have 1: "triple P (std_next_entry m) (\<lambda>x s. x = m \<and> P s) E"
    by (rule triple_next) (use assms(1,2) in auto)
  show ?thesis
    unfolding recover_processing_loop.simps Let_def
    by (rule triple_qm [OF 1], rule triple_pure)
      (simp only:, rule gets_unless [OF assms(3) gets_if_cond [OF assms(4,5)]])
qed

text \<open>Removing an entry and ignoring the outcome.\<close>

lemma ignore_remove:
  assumes "\<And>s. P s \<Longrightarrow> R (tickd s)" "\<And>s k. P s \<Longrightarrow> ent s p = Some (File k) \<Longrightarrow> R (set_ent p None (tickd s))"
  shows "triple P (ignore (std_remove_file p)) (\<lambda>_. R) E"
  by (rule triple_ignore, fold remove_file_def, rule triple_remove_file) (use assms in auto)

lemma swept_loop:
  assumes "f = dir @ [PROCESSING_DIR, n]" "t = dir @ [ORPHANS_DIR, n]"
  shows "triple (swept dir f t i b c)
     (recover_processing_loop (dir @ [PROCESSING_DIR]) (dir @ [ORPHANS_DIR]) es c)
     (swept dir f t i b) (survives {f, t} b)"
proof (induction es arbitrary: c)
  case Nil
  then show ?case by (auto intro: triple_ret)
next
  case (Cons m es)
  let ?p = "(dir @ [PROCESSING_DIR]) @ [m]" and ?q = "(dir @ [ORPHANS_DIR]) @ [m]"
  have ne: "?p \<noteq> t" "?p \<noteq> ?q" "?q \<noteq> f" using assms by auto
  show ?case
  proof (rule loop_step)
    show "triple (\<lambda>s. swept dir f t i b c s \<and> \<not> is_file s ?p)
        (recover_processing_loop (dir @ [PROCESSING_DIR]) (dir @ [ORPHANS_DIR]) es c) (swept dir f t i b) (survives {f, t} b)"
      by (rule triple_conseq [OF Cons.IH]) auto
    have f: "\<exists>j. file_at s {t} j b" if "swept dir f t i b c s" "is_file s ?p" "?p = f" for s
      using that by (auto simp: swept_def is_file_def)
    have "triple (\<lambda>s. (swept dir f t i b c s \<and> is_file s ?p) \<and> exists_path s ?q)
        (ignore (std_remove_file ?p)) (\<lambda>_. swept dir f t i b c) (survives {f, t} b)"
      by (rule ignore_remove) (use f ne(1) in \<open>auto intro!: swept_tickd swept_remove_other file_at_quiet\<close>)
    then show "triple (\<lambda>s. (swept dir f t i b c s \<and> is_file s ?p) \<and> exists_path s ?q)
        (qm (ignore (std_remove_file ?p))
          (\<lambda>_. recover_processing_loop (dir @ [PROCESSING_DIR]) (dir @ [ORPHANS_DIR]) es c)) (swept dir f t i b) (survives {f, t} b)"
      by (rule triple_qm [OF _ Cons.IH])
    have "triple (\<lambda>s. (swept dir f t i b c s \<and> is_file s ?p) \<and> \<not> exists_path s ?q)
        (rename ?p ?q) (\<lambda>_. swept dir f t i b (Suc c)) (survives {f, t} b)"
    proof (rule triple_rename)
      fix s k d
      assume s: "(swept dir f t i b c s \<and> is_file s ?p) \<and> \<not> exists_path s ?q"
        and k: "ent s ?p = Some (File k)" "\<not> is_dir s ?q"
      have "m \<noteq> n"
      proof
        assume "m = n"
        then have "\<exists>j. file_at s {t} j b" using f s assms by auto
        then have "ent s t \<noteq> None" using file_at_sole by fastforce
        then show False using s \<open>m = n\<close> assms by (simp add: exists_path_def)
      qed
      then show "swept dir f t i b (Suc c) (move_ent ?p ?q (File k) (tickd s))"
        by (intro swept_move_other [OF swept_tickd]) (use s k assms in \<open>auto simp: is_dir_def\<close>)
    qed (use ne in \<open>auto intro: swept_survives swept_tickd\<close>)
    then show "triple (\<lambda>s. (swept dir f t i b c s \<and> is_file s ?p) \<and> \<not> exists_path s ?q)
        (qm (rename ?p ?q)
          (\<lambda>_. recover_processing_loop (dir @ [PROCESSING_DIR]) (dir @ [ORPHANS_DIR]) es (Suc c))) (swept dir f t i b) (survives {f, t} b)"
      by (rule triple_qm [OF _ Cons.IH])
  qed (auto intro: swept_tickd swept_survives)
qed

lemma unswept_file: "unswept dir f t i b s \<Longrightarrow> ent s f = Some (File i)"
  by (auto simp: unswept_def resting_def intro: file_at_sole)

lemma sweep_remove:
  assumes "f \<noteq> t"
  shows "triple (\<lambda>s. (unswept dir f t i b s \<and> is_file s f) \<and> exists_path s t) (ignore (std_remove_file f))
     (\<lambda>_. swept dir f t i b c) E"
proof (rule ignore_remove)
  fix s
  assume "(unswept dir f t i b s \<and> is_file s f) \<and> exists_path s t"
  then obtain j where j: "file_at s {t} j b" by (auto simp: unswept_def stale_free_def exists_path_def)
  then show "swept dir f t i b c (tickd s)" by (auto simp: swept_def intro: file_at_quiet)
  show "swept dir f t i b c (set_ent f None (tickd s))" if "ent s f = Some (File k)" for k
    using file_at_remove_other [of "tickd s" "{t}" j b f k] j that assms by (auto simp: swept_def)
qed

lemma sweep_rename:
  assumes "f \<noteq> t" "t = e @ [n]" "length dir < length e" "f \<noteq> []"
  shows "triple (\<lambda>s. (unswept dir f t i b s \<and> is_file s f) \<and> \<not> exists_path s t) (rename f t)
     (\<lambda>_. swept dir f t i b (Suc c)) (survives {f, t} b)"
proof (rule triple_rename)
  fix s k d
  assume s: "(unswept dir f t i b s \<and> is_file s f) \<and> \<not> exists_path s t" and k: "ent s f = Some (File k)"
    and d: "parent t = Some d" "is_dir s d" "\<not> is_dir s t"
  have "k = i" using unswept_file s k by force
  have "is_dir s e" using d assms(2) by (simp add: parent_def)
  then have "at_src dir f t i b (tickd s)"
    using s assms(2) by (intro at_src_tickd resting_at_src [where n = n]) (auto simp: unswept_def)
  then have "moved dir f t i b (move_ent f t (File i) (tickd s))"
    using d(3) assms by (intro move_ent_moved) (auto simp: is_dir_def)
  then show "swept dir f t i b (Suc c) (move_ent f t (File k) (tickd s))"
    using assms \<open>k = i\<close> by (auto simp: swept_def)
qed (use assms in \<open>auto intro: unswept_survives unswept_tickd\<close>)

lemma unswept_here:
  assumes "f = pr @ [n]" "t = orp @ [n]" "pr \<noteq> orp" "length dir < length orp"
    and "\<And>c. triple (swept dir f t i b c) (recover_processing_loop pr orp es c) Q (survives {f, t} b)"
  shows "triple (unswept dir f t i b) (recover_processing_loop pr orp (n # es) c) Q (survives {f, t} b)"
proof (rule loop_step)
  have ne: "f \<noteq> t" "f \<noteq> []" using assms by auto
  show "triple (\<lambda>s. unswept dir f t i b s \<and> \<not> is_file s (pr @ [n])) (recover_processing_loop pr orp es c) Q (survives {f, t} b)"
    unfolding assms(1) [symmetric] triple_def by (auto simp: is_file_def dest: unswept_file)
  show "triple (\<lambda>s. (unswept dir f t i b s \<and> is_file s (pr @ [n])) \<and> exists_path s (orp @ [n]))
      (qm (ignore (std_remove_file (pr @ [n]))) (\<lambda>_. recover_processing_loop pr orp es c)) Q (survives {f, t} b)"
    unfolding assms(1,2) [symmetric] by (rule triple_qm [OF sweep_remove [OF ne(1)] assms(5)])
  show "triple (\<lambda>s. (unswept dir f t i b s \<and> is_file s (pr @ [n])) \<and> \<not> exists_path s (orp @ [n]))
      (qm (rename (pr @ [n]) (orp @ [n])) (\<lambda>_. recover_processing_loop pr orp es (Suc c))) Q (survives {f, t} b)"
    unfolding assms(1,2) [symmetric]
    by (rule triple_qm [OF sweep_rename [OF ne(1) assms(2,4) ne(2)] assms(5)])
qed (auto intro: unswept_tickd unswept_survives)

lemma unswept_other:
  assumes "pr @ [m] \<notin> {f, t}" "orp @ [m] \<notin> {f, t}" "pr \<noteq> orp" "length dir < length orp"
    and "\<And>c. triple (unswept dir f t i b) (recover_processing_loop pr orp es c) Q (survives {f, t} b)"
  shows "triple (unswept dir f t i b) (recover_processing_loop pr orp (m # es) c) Q (survives {f, t} b)"
proof (rule loop_step)
  let ?U = "unswept dir f t i b"
  show "triple (\<lambda>s. ?U s \<and> \<not> is_file s (pr @ [m])) (recover_processing_loop pr orp es c) Q (survives {f, t} b)"
    by (rule triple_conseq [OF assms(5)]) auto
  have "triple (\<lambda>s. (?U s \<and> is_file s (pr @ [m])) \<and> exists_path s (orp @ [m])) (ignore (std_remove_file (pr @ [m])))
      (\<lambda>_. ?U) (survives {f, t} b)"
    by (rule ignore_remove) (use assms(1) unswept_tickd unswept_remove_other [OF unswept_tickd] in auto)
  then show "triple (\<lambda>s. (?U s \<and> is_file s (pr @ [m])) \<and> exists_path s (orp @ [m]))
      (qm (ignore (std_remove_file (pr @ [m]))) (\<lambda>_. recover_processing_loop pr orp es c)) Q (survives {f, t} b)"
    by (rule triple_qm [OF _ assms(5)])
  have "triple (\<lambda>s. (?U s \<and> is_file s (pr @ [m])) \<and> \<not> exists_path s (orp @ [m])) (rename (pr @ [m]) (orp @ [m]))
      (\<lambda>_. ?U) (survives {f, t} b)"
    by (rule triple_rename)
      (use assms(1-4) in \<open>auto intro!: unswept_move_other [OF unswept_tickd] unswept_survives unswept_tickd simp: is_dir_def\<close>)
  then show "triple (\<lambda>s. (?U s \<and> is_file s (pr @ [m])) \<and> \<not> exists_path s (orp @ [m]))
      (qm (rename (pr @ [m]) (orp @ [m])) (\<lambda>_. recover_processing_loop pr orp es (Suc c))) Q (survives {f, t} b)"
    by (rule triple_qm [OF _ assms(5)])
qed (auto intro: unswept_tickd unswept_survives)

lemma unswept_loop:
  assumes "f = dir @ [PROCESSING_DIR, n]" "t = dir @ [ORPHANS_DIR, n]"
  shows "triple (unswept dir f t i b)
     (recover_processing_loop (dir @ [PROCESSING_DIR]) (dir @ [ORPHANS_DIR]) es c)
     (\<lambda>r s. if n \<in> set es then swept dir f t i b r s else unswept dir f t i b s) (survives {f, t} b)"
proof (induction es arbitrary: c)
  case Nil
  then show ?case by (auto intro: triple_ret)
next
  case (Cons m es)
  show ?case
  proof (cases "m = n")
    case True
    then show ?thesis
      by (simp del: recover_processing_loop.simps)
        (rule unswept_here [OF _ _ _ _ swept_loop [OF assms]], use assms in auto)
  next
    case False
    then have "triple (unswept dir f t i b)
        (recover_processing_loop (dir @ [PROCESSING_DIR]) (dir @ [ORPHANS_DIR]) (m # es) c)
        (\<lambda>r s. if n \<in> set es then swept dir f t i b r s else unswept dir f t i b s) (survives {f, t} b)"
      using assms by (intro unswept_other [OF _ _ _ _ Cons.IH]) auto
    then show ?thesis using False by (simp del: recover_processing_loop.simps)
  qed
qed

section \<open>The sweep\<close>

lemma dir_entries_listed:
  assumes "d @ [n] \<in> set (names s)" "ent s (d @ [n]) = Some v"
  shows "n \<in> set (map fst (dir_entries s d))"
proof -
  have "(n, v) \<in> set (dir_entries s d)"
    unfolding dir_entries_def List.map_filter_def set_map set_filter
    by (rule image_eqI [where x = "d @ [n]"]) (use assms in simp_all)
  then show ?thesis by force
qed

lemma persist_swept:
  assumes "t = e @ [n]" "f \<in> A" "t \<in> A"
  shows "triple (swept dir f t i b r) (if r > 0 then qm (persist_move e d) (\<lambda>_. ret r) else ret r)
     (\<lambda>_. survives {t} b) (survives A b)"
proof -
  have S: "survives A b s" if "file_at s {t} j b" for s j using that assms(3) by (rule survives_file)
  have 1: "triple (moved dir f t i b) (qm (persist_move e d) (\<lambda>_. ret r)) (\<lambda>_. survives {t} b) (survives A b)"
    by (rule triple_qm [OF triple_conseq [OF persist_move_move [OF assms(1)]] triple_ret])
      (use assms in \<open>auto simp: resting_def intro: survives_file survives_within [OF moved_within]\<close>)
  have 2: "triple (\<lambda>s. file_at s {t} j b) (qm (persist_move e d) (\<lambda>_. ret r)) (\<lambda>_. survives {t} b) (survives A b)" for j
    by (rule triple_qm [OF triple_conseq [OF persist_other] triple_ret]) (use S in \<open>auto intro: survives_file\<close>)
  show ?thesis
  proof (cases "r > 0")
    case True
    have m: "triple (\<lambda>s. moved dir f t i b s \<or> (\<exists>j. file_at s {t} j b)) (qm (persist_move e d) (\<lambda>_. ret r))
        (\<lambda>_. survives {t} b) (survives A b)"
      by (rule triple_disj [OF 1 triple_ex [OF 2]])
    show ?thesis using True by simp (rule triple_conseq [OF m], auto simp: swept_def)
  next
    case False
    then show ?thesis by (auto simp: swept_def intro!: triple_ret intro: survives_file)
  qed
qed

text \<open>A segment left in \<^verbatim>\<open>processing/\<close> that the directory lists.\<close>

definition stranded :: "path \<Rightarrow> string \<Rightarrow> nat \<Rightarrow> bytes \<Rightarrow> fs \<Rightarrow> bool" where
  "stranded dir n i b s \<longleftrightarrow>
     unswept dir (dir @ [PROCESSING_DIR, n]) (dir @ [ORPHANS_DIR, n]) i b s \<and>
     dir @ [PROCESSING_DIR, n] \<in> set (names s)"

lemma names_set_ent [simp]: "set (names (set_ent p v s)) = insert p (set (names s))"
  by (simp add: set_ent_def)

lemma create_dir_stranded:
  "triple (stranded dir n i b) (create_dir_all (dir @ [ORPHANS_DIR])) (\<lambda>_. stranded dir n i b)
     (survives {dir @ [PROCESSING_DIR, n]} b)"
proof -
  let ?f = "dir @ [PROCESSING_DIR, n]" and ?t = "dir @ [ORPHANS_DIR, n]" and ?p = "dir @ [ORPHANS_DIR]"
  let ?P = "\<lambda>s. (file_at s {?f} i b \<and> layout s dir) \<and> stale_free ?t b s \<and> ?f \<in> set (names s)"
  have d: "q \<noteq> ?t" if "prefix q ?p" for q using prefix_length_le [OF that] by auto
  have "dir_closed ?p ?P"
    using dir_closed_file [of ?p ?f i b dir] d unfolding dir_closed_def by (auto intro: stale_free_mkdir)
  from triple_create_dir_all [OF this] show ?thesis
    by (rule triple_conseq)
      (auto simp: stranded_def unswept_def resting_def layout_iff intro: survives_file dest: file_at_wf)
qed

lemma triple_read_dir:
  assumes "\<And>s. P s \<Longrightarrow> E (tickd s)" "\<And>s. P s \<Longrightarrow> is_dir s d \<Longrightarrow> Q (dir_entries s d) (tickd s)"
  shows "triple P (std_read_dir d) Q E"
proof -
  have e: "dir_entries (tickd s) d = dir_entries s d" "is_dir (tickd s) d = is_dir s d" for s
    unfolding dir_entries_def is_dir_def tickd_simps by (rule refl)+
  show ?thesis
    unfolding std_read_dir_def
    by (rule triple_syscall) (use assms in \<open>auto simp: triple_def e\<close>)
qed

lemma read_dir_stranded:
  "triple (stranded dir n i b) (std_read_dir (dir @ [PROCESSING_DIR]))
     (\<lambda>es s. unswept dir (dir @ [PROCESSING_DIR, n]) (dir @ [ORPHANS_DIR, n]) i b s \<and> n \<in> set (map fst es))
     (stranded dir n i b)"
proof (rule triple_read_dir)
  fix s
  assume s: "stranded dir n i b s"
  then show "stranded dir n i b (tickd s)" by (simp add: stranded_def unswept_tickd)
  have "ent s (dir @ [PROCESSING_DIR, n]) = Some (File i)"
    using s unfolding stranded_def by (blast intro: unswept_file)
  then have "n \<in> set (map fst (dir_entries s (dir @ [PROCESSING_DIR])))"
    using s by (intro dir_entries_listed) (simp_all add: stranded_def)
  then show "unswept dir (dir @ [PROCESSING_DIR, n]) (dir @ [ORPHANS_DIR, n]) i b (tickd s) \<and>
      n \<in> set (map fst (dir_entries s (dir @ [PROCESSING_DIR])))"
    using s unfolding stranded_def by (blast intro: unswept_tickd)
qed

lemma stranded_survives: "stranded dir n i b s \<Longrightarrow> survives {dir @ [PROCESSING_DIR, n], dir @ [ORPHANS_DIR, n]} b s"
  unfolding stranded_def by (blast intro: unswept_survives)

lemma recover_orphaned_triple:
  "triple (\<lambda>s. stranded dir n i b s \<and> is_dir s (dir @ [PROCESSING_DIR])) (recover_orphaned_processing dir)
     (\<lambda>_. survives {dir @ [ORPHANS_DIR, n]} b)
     (survives {dir @ [PROCESSING_DIR, n], dir @ [ORPHANS_DIR, n]} b)"
proof -
  let ?f = "dir @ [PROCESSING_DIR, n]" and ?t = "dir @ [ORPHANS_DIR, n]"
  let ?pr = "dir @ [PROCESSING_DIR]" and ?or = "dir @ [ORPHANS_DIR]" and ?E = "survives {?f, ?t} b"
  have 1: "triple (stranded dir n i b) (create_dir_all ?or) (\<lambda>_. stranded dir n i b) ?E"
    by (rule triple_conseq [OF create_dir_stranded]) (auto simp: survives_def elim: within_mono [rotated])
  have 2: "triple (stranded dir n i b) (std_read_dir ?pr) (\<lambda>es s. n \<in> set (map fst es) \<and> unswept dir ?f ?t i b s) ?E"
    by (rule triple_conseq [OF read_dir_stranded]) (auto intro: stranded_survives)
  have 3: "triple (\<lambda>s. n \<in> set es \<and> unswept dir ?f ?t i b s) (recover_processing_loop ?pr ?or es 0)
      (\<lambda>r. swept dir ?f ?t i b r) ?E" for es
    by (rule triple_pure, rule triple_conseq [OF unswept_loop [OF refl refl]]) auto
  have 4: "triple (swept dir ?f ?t i b r) (if r > 0 then qm (persist_move ?or ?pr) (\<lambda>_. ret r) else ret r)
      (\<lambda>_. survives {?t} b) ?E" for r
    by (rule persist_swept) auto
  have 5: "triple (stranded dir n i b) (qm (create_dir_all ?or) (\<lambda>_. qm (std_read_dir ?pr) (\<lambda>entries.
      qm (recover_processing_loop ?pr ?or (map fst entries) 0) (\<lambda>moved.
        if moved > 0 then qm (persist_move ?or ?pr) (\<lambda>_. ret moved) else ret moved))))
      (\<lambda>_. survives {?t} b) ?E"
    by (rule triple_qm [OF 1 triple_qm [OF 2 triple_qm [OF 3 4]]])
  let ?P = "\<lambda>s. stranded dir n i b s \<and> is_dir s ?pr"
  have 6: "triple (\<lambda>s. ?P s \<and> exists_path s ?pr) (qm (create_dir_all ?or) (\<lambda>_. qm (std_read_dir ?pr) (\<lambda>entries.
      qm (recover_processing_loop ?pr ?or (map fst entries) 0) (\<lambda>moved.
        if moved > 0 then qm (persist_move ?or ?pr) (\<lambda>_. ret moved) else ret moved))))
      (\<lambda>_. survives {?t} b) ?E"
    by (rule triple_conseq [OF 5]) simp_all
  have 7: "triple (\<lambda>s. ?P s \<and> \<not> exists_path s ?pr) (ret 0) (\<lambda>_. survives {?t} b) ?E"
    by (rule triple_ret) (auto simp: exists_path_def is_dir_def)
  show ?thesis
    unfolding recover_orphaned_processing_def Let_def by (rule gets_unless [OF 7 6])
qed

section \<open>Properties\<close>

text \<open>C11. The startup sweep keeps every segment a dead compactor left behind. For any segment in
  \<^verbatim>\<open>processing/\<close> (whose name in \<^verbatim>\<open>orphans/\<close> is free or already holds the same bytes), any
  pattern of I/O errors and any later power cut, its bytes are under one of the two names; and
  once the sweep has reported a count, no power cut takes them out of \<^verbatim>\<open>orphans/\<close>.\<close>

theorem orphan_sweep_keeps:
  assumes "stranded dir n i b s" "is_dir s (dir @ [PROCESSING_DIR])"
    and run: "recover_orphaned_processing dir s = (r, t)" and crash: "crash t u"
  shows "(\<exists>x \<in> {PROCESSING_DIR, ORPHANS_DIR}. read_file u (dir @ [x, n]) = Some b) \<and>
     (\<forall>m. r = Inr m \<longrightarrow> read_file u (dir @ [ORPHANS_DIR, n]) = Some b)"
proof (cases r)
  case (Inl e)
  have "survives {dir @ [PROCESSING_DIR, n], dir @ [ORPHANS_DIR, n]} b t"
    by (rule tripleD_err [OF recover_orphaned_triple conjI [OF assms(1,2)] run [unfolded Inl]])
  from crash_survives [OF this crash] show ?thesis using Inl by auto
next
  case (Inr m)
  have "survives {dir @ [ORPHANS_DIR, n]} b t"
    by (rule tripleD_ok [OF recover_orphaned_triple conjI [OF assms(1,2)] run [unfolded Inr]])
  from crash_survives [OF this crash] show ?thesis using Inr by auto
qed

definition stranded_sample :: fs where
  "stranded_sample =
     fs_of [([''w''], Dir), ([''w'', PROCESSING_DIR], Dir), ([''w'', PROCESSING_DIR, ''a.arrow''], File 0)]
       (\<lambda>i. [1, 2, 3])"

lemma stranded_sample: "stranded [''w''] ''a.arrow'' 0 [1, 2, 3] stranded_sample"
proof -
  let ?es = "[([''w''], Dir), ([''w'', PROCESSING_DIR], Dir), ([''w'', PROCESSING_DIR, ''a.arrow''], File 0)]"
  have t: "tree_ok ?es" by code_simp
  have "map_of ?es [''w'', PROCESSING_DIR, ''a.arrow''] = Some (File 0)" by code_simp
  moreover have "layout stranded_sample [''w'']"
    unfolding layout_iff stranded_sample_def by (intro conjI dir_ok_fs_of) code_simp+
  ultimately have "resting [''w''] [''w'', PROCESSING_DIR, ''a.arrow''] 0 [1, 2, 3] stranded_sample"
    using safe_fs_of [OF t, of "[''w'', PROCESSING_DIR, ''a.arrow'']" 0] dirs_solid_fs_of [OF t]
    by (simp add: resting_def file_at_def stranded_sample_def)
  moreover have "ent stranded_sample [''w'', ORPHANS_DIR, ''a.arrow''] = None"
    unfolding stranded_sample_def by code_simp
  moreover have "[''w'', PROCESSING_DIR, ''a.arrow''] \<in> set (names stranded_sample)"
    unfolding stranded_sample_def fs_of_sel by simp
  ultimately show ?thesis unfolding stranded_def unswept_def stale_free_def append.simps by blast
qed

theorem orphan_sweep_keeps_witness:
  "\<exists>r t u. recover_orphaned_processing [''w''] stranded_sample = (r, t) \<and> crash t u \<and>
     (\<exists>x \<in> {PROCESSING_DIR, ORPHANS_DIR}. read_file u [''w'', x, ''a.arrow''] = Some [1, 2, 3])"
proof -
  obtain r t where t: "recover_orphaned_processing [''w''] stranded_sample = (r, t)"
    by (rule prod.exhaust)
  have d: "is_dir stranded_sample ([''w''] @ [PROCESSING_DIR])"
    by (simp add: is_dir_def stranded_sample_def)
  have "fs_wf t"
    by (rule triple_run [OF recover_orphaned_triple [of "[''w'']" "''a.arrow''"] conjI [OF stranded_sample d] t])
      (blast intro: survives_wf)+
  then have c: "crash t (settle t)" by (rule crash_settle)
  show ?thesis
    using orphan_sweep_keeps [OF stranded_sample d t c, unfolded append.simps] t c by blast
qed

end
