(* ===== verification/WalPins.thy ===== *)
theory WalPins
  imports WalOrphans
begin

text \<open>
  The local side of \<^verbatim>\<open>crates/loglake-wal/src/mirror.rs\<close>: the hard links under
  \<^verbatim>\<open>mirror-pending/\<close> that keep a sealed segment readable until its upload is done, and the queue
  the writer's seal pushes to.
\<close>

record WalSegment =
  seg_path :: path
  seg_rows :: nat
  seg_bytes :: nat
  mirror_key_suffix :: string

abbreviation "MIRROR_PENDING_DIR \<equiv> ''mirror-pending''"

definition wal_dir :: "WalSegment \<Rightarrow> path option" where
  "wal_dir segment = Option.bind (parent (seg_path segment)) parent"

definition pending_path :: "WalSegment \<Rightarrow> path option" where
  "pending_path segment =
     Option.bind (wal_dir segment) (\<lambda>d.
     Option.bind (file_name (seg_path segment)) (\<lambda>n. Some (d @ [MIRROR_PENDING_DIR, n])))"

definition find_segment :: "WalSegment \<Rightarrow> fs \<Rightarrow> path option" where
  "find_segment segment s =
     Option.bind (file_name (seg_path segment)) (\<lambda>filename.
     Option.bind (wal_dir segment) (\<lambda>d.
     List.find (exists_path s)
       (map (\<lambda>sub. d @ [sub, filename]) [SEALED_DIR, PROCESSING_DIR, COMMITTED_DIR, MIRROR_PENDING_DIR])))"

text \<open>The retry loop of \<^verbatim>\<open>pin_segment\<close>: resolve the segment again after a \<^verbatim>\<open>NotFound\<close>.\<close>

primrec pin_loop :: "nat \<Rightarrow> WalSegment \<Rightarrow> path \<Rightarrow> path \<Rightarrow> unit io" where
  "pin_loop 0 segment pending dir = fail ENoEnt"
| "pin_loop (Suc k) segment pending dir =
     qm (gets (find_segment segment)) (\<lambda>found.
     qm (ok_or found EPath) (\<lambda>source s.
       case std_hard_link source pending s of
         (Inr _, t) \<Rightarrow> sync_dir dir t
       | (Inl EExists, t) \<Rightarrow> (Inr (), t)
       | (Inl ENoEnt, t) \<Rightarrow> pin_loop k segment pending dir t
       | (Inl e, t) \<Rightarrow> (Inl e, t)))"

definition pin_segment :: "WalSegment \<Rightarrow> unit io" where
  "pin_segment segment =
     qm (ok_or (pending_path segment) EPath) (\<lambda>pending.
     qm (ok_or (parent pending) EPath) (\<lambda>dir.
     qm (create_dir_all dir) (\<lambda>_.
     pin_loop 3 segment pending dir)))"

definition remove_pin :: "WalSegment \<Rightarrow> unit io" where
  "remove_pin segment s =
     (case pending_path segment of
        None \<Rightarrow> (Inr (), s)
      | Some pending \<Rightarrow>
          (case std_remove_file pending s of
             (Inr _, t) \<Rightarrow> qm (ok_or (parent pending) EPath) (\<lambda>dir. sync_dir dir) t
           | (Inl ENoEnt, t) \<Rightarrow> (Inr (), t)
           | (Inl e, t) \<Rightarrow> (Inl e, t)))"

text \<open>The handle: the channel's backlog, whether the worker still listens, and the queue-depth
  counter. The pin's outcome is only logged; a closed channel leaves the pin for catch-up.\<close>

record mirror_handle =
  mh_backlog :: "WalSegment list"
  mh_open :: bool
  mh_queued :: nat

definition enqueue :: "WalSegment \<Rightarrow> mirror_handle \<Rightarrow> fs \<Rightarrow> mirror_handle \<times> fs" where
  "enqueue segment h s =
     (let t = snd (pin_segment segment s);
          h = h\<lparr>mh_queued := mh_queued h + 1\<rparr> in
      (if mh_open h then h\<lparr>mh_backlog := mh_backlog h @ [segment]\<rparr>
       else h\<lparr>mh_queued := mh_queued h - 1\<rparr>, t))"

end
