(* ===== verification/WalWriter.thy ===== *)
theory WalWriter
  imports WalPins
begin

text \<open>
  The single-writer WAL of \<^verbatim>\<open>crates/loglake-wal/src/lib.rs\<close>: an open segment behind a buffered,
  checksumming writer, \<^verbatim>\<open>append_batch\<close>, \<^verbatim>\<open>sync_active\<close> (the acknowledgement step), \<^verbatim>\<open>seal\<close>,
  \<^verbatim>\<open>tick\<close> and \<^verbatim>\<open>bind_table_uuid\<close>. The Arrow stream encoder, the zstd encoder and the v7 UUID
  source are a record of parameters.
\<close>

section \<open>Buffered writer\<close>

text \<open>\<^verbatim>\<open>CrcWriter<File>\<close> over the file system: the file is its inode.\<close>

definition crc_file_write :: "bytes \<Rightarrow> nat crc_writer \<Rightarrow> fs \<Rightarrow> nat \<times> nat crc_writer \<times> fs" where
  "crc_file_write buf c s =
     (let (n, c') = crc_writer_write (\<lambda>(i, s) b. let (n, t) = std_write i b s in (n, (i, t))) buf
            \<lparr>cw_inner = (cw_inner c, s), cw_state = cw_state c\<rparr> in
      (n, \<lparr>cw_inner = fst (cw_inner c'), cw_state = cw_state c'\<rparr>, snd (cw_inner c')))"

definition BUF_CAPACITY :: nat where "BUF_CAPACITY = 8192"

record buf_writer =
  bw_buf :: bytes
  bw_inner :: "nat crc_writer"

text \<open>\<^verbatim>\<open>BufWriter::flush_buf\<close> and what \<^verbatim>\<open>flush\<close> adds to it, nothing for a file. What an error left
  unwritten stays in the buffer.\<close>

definition buf_flush :: "(buf_writer \<times> fs, unit) eff" where
  "buf_flush = (\<lambda>(w, s).
     if bw_buf w = [] then (Inr (), (w, s))
     else
       let (n, c, t) = crc_file_write (bw_buf w) (bw_inner w) s in
       (if fault_at s (clk s) = None then Inr () else Inl EIO,
        (w\<lparr>bw_buf := drop n (bw_buf w), bw_inner := c\<rparr>, t)))"

definition buf_push :: "bytes \<Rightarrow> (buf_writer \<times> fs, unit) eff" where
  "buf_push bs = (\<lambda>(w, s). (Inr (), (w\<lparr>bw_buf := bw_buf w @ bs\<rparr>, s)))"

text \<open>A write at least as long as the buffer goes straight to the inner writer; on an error the
  part not taken is lost to the stream.\<close>

definition inner_write_all :: "bytes \<Rightarrow> (buf_writer \<times> fs, unit) eff" where
  "inner_write_all bs = (\<lambda>(w, s).
     let (n, c, t) = crc_file_write bs (bw_inner w) s in
     (if fault_at s (clk s) = None then Inr () else Inl EIO, (w\<lparr>bw_inner := c\<rparr>, t)))"

definition buf_write_all :: "bytes \<Rightarrow> (buf_writer \<times> fs, unit) eff" where
  "buf_write_all bs = (\<lambda>(w, s).
     if length bs < BUF_CAPACITY - length (bw_buf w) then buf_push bs (w, s)
     else
       qm (if length bs > BUF_CAPACITY - length (bw_buf w) then buf_flush else ret ())
         (\<lambda>_. if length bs \<ge> BUF_CAPACITY then inner_write_all bs else buf_push bs) (w, s))"

section \<open>Parameters\<close>

text \<open>What the Arrow stream writer does with its sink, in order.\<close>

datatype ipc_op = Put bytes | Flush

primrec stream_ops :: "ipc_op list \<Rightarrow> (buf_writer \<times> fs, unit) eff" where
  "stream_ops [] = ret ()"
| "stream_ops (op # ops) =
     qm (case op of Put bs \<Rightarrow> buf_write_all bs | Flush \<Rightarrow> buf_flush) (\<lambda>_. stream_ops ops)"

text \<open>The operations of the stream encoder for the schema, a batch and the end of the stream
  (\<open>None\<close>: the batch is refused before anything is written), the rows and event-time column of a
  batch, the zstd encoder, and the text of a fresh v7 UUID.\<close>

record 'b codec =
  schema_ops :: "ipc_op list"
  batch_ops :: "'b \<Rightarrow> ipc_op list option"
  eos_ops :: "ipc_op list"
  num_rows :: "'b \<Rightarrow> nat"
  ts_column :: "'b \<Rightarrow> int option list option"
  zstd_encode :: "bytes \<Rightarrow> bytes option"
  now_v7 :: "fs \<Rightarrow> string"

definition i64_MAX :: int where "i64_MAX = 2 ^ 63 - 1"
definition i64_MIN :: int where "i64_MIN = - (2 ^ 63)"

definition batch_ts_min_max :: "int option list option \<Rightarrow> (int \<times> int) option" where
  "batch_ts_min_max col =
     (case col of
        None \<Rightarrow> None
      | Some arr \<Rightarrow>
          let (mn, mx) = fold (\<lambda>v (mn, mx). case v of None \<Rightarrow> (mn, mx) | Some v \<Rightarrow> (min mn v, max mx v))
                arr (i64_MAX, i64_MIN) in
          if mn \<le> mx then Some (mn, mx) else None)"

section \<open>State\<close>

record ActiveSegment =
  active_path :: path
  final_path :: path
  a_writer :: buf_writer
  a_rows :: nat
  started_at :: nat
  min_ts :: int
  max_ts :: int
  a_owner :: "uuid option"
  dir_synced :: bool

record WalWriter =
  w_dir :: path
  ingester_id :: string
  max_events :: nat
  max_age :: nat
  current :: "ActiveSegment option"
  w_mirror :: "mirror_handle option"
  mirror_subdir :: "string option"
  table_uuid :: "uuid option"

type_synonym 'a wal = "(WalWriter \<times> fs, 'a) eff"

definition on_fs :: "(fs, 'a) eff \<Rightarrow> ('w \<times> fs, 'a) eff" where
  "on_fs m = (\<lambda>(w, s). let (r, t) = m s in (r, (w, t)))"

text \<open>Run on the open segment's writer and keep what it became, also on an error. There always is
  an open segment where this is called; the code's \<^verbatim>\<open>expect\<close> is the other branch.\<close>

definition on_writer :: "(buf_writer \<times> fs, 'a) eff \<Rightarrow> 'a wal" where
  "on_writer m = (\<lambda>(w, s).
     case current w of
       None \<Rightarrow> (Inl ERefused, (w, s))
     | Some a \<Rightarrow>
         let (r, (b, t)) = m (a_writer a, s) in (r, (w\<lparr>current := Some (a\<lparr>a_writer := b\<rparr>)\<rparr>, t)))"

definition on_active :: "(ActiveSegment \<Rightarrow> ActiveSegment) \<Rightarrow> unit wal" where
  "on_active f = (\<lambda>(w, s). (Inr (), (w\<lparr>current := map_option f (current w)\<rparr>, s)))"

section \<open>The code\<close>

text \<open>A buffered writer that goes out of scope flushes once more and ignores the outcome.\<close>

definition buf_drop :: "buf_writer \<times> fs \<Rightarrow> fs" where
  "buf_drop ws = snd (snd (buf_flush ws))"

definition open_stream :: "'b codec \<Rightarrow> nat \<Rightarrow> buf_writer io" where
  "open_stream C i s =
     (case stream_ops (schema_ops C) (\<lparr>bw_buf = [], bw_inner = crc_writer_new i\<rparr>, s) of
        (Inl e, ws) \<Rightarrow> (Inl e, buf_drop ws)
      | (Inr _, (b, t)) \<Rightarrow> (Inr b, t))"

definition start_segment :: "'b codec \<Rightarrow> unit wal" where
  "start_segment C = (\<lambda>(w, s).
     let id = ingester_id w @ ''-'' @ now_v7 C s;
         active = w_dir w @ [ACTIVE_DIR, id @ ''.arrow.partial''];
         final = w_dir w @ [SEALED_DIR, id @ ''.arrow''];
         own = table_uuid w in
     qm (on_fs (std_create active)) (\<lambda>i.
     qm (on_fs (std_write_all i (build_wal_frame WAL_FRAME_FLAG_PARTIAL 0 0 own [] 0))) (\<lambda>_.
     qm (on_fs (open_stream C i)) (\<lambda>b (w, s).
       (Inr (), (w\<lparr>current := Some
          \<lparr>active_path = active, final_path = final, a_writer = b, a_rows = 0, started_at = now s,
           min_ts = i64_MAX, max_ts = i64_MIN, a_owner = own, dir_synced = False\<rparr>\<rparr>, s))))) (w, s))"

text \<open>\<^verbatim>\<open>writer.finish()\<close>, \<^verbatim>\<open>into_inner\<close> twice and \<^verbatim>\<open>into_parts\<close>: the checksum and the file.\<close>

definition finish_stream :: "'b codec \<Rightarrow> buf_writer \<Rightarrow> (u32 \<times> nat) io" where
  "finish_stream C b s =
     (case stream_ops (eos_ops C) (b, s) of
        (Inl e, ws) \<Rightarrow> (Inl e, buf_drop ws)
      | (Inr _, ws) \<Rightarrow>
          (case buf_flush ws of
             (Inl e, ws) \<Rightarrow> (Inl e, buf_drop ws)
           | (Inr _, (b, t)) \<Rightarrow> (Inr (crc_writer_into_parts (bw_inner b)), t)))"

definition seal_bounds :: "ActiveSegment \<Rightarrow> int \<times> int" where
  "seal_bounds a = (if min_ts a \<le> max_ts a then (min_ts a, max_ts a) else (0, 0))"

definition seal_frame :: "ActiveSegment \<Rightarrow> bytes \<Rightarrow> bytes" where
  "seal_frame a zbody =
     build_wal_frame WAL_FRAME_FLAG_ZSTD (word_of_int (fst (seal_bounds a))) (word_of_int (snd (seal_bounds a)))
       (a_owner a) zbody (crc32 zbody)"

text \<open>The non-empty case of \<^verbatim>\<open>seal\<close> up to the removal of the active copy.\<close>

definition seal_active :: "'b codec \<Rightarrow> ActiveSegment \<Rightarrow> nat io" where
  "seal_active C a =
     qm (finish_stream C (a_writer a)) (\<lambda>(body_crc, f).
     qm (sync_file f) (\<lambda>_.
     qm (std_read (active_path a)) (\<lambda>raw.
     qm (ok_or (if WAL_FRAME_HEADER_LEN \<le> length raw then Some (drop WAL_FRAME_HEADER_LEN raw) else None) ERefused) (\<lambda>raw_body.
     qm (ok_or (zstd_encode C raw_body) ECodec) (\<lambda>zbody.
     let framed = seal_frame a zbody; tmp = append_name (final_path a) ''.tmp'' in
     qm (std_create tmp) (\<lambda>i.
     qm (std_write_all i framed) (\<lambda>_.
     qm (sync_file i) (\<lambda>_.
     qm (rename tmp (final_path a)) (\<lambda>_.
     qm (ok_or (parent (final_path a)) EPath) (\<lambda>sealed_dir.
     qm (sync_dir sealed_dir) (\<lambda>_.
     qm (ignore (remove_file (active_path a))) (\<lambda>_.
     ret (length framed)))))))))))))"

definition mirror_suffix :: "string option \<Rightarrow> string \<Rightarrow> string" where
  "mirror_suffix subdir filename =
     (case subdir of
        Some d \<Rightarrow> if d \<noteq> [] then d @ ''/'' @ filename else filename
      | None \<Rightarrow> filename)"

definition seal :: "'b codec \<Rightarrow> WalSegment option wal" where
  "seal C = (\<lambda>(w, s).
     case current w of
       None \<Rightarrow> (Inr None, (w, s))
     | Some a \<Rightarrow>
         let w = w\<lparr>current := None\<rparr> in
         if a_rows a = 0 then (Inr None, (w, snd (std_remove_file (active_path a) s)))
         else
           qm (on_fs (seal_active C a)) (\<lambda>bytes.
           qm (ok_or (file_name (final_path a)) EPath) (\<lambda>filename (w, s).
             let segment = \<lparr>seg_path = final_path a, seg_rows = a_rows a, seg_bytes = bytes,
                   mirror_key_suffix = mirror_suffix (mirror_subdir w) filename\<rparr> in
             case w_mirror w of
               None \<Rightarrow> (Inr (Some segment), (w, s))
             | Some h \<Rightarrow>
                 let (h, t) = enqueue segment h s in
                 (Inr (Some segment), (w\<lparr>w_mirror := Some h\<rparr>, t)))) (w, s))"

definition fold_batch :: "'b codec \<Rightarrow> 'b \<Rightarrow> ActiveSegment \<Rightarrow> ActiveSegment" where
  "fold_batch C batch a =
     (let a = a\<lparr>a_rows := a_rows a + num_rows C batch\<rparr> in
      case batch_ts_min_max (ts_column C batch) of
        None \<Rightarrow> a
      | Some (mn, mx) \<Rightarrow> a\<lparr>min_ts := min (min_ts a) mn, max_ts := max (max_ts a) mx\<rparr>)"

definition should_seal :: "WalWriter \<times> fs \<Rightarrow> bool" where
  "should_seal = (\<lambda>(w, s).
     case current w of
       None \<Rightarrow> False
     | Some a \<Rightarrow> a_rows a \<ge> max_events w \<or> now s - started_at a \<ge> max_age w)"

definition append_batch :: "'b codec \<Rightarrow> 'b \<Rightarrow> WalSegment option wal" where
  "append_batch C batch =
     qm (gets (\<lambda>(w, s). current w = None)) (\<lambda>none.
     qm (if none then start_segment C else ret ()) (\<lambda>_.
     qm (ok_or (batch_ops C batch) ECodec) (\<lambda>ops.
     qm (on_writer (stream_ops ops)) (\<lambda>_.
     qm (on_active (fold_batch C batch)) (\<lambda>_.
     qm (on_writer buf_flush) (\<lambda>_.
     qm (gets should_seal) (\<lambda>should.
     if should then seal C else ret None)))))))"

text \<open>\<open>to_batch\<close> is \<^verbatim>\<open>events_to_record_batch\<close>, the Arrow builder.\<close>

definition append_events :: "('e list \<Rightarrow> 'b option) \<Rightarrow> 'b codec \<Rightarrow> 'e list \<Rightarrow> WalSegment option wal" where
  "append_events to_batch C events =
     (if events = [] then ret None
      else qm (ok_or (to_batch events) ECodec) (\<lambda>batch. append_batch C batch))"

definition std_metadata_len :: "path \<Rightarrow> nat io" where
  "std_metadata_len p = syscall (\<lambda>s. case read_file s p of None \<Rightarrow> (Inl ENoEnt, s) | Some bs \<Rightarrow> (Inr (length bs), s))"

definition flush_active_for_mirror :: "(path \<times> nat) option wal" where
  "flush_active_for_mirror = (\<lambda>(w, s).
     case current w of
       None \<Rightarrow> (Inr None, (w, s))
     | Some a \<Rightarrow>
         if a_rows a = 0 then (Inr None, (w, s))
         else
           qm (on_writer buf_flush) (\<lambda>_.
           qm (on_fs (std_metadata_len (active_path a))) (\<lambda>bytes.
           ret (Some (active_path a, bytes)))) (w, s))"

definition sync_active :: "bool wal" where
  "sync_active = (\<lambda>(w, s).
     case current w of
       None \<Rightarrow> (Inr False, (w, s))
     | Some a \<Rightarrow>
         if a_rows a = 0 then (Inr False, (w, s))
         else
           qm (on_writer buf_flush) (\<lambda>_.
           qm (on_fs (sync_file (cw_inner (bw_inner (a_writer a))))) (\<lambda>_.
           if \<not> dir_synced a then
             qm (ok_or (parent (active_path a)) EPath) (\<lambda>p.
             qm (on_fs (sync_dir p)) (\<lambda>_.
             qm (on_active (\<lambda>a. a\<lparr>dir_synced := True\<rparr>)) (\<lambda>_.
             ret True)))
           else ret True)) (w, s))"

definition tick :: "'b codec \<Rightarrow> WalSegment option wal" where
  "tick C = (\<lambda>(w, s).
     if (case current w of Some a \<Rightarrow> a_rows a > 0 \<and> now s - started_at a \<ge> max_age w | None \<Rightarrow> False)
     then seal C (w, s) else (Inr None, (w, s)))"

definition bind_table_uuid :: "'b codec \<Rightarrow> uuid option \<Rightarrow> WalSegment option wal" where
  "bind_table_uuid C uuid = (\<lambda>(w, s).
     if table_uuid w = uuid then (Inr None, (w, s))
     else qm (seal C) (\<lambda>sealed (w, s). (Inr sealed, (w\<lparr>table_uuid := uuid\<rparr>, s))) (w, s))"

definition set_mirror_handle :: "mirror_handle option \<Rightarrow> WalWriter \<Rightarrow> WalWriter" where
  "set_mirror_handle h w = w\<lparr>w_mirror := h\<rparr>"

definition trim_matches :: "char \<Rightarrow> string \<Rightarrow> string" where
  "trim_matches c str = rev (dropWhile (\<lambda>x. x = c) (rev (dropWhile (\<lambda>x. x = c) str)))"

definition set_mirror_subdir :: "string option \<Rightarrow> WalWriter \<Rightarrow> WalWriter" where
  "set_mirror_subdir subdir w = w\<lparr>mirror_subdir := map_option (trim_matches (CHR ''/'')) subdir\<rparr>"

definition drop_writer :: "'b codec \<Rightarrow> WalWriter \<times> fs \<Rightarrow> fs" where
  "drop_writer C ws = snd (snd (seal C ws))"

end
