(* ===== verification/MirrorKeys.thy ===== *)
theory MirrorKeys
  imports Text WalWriter
begin

text \<open>
  The key layout of the WAL mirror in \<^verbatim>\<open>crates/loglake-wal/src/mirror.rs\<close>, and the pure parts of recovery
  that read it back: routing a key to its place on a WAL root, the markers that show whether a
  listing starts at the mirror root, and the check of a listing against the segment ledger. A key is
  its UTF-8 bytes as characters; everything the code searches for in it is ASCII.
\<close>

section \<open>Keys\<close>

definition trim_start_matches :: "'a \<Rightarrow> 'a list \<Rightarrow> 'a list" where
  "trim_start_matches c s = dropWhile (\<lambda>x. x = c) s"

abbreviation slash :: char where
  "slash \<equiv> CHR ''/''"

abbreviation split_slash :: "string \<Rightarrow> string list" where
  "split_slash \<equiv> split_on (\<lambda>c. c = slash)"

definition parse_mirror_key_suffix :: "string \<Rightarrow> string \<times> string" where
  "parse_mirror_key_suffix suff =
     (case split_slash (trim_matches slash suff) of
        [tenant, _] \<Rightarrow> (tenant, '''')
      | [tenant, index, _] \<Rightarrow> (tenant, index)
      | _ \<Rightarrow> (''default'', ''''))"

definition mirror_owner_key :: "string \<Rightarrow> string \<Rightarrow> string \<Rightarrow> string" where
  "mirror_owner_key pre tenant index = trim_matches slash pre @ ''/'' @ tenant @ ''/'' @ index @ ''/owner''"

definition mirror_key :: "string \<Rightarrow> string \<Rightarrow> string" where
  "mirror_key pre suff =
     (let pre = trim_matches slash pre in
      if pre = '''' then trim_start_matches slash suff
      else pre @ ''/'' @ trim_start_matches slash suff)"

definition active_partial_key :: "string \<Rightarrow> string \<Rightarrow> string option" where
  "active_partial_key pre sealed_suffix =
     map_option (\<lambda>stem. mirror_key pre (''_active/'' @ stem @ ''.arrow.partial'')) (strip_suffix ''.arrow'' sealed_suffix)"

section \<open>Routing a key on recovery\<close>

record RecoveryTarget =
  rt_tenant :: string
  rt_index :: "string option"
  rt_rel :: path
  rt_discovery :: "path option"
  rt_stem :: string
  rt_partial :: bool

definition segment_stem :: "string \<Rightarrow> string option" where
  "segment_stem filename =
     (case strip_suffix ''.arrow.partial'' filename of
        Some stem \<Rightarrow> Some stem
      | None \<Rightarrow> strip_suffix ''.arrow'' filename)"

definition recovery_dirs :: "string list \<Rightarrow> (string \<times> string option) option" where
  "recovery_dirs dirs =
     (case dirs of
        [] \<Rightarrow> Some (''default'', None)
      | [tenant] \<Rightarrow> Some (tenant, None)
      | [tenant, index] \<Rightarrow> Some (tenant, Some index)
      | _ \<Rightarrow> None)"

definition recovery_target :: "string \<Rightarrow> RecoveryTarget option" where
  "recovery_target suff =
     (let suff = trim_matches slash suff in
      if suff = '''' then None
      else
        let (partial, body) = (case strip_prefix ''_active/'' suff of
                Some rest \<Rightarrow> (True, rest)
              | None \<Rightarrow> (False, suff));
            parts = filter (\<lambda>p. p \<noteq> '''') (split_slash body) in
        if parts = [] then None
        else
          Option.bind (segment_stem (last parts)) (\<lambda>stem.
          Option.bind (recovery_dirs (butlast parts)) (\<lambda>(tenant, index).
            Some \<lparr>rt_tenant = tenant, rt_index = index,
                  rt_rel = [tenant] @ (case index of None \<Rightarrow> [] | Some i \<Rightarrow> [i]) @ [SEALED_DIR, stem @ ''.arrow''],
                  rt_discovery = map_option (\<lambda>_. [tenant, SEALED_DIR]) index,
                  rt_stem = stem, rt_partial = partial\<rparr>)))"

section \<open>Evidence for the mirror root\<close>

datatype RootEvidence = AtRoot | OneDeeper string

definition root_evidence :: "string \<Rightarrow> RootEvidence option" where
  "root_evidence suff =
     (let parts = filter (\<lambda>p. p \<noteq> '''') (split_slash (trim_matches slash suff)) in
      if parts = [] then None
      else if strip_suffix ''.arrow.partial'' (last parts) \<noteq> None then
        (if parts ! 0 = ''_active'' \<and> length parts \<ge> 2 then Some AtRoot
         else if length parts \<ge> 3 \<and> parts ! 1 = ''_active'' then Some (OneDeeper (parts ! 0))
         else None)
      else if last parts = OWNER_FILE then
        (if length parts = 3 then Some AtRoot
         else if length parts = 4 then Some (OneDeeper (parts ! 0))
         else None)
      else None)"

section \<open>The ledger check\<close>

record LedgerRoute =
  lr_tenant :: string
  lr_index_id :: string

record LedgerRow =
  row_tenant :: string
  row_index_id :: string
  segment_url :: string

record ListedSegment =
  ls_key :: string
  ls_id :: string
  ls_route :: "LedgerRoute option"

datatype LedgerConflict = Routing | UrlTail | KeyCarriesPrefix | PrefixSplit string string

record LedgerDisagreement =
  ld_key :: string
  ld_inferred :: "LedgerRoute option"
  ld_ledger :: LedgerRow
  ld_conflict :: LedgerConflict

datatype LedgerVerdict =
    Confirmed (v_matched: nat) (v_uncertified: nat) (v_sample_uncertified: "string option") (v_prefix: string) (v_evidence: string)
  | Contradicted (v_disagreements: "LedgerDisagreement list") (v_agreed: nat) (v_uncertified: nat) (v_directory: "string option")
  | Silent (v_listed: nat)
  | Unavailable (v_reason: string)

fun refuses :: "LedgerVerdict \<Rightarrow> bool" where
  "refuses (Contradicted _ _ _ _) = True"
| "refuses (Unavailable _) = True"
| "refuses _ = False"

definition sealed_form :: "string \<Rightarrow> string" where
  "sealed_form key =
     (let body = trim_matches slash key;
          body = (case strip_prefix ''_active/'' body of Some b \<Rightarrow> b | None \<Rightarrow> body) in
      case strip_suffix ''.partial'' body of Some b \<Rightarrow> b | None \<Rightarrow> body)"

definition segment_id :: "string \<Rightarrow> string option" where
  "segment_id key = segment_stem (last (split_slash (trim_matches slash key)))"

definition prefix_above :: "string \<Rightarrow> string \<Rightarrow> string option" where
  "prefix_above url key =
     (let url = trim_matches slash url;
          key = sealed_form key in
      if url = key then Some ''''
      else Option.bind (strip_suffix key url) (\<lambda>u.
           Option.bind (strip_suffix ''/'' u) (\<lambda>u. Some (trim_matches slash u))))"

definition directory_to_pass :: "LedgerDisagreement list \<Rightarrow> string option" where
  "directory_to_pass disagreements =
     (case List.find (\<lambda>d. length (split_slash (trim_matches slash (ld_key d))) > 1) disagreements of
        None \<Rightarrow> None
      | Some d \<Rightarrow>
          let dir = split_slash (trim_matches slash (ld_key d)) ! 0 in
          if dir = '''' then None else Some dir)"

text \<open>What a row says against its key: the routing first, then the tail of the url, then a key that
  carries the whole url.\<close>

definition row_conflict :: "ListedSegment \<Rightarrow> LedgerRow \<Rightarrow> LedgerConflict option" where
  "row_conflict item row =
     (let pre = prefix_above (segment_url row) (ls_key item);
          route_disagrees = (case ls_route item of None \<Rightarrow> False
            | Some r \<Rightarrow> lr_tenant r \<noteq> row_tenant row \<or> lr_index_id r \<noteq> row_index_id row) in
      if route_disagrees then Some Routing
      else if pre = None then Some UrlTail
      else if pre = Some '''' then Some KeyCarriesPrefix
      else None)"

record ledger_scan =
  sc_disagreements :: "LedgerDisagreement list"
  sc_agreed :: "(string \<times> string) list"
  sc_uncertified :: nat
  sc_sample :: "string option"

definition scan_item :: "(string \<rightharpoonup> LedgerRow) \<Rightarrow> ListedSegment \<Rightarrow> ledger_scan \<Rightarrow> ledger_scan" where
  "scan_item rows item sc =
     (case rows (ls_id item) of
        None \<Rightarrow> sc\<lparr>sc_uncertified := sc_uncertified sc + 1,
                   sc_sample := (case sc_sample sc of None \<Rightarrow> Some (ls_key item) | Some k \<Rightarrow> Some k)\<rparr>
      | Some row \<Rightarrow>
          (case row_conflict item row of
             Some conflict \<Rightarrow>
               sc\<lparr>sc_disagreements := sc_disagreements sc @
                  [\<lparr>ld_key = ls_key item, ld_inferred = ls_route item, ld_ledger = row, ld_conflict = conflict\<rparr>]\<rparr>
           | None \<Rightarrow>
               sc\<lparr>sc_agreed := sc_agreed sc @ [(ls_key item, the (prefix_above (segment_url row) (ls_key item)))]\<rparr>))"

definition ledger_verdict :: "ListedSegment list \<Rightarrow> (string \<rightharpoonup> LedgerRow) \<Rightarrow> LedgerVerdict" where
  "ledger_verdict listed rows =
     (let sc = fold (scan_item rows) listed
                 \<lparr>sc_disagreements = [], sc_agreed = [], sc_uncertified = 0, sc_sample = None\<rparr> in
      if sc_disagreements sc \<noteq> [] then
        Contradicted (sc_disagreements sc) (length (sc_agreed sc)) (sc_uncertified sc) (directory_to_pass (sc_disagreements sc))
      else
        (case sc_agreed sc of
           [] \<Rightarrow> Silent (length listed)
         | (first_key, first_prefix) # _ \<Rightarrow>
             (case List.find (\<lambda>(_, p). p \<noteq> first_prefix) (sc_agreed sc) of
                Some (key, found) \<Rightarrow>
                  let row = (case rows (case segment_id key of None \<Rightarrow> '''' | Some i \<Rightarrow> i) of
                        Some row \<Rightarrow> row
                      | None \<Rightarrow> \<lparr>row_tenant = '''', row_index_id = '''', segment_url = found\<rparr>) in
                  Contradicted [\<lparr>ld_key = key, ld_inferred = None, ld_ledger = row,
                                 ld_conflict = PrefixSplit first_prefix found\<rparr>]
                    (length (sc_agreed sc)) (sc_uncertified sc) None
              | None \<Rightarrow>
                  Confirmed (length (sc_agreed sc)) (sc_uncertified sc) (sc_sample sc) first_prefix first_key)))"

section \<open>Layout facts\<close>

text \<open>A component of a key: not empty and without a slash.\<close>

definition component :: "string \<Rightarrow> bool" where
  "component s \<longleftrightarrow> s \<noteq> '''' \<and> slash \<notin> set s"

lemma split_slash_append: "slash \<notin> set a \<Longrightarrow> split_slash (a @ slash # s) = a # split_slash s"
  by (induction a) auto

lemma split_slash_id: "slash \<notin> set a \<Longrightarrow> split_slash a = [a]"
  by (rule split_on_id) auto

lemma strip_suffix_append [simp]: "strip_suffix s (p @ s) = Some p"
  by (simp add: strip_suffix_def)

lemma strip_suffix_Some: "strip_suffix s x = Some p \<longleftrightarrow> x = p @ s"
  by (auto simp: strip_suffix_def) (metis append_take_drop_id)

lemma strip_prefix_Some: "strip_prefix s x = Some p \<longleftrightarrow> x = s @ p"
  by (auto simp: strip_prefix_def) (metis append_take_drop_id)

lemma trim_matches_id: "s \<noteq> [] \<Longrightarrow> hd s \<noteq> c \<Longrightarrow> last s \<noteq> c \<Longrightarrow> trim_matches c s = s"
proof -
  have "dropWhile (\<lambda>x. x = c) t = t" if "t \<noteq> []" "hd t \<noteq> c" for t using that by (cases t) auto
  moreover assume "s \<noteq> []" "hd s \<noteq> c" "last s \<noteq> c"
  ultimately show ?thesis by (simp add: trim_matches_def hd_rev)
qed

lemma component_hd: "component s \<Longrightarrow> s \<noteq> [] \<and> hd s \<noteq> slash"
  by (cases s) (auto simp: component_def)

lemma segment_stem_arrow [simp]: "segment_stem (stem @ ''.arrow'') = Some stem"
proof -
  have "strip_suffix ''.arrow.partial'' (stem @ ''.arrow'') = None"
  proof (rule ccontr)
    assume "strip_suffix ''.arrow.partial'' (stem @ ''.arrow'') \<noteq> None"
    then obtain p where "stem @ ''.arrow'' = p @ ''.arrow.partial''" by (auto simp: strip_suffix_Some)
    then have "last (stem @ ''.arrow'') = last (p @ ''.arrow.partial'')" by simp
    then show False by simp
  qed
  then show ?thesis by (simp add: segment_stem_def strip_suffix_append [of "''.arrow''" stem, simplified])
qed

lemma segment_stem_partial [simp]: "segment_stem (stem @ ''.arrow.partial'') = Some stem"
  using strip_suffix_append [of "''.arrow.partial''" stem] by (simp only: segment_stem_def option.case)

text \<open>The suffix the writer gives a segment of a tenant or of one of its indexes, and the suffix of the
  segment's active sibling.\<close>

definition writer_subdir :: "string \<Rightarrow> string option \<Rightarrow> string" where
  "writer_subdir tenant index = (case index of None \<Rightarrow> tenant | Some i \<Rightarrow> tenant @ ''/'' @ i)"

definition layout_ok :: "string \<Rightarrow> string option \<Rightarrow> string \<Rightarrow> bool" where
  "layout_ok tenant index stem \<longleftrightarrow> component tenant \<and> tenant \<noteq> ''_active'' \<and> slash \<notin> set stem \<and>
     (case index of None \<Rightarrow> True | Some i \<Rightarrow> component i)"

definition layout_dirs :: "string \<Rightarrow> string option \<Rightarrow> string" where
  "layout_dirs tenant index = tenant @ slash # (case index of None \<Rightarrow> [] | Some i \<Rightarrow> i @ [slash])"

abbreviation index_part :: "string option \<Rightarrow> string list" where
  "index_part index \<equiv> (case index of None \<Rightarrow> [] | Some i \<Rightarrow> [i])"

lemma writer_suffix:
  "layout_ok tenant index stem \<Longrightarrow> mirror_suffix (Some (writer_subdir tenant index)) filename = layout_dirs tenant index @ filename"
  by (auto simp: mirror_suffix_def writer_subdir_def layout_dirs_def layout_ok_def component_def split: option.splits)

lemma split_layout:
  assumes "layout_ok tenant index stem" and "slash \<notin> set tail"
  shows "split_slash (layout_dirs tenant index @ stem @ tail) = tenant # index_part index @ [stem @ tail]"
  using assms by (auto simp: layout_ok_def layout_dirs_def component_def split_slash_append split_slash_id split: option.splits)

lemma trim_layout:
  assumes "layout_ok tenant index stem" and "tail \<noteq> []" and "last tail \<noteq> slash"
  shows "trim_matches slash (layout_dirs tenant index @ stem @ tail) = layout_dirs tenant index @ stem @ tail"
  by (rule trim_matches_id) (use assms component_hd [of tenant] in \<open>auto simp: layout_ok_def layout_dirs_def\<close>)

lemma strip_active_layout:
  assumes "layout_ok tenant index stem"
  shows "strip_prefix ''_active/'' (layout_dirs tenant index @ x) = None"
proof (rule ccontr)
  assume "strip_prefix ''_active/'' (layout_dirs tenant index @ x) \<noteq> None"
  then obtain p where p: "layout_dirs tenant index @ x = ''_active/'' @ p" unfolding not_None_eq strip_prefix_Some by blast
  define y where "y = (case index of None \<Rightarrow> [] | Some i \<Rightarrow> i @ [slash]) @ x"
  have "tenant @ slash # y = ''_active'' @ slash # p" using p by (simp add: layout_dirs_def y_def)
  then have "split_slash (tenant @ slash # y) = split_slash (''_active'' @ slash # p)" by (rule arg_cong)
  moreover have "split_slash (tenant @ slash # y) = tenant # split_slash y"
    by (rule split_slash_append) (use assms in \<open>simp add: layout_ok_def component_def\<close>)
  moreover have "split_slash (''_active'' @ slash # p) = ''_active'' # split_slash p"
    by (rule split_slash_append) simp
  ultimately show False using assms by (simp add: layout_ok_def)
qed

lemma layout_parts:
  assumes "layout_ok tenant index stem" and "tail \<noteq> []" and "slash \<notin> set tail"
  shows "filter (\<lambda>p. p \<noteq> []) (split_slash (layout_dirs tenant index @ stem @ tail)) = tenant # index_part index @ [stem @ tail]"
  using assms(1,2) unfolding split_layout [OF assms(1,3)] by (auto simp: layout_ok_def component_def split: option.splits)

lemma layout_recovery_dirs [simp]: "recovery_dirs (tenant # index_part index) = Some (tenant, index)"
  by (auto simp: recovery_dirs_def split: option.splits)

definition home :: "string \<Rightarrow> string option \<Rightarrow> string \<Rightarrow> bool \<Rightarrow> RecoveryTarget" where
  "home tenant index stem partial =
     \<lparr>rt_tenant = tenant, rt_index = index, rt_rel = [tenant] @ index_part index @ [SEALED_DIR, stem @ ''.arrow''],
      rt_discovery = map_option (\<lambda>_. [tenant, SEALED_DIR]) index, rt_stem = stem, rt_partial = partial\<rparr>"

text \<open>The steps of \<^const>\<open>recovery_target\<close> as one rule.\<close>

lemma recovery_target_eq:
  assumes "trim_matches slash s = s" and "s \<noteq> []"
    and "(case strip_prefix ''_active/'' s of Some rest \<Rightarrow> (True, rest) | None \<Rightarrow> (False, s)) = (partial, body)"
    and "filter (\<lambda>p. p \<noteq> []) (split_slash body) = tenant # index_part index @ [filename]"
    and "segment_stem filename = Some stem"
  shows "recovery_target s = Some (home tenant index stem partial)"
proof -
  have "last (tenant # index_part index @ [filename]) = filename" "butlast (tenant # index_part index @ [filename]) = tenant # index_part index"
    by (simp_all add: butlast_append)
  then show ?thesis
    unfolding recovery_target_def Let_def assms(1) assms(3) prod.case assms(4) using assms(2,5) by (simp add: home_def)
qed

lemma recovery_target_sealed:
  assumes ok: "layout_ok tenant index stem"
  shows "recovery_target (layout_dirs tenant index @ stem @ ''.arrow'') = Some (home tenant index stem False)"
  by (rule recovery_target_eq [OF trim_layout [OF ok] _ _ layout_parts [OF ok] segment_stem_arrow])
     (simp_all add: strip_active_layout [OF ok])

lemma recovery_target_active:
  assumes ok: "layout_ok tenant index stem"
  shows "recovery_target (''_active/'' @ layout_dirs tenant index @ stem @ ''.arrow.partial'') = Some (home tenant index stem True)"
proof (rule recovery_target_eq)
  let ?b = "layout_dirs tenant index @ stem @ ''.arrow.partial''"
  show "trim_matches slash (''_active/'' @ ?b) = ''_active/'' @ ?b" by (rule trim_matches_id) simp_all
  show "(case strip_prefix ''_active/'' (''_active/'' @ ?b) of Some rest \<Rightarrow> (True, rest) | None \<Rightarrow> (False, ''_active/'' @ ?b)) = (True, ?b)"
    unfolding strip_prefix_append by simp
  show "filter (\<lambda>p. p \<noteq> []) (split_slash ?b) = tenant # index_part index @ [stem @ ''.arrow.partial'']"
    by (rule layout_parts [OF ok]) simp_all
qed simp_all

lemma sealed_form_layout:
  assumes ok: "layout_ok tenant index stem"
  shows "sealed_form (layout_dirs tenant index @ stem @ ''.arrow'') = layout_dirs tenant index @ stem @ ''.arrow''"
    and "sealed_form (''_active/'' @ layout_dirs tenant index @ stem @ ''.arrow.partial'') = layout_dirs tenant index @ stem @ ''.arrow''"
proof -
  let ?s = "layout_dirs tenant index @ stem @ ''.arrow''" and ?b = "layout_dirs tenant index @ stem @ ''.arrow.partial''"
  have t: "trim_matches slash ?s = ?s" by (rule trim_layout [OF ok]) simp_all
  have n: "strip_suffix ''.partial'' ?s = None"
  proof (rule ccontr)
    assume "strip_suffix ''.partial'' ?s \<noteq> None"
    then obtain p where "?s = p @ ''.partial''" unfolding not_None_eq strip_suffix_Some by blast
    then have "last ?s = last (p @ ''.partial'')" by (rule arg_cong)
    then show False by simp
  qed
  show "sealed_form ?s = ?s"
    unfolding sealed_form_def Let_def t strip_active_layout [OF ok] option.case n by (rule refl)
  have a: "trim_matches slash (''_active/'' @ ?b) = ''_active/'' @ ?b" by (rule trim_matches_id) simp_all
  have "?b = ?s @ ''.partial''" by simp
  then have "strip_suffix ''.partial'' ?b = Some ?s" using strip_suffix_Some by blast
  then show "sealed_form (''_active/'' @ ?b) = ?s"
    unfolding sealed_form_def Let_def a strip_prefix_append option.case by simp
qed

lemma active_key_layout:
  "active_partial_key pre (layout_dirs tenant index @ stem @ ''.arrow'') =
     Some (mirror_key pre (''_active/'' @ layout_dirs tenant index @ stem @ ''.arrow.partial''))"
proof -
  have "strip_suffix ''.arrow'' (layout_dirs tenant index @ stem @ ''.arrow'') = Some (layout_dirs tenant index @ stem)"
    unfolding strip_suffix_Some by simp
  then show ?thesis by (simp add: active_partial_key_def)
qed



section \<open>What a confirmed ledger means\<close>

definition agreed_of :: "(string \<rightharpoonup> LedgerRow) \<Rightarrow> ListedSegment \<Rightarrow> (string \<times> string) list" where
  "agreed_of rows item = (case rows (ls_id item) of None \<Rightarrow> [] | Some row \<Rightarrow>
     (case row_conflict item row of None \<Rightarrow> [(ls_key item, the (prefix_above (segment_url row) (ls_key item)))] | Some c \<Rightarrow> []))"

definition disagreement_of :: "(string \<rightharpoonup> LedgerRow) \<Rightarrow> ListedSegment \<Rightarrow> LedgerDisagreement list" where
  "disagreement_of rows item = (case rows (ls_id item) of None \<Rightarrow> [] | Some row \<Rightarrow>
     (case row_conflict item row of None \<Rightarrow> [] | Some c \<Rightarrow>
        [\<lparr>ld_key = ls_key item, ld_inferred = ls_route item, ld_ledger = row, ld_conflict = c\<rparr>]))"

lemma scan_agreed: "sc_agreed (fold (scan_item rows) listed sc) = sc_agreed sc @ concat (map (agreed_of rows) listed)"
  by (induction listed arbitrary: sc) (simp_all add: scan_item_def agreed_of_def split: option.splits)

lemma scan_disagreements:
  "sc_disagreements (fold (scan_item rows) listed sc) = sc_disagreements sc @ concat (map (disagreement_of rows) listed)"
  by (induction listed arbitrary: sc) (simp_all add: scan_item_def disagreement_of_def split: option.splits)

lemma scan_uncertified:
  "sc_uncertified (fold (scan_item rows) listed sc) = sc_uncertified sc + length (filter (\<lambda>item. rows (ls_id item) = None) listed)"
  by (induction listed arbitrary: sc) (simp_all add: scan_item_def split: option.splits)

lemma scan_counts:
  "concat (map (disagreement_of rows) listed) = [] \<Longrightarrow>
    length (concat (map (agreed_of rows) listed)) + length (filter (\<lambda>item. rows (ls_id item) = None) listed) = length listed"
  by (induction listed) (auto simp: agreed_of_def disagreement_of_def split: option.splits)

text \<open>A listed segment agrees with its row about the mirror prefix: the key routes as the row does, and
  the row's url is the prefix, a slash and the sealed key.\<close>

definition agrees :: "string \<Rightarrow> ListedSegment \<Rightarrow> LedgerRow \<Rightarrow> bool" where
  "agrees pre item row \<longleftrightarrow>
     (\<forall>r. ls_route item = Some r \<longrightarrow> lr_tenant r = row_tenant row \<and> lr_index_id r = row_index_id row) \<and>
     pre \<noteq> [] \<and> prefix_above (segment_url row) (ls_key item) = Some pre"

lemma row_conflict_None:
  "row_conflict item row = None \<longleftrightarrow> (\<exists>pre. agrees pre item row)"
  by (auto simp: row_conflict_def agrees_def Let_def split: option.splits if_splits)

lemma no_disagreement:
  "concat (map (disagreement_of rows) listed) = [] \<longleftrightarrow>
     (\<forall>item row. item \<in> set listed \<longrightarrow> rows (ls_id item) = Some row \<longrightarrow> (\<exists>pre. agrees pre item row))"
proof -
  have "disagreement_of rows item = [] \<longleftrightarrow> (\<forall>row. rows (ls_id item) = Some row \<longrightarrow> row_conflict item row = None)" for item
    by (auto simp: disagreement_of_def split: option.splits)
  then show ?thesis unfolding concat_eq_Nil_conv row_conflict_None [symmetric] by auto
qed

lemma agreed_pairs:
  "(\<exists>key. (key, pre) \<in> set (concat (map (agreed_of rows) listed))) \<longleftrightarrow>
     (\<exists>item row. item \<in> set listed \<and> rows (ls_id item) = Some row \<and> agrees pre item row)"
proof -
  have "(\<exists>key. (key, pre) \<in> set (agreed_of rows item)) \<longleftrightarrow> (\<exists>row. rows (ls_id item) = Some row \<and> agrees pre item row)" for item
  proof (cases "rows (ls_id item)")
    case (Some row)
    show ?thesis
    proof (cases "row_conflict item row")
      case None
      then obtain q where "agrees q item row" using row_conflict_None by blast
      then show ?thesis using Some None by (auto simp: agreed_of_def agrees_def)
    next
      case (Some c)
      then have "\<not> agrees pre item row" using row_conflict_None [of item row] by auto
      then show ?thesis using Some \<open>rows (ls_id item) = Some row\<close> by (simp add: agreed_of_def)
    qed
  qed (simp add: agreed_of_def)
  then show ?thesis unfolding set_concat set_map by blast
qed

lemma agrees_unique: "agrees p item row \<Longrightarrow> agrees q item row \<Longrightarrow> p = q"
  by (simp add: agrees_def)

text \<open>The three outcomes of the check, by what the scan found.\<close>

lemma ledger_verdict_cases:
  fixes rows listed
  defines "ds \<equiv> concat (map (disagreement_of rows) listed)" and "ag \<equiv> concat (map (agreed_of rows) listed)"
  shows "ds \<noteq> [] \<Longrightarrow> refuses (ledger_verdict listed rows)"
    and "ds = [] \<Longrightarrow> ag = [] \<Longrightarrow> ledger_verdict listed rows = Silent (length listed)"
    and "ds = [] \<Longrightarrow> ag = (k, p) # r \<Longrightarrow> x \<in> set ag \<Longrightarrow> snd x \<noteq> p \<Longrightarrow> refuses (ledger_verdict listed rows)"
    and "ds = [] \<Longrightarrow> ag = (k, p) # r \<Longrightarrow> \<forall>x \<in> set ag. snd x = p \<Longrightarrow>
      \<exists>smp. ledger_verdict listed rows = Confirmed (length ag) (length (filter (\<lambda>item. rows (ls_id item) = None) listed)) smp p k"
proof -
  let ?sc = "fold (scan_item rows) listed \<lparr>sc_disagreements = [], sc_agreed = [], sc_uncertified = 0, sc_sample = None\<rparr>"
  have sc: "sc_disagreements ?sc = ds" "sc_agreed ?sc = ag"
      "sc_uncertified ?sc = length (filter (\<lambda>item. rows (ls_id item) = None) listed)"
    by (simp_all add: scan_disagreements scan_agreed scan_uncertified ds_def ag_def)
  note v = ledger_verdict_def [of listed rows, unfolded Let_def sc]
  show "refuses (ledger_verdict listed rows)" if "ds \<noteq> []" using that by (simp add: v)
  show "ledger_verdict listed rows = Silent (length listed)" if "ds = []" "ag = []" using that by (simp add: v)
  show "refuses (ledger_verdict listed rows)" if "ds = []" "ag = (k, p) # r" "x \<in> set ag" "snd x \<noteq> p"
  proof -
    have "List.find (\<lambda>(_, q). q \<noteq> p) ag \<noteq> None"
    proof
      assume "List.find (\<lambda>(_, q). q \<noteq> p) ag = None"
      then show False using that(3,4) unfolding find_None_iff case_prod_beta by blast
    qed
    then obtain key found where "List.find (\<lambda>(_, q). q \<noteq> p) ag = Some (key, found)" by fastforce
    then show ?thesis using that(1,2) by (simp add: v)
  qed
  show "\<exists>smp. ledger_verdict listed rows = Confirmed (length ag) (length (filter (\<lambda>item. rows (ls_id item) = None) listed)) smp p k"
    if "ds = []" "ag = (k, p) # r" "\<forall>x \<in> set ag. snd x = p"
  proof -
    have "List.find (\<lambda>(_, q). q \<noteq> p) ag = None" using that(3) by (auto simp: find_None_iff)
    then show ?thesis using that(1,2) by (simp add: v)
  qed
qed

text \<open>A listed segment together with its row.\<close>

definition matched :: "ListedSegment list \<Rightarrow> (string \<rightharpoonup> LedgerRow) \<Rightarrow> ListedSegment \<times> LedgerRow \<Rightarrow> bool" where
  "matched listed rows = (\<lambda>(item, row). item \<in> set listed \<and> rows (ls_id item) = Some row)"

definition agree_on :: "ListedSegment list \<Rightarrow> (string \<rightharpoonup> LedgerRow) \<Rightarrow> string \<Rightarrow> bool" where
  "agree_on listed rows pre \<longleftrightarrow> (\<forall>x. matched listed rows x \<longrightarrow> agrees pre (fst x) (snd x))"

lemma agree_onI: "(\<And>item row. item \<in> set listed \<Longrightarrow> rows (ls_id item) = Some row \<Longrightarrow> agrees pre item row) \<Longrightarrow> agree_on listed rows pre"
  by (auto simp: agree_on_def matched_def)

lemma agree_onD: "agree_on listed rows pre \<Longrightarrow> matched listed rows (item, row) \<Longrightarrow> agrees pre item row"
  by (auto simp: agree_on_def)

text \<open>The verdict, by whether any segment has a row and whether those that have one agree.\<close>

lemma ledger_verdict_by_agreement:
  shows "\<not> Ex (matched listed rows) \<Longrightarrow> ledger_verdict listed rows = Silent (length listed)"
    and "matched listed rows x \<Longrightarrow> agree_on listed rows p \<Longrightarrow>
      \<exists>m u smp k. ledger_verdict listed rows = Confirmed m u smp p k \<and> 0 < m \<and> m + u = length listed"
    and "matched listed rows x \<Longrightarrow> \<forall>p. \<not> agree_on listed rows p \<Longrightarrow> refuses (ledger_verdict listed rows)"
proof -
  define ds ag where "ds = concat (map (disagreement_of rows) listed)" and "ag = concat (map (agreed_of rows) listed)"
  note c = ledger_verdict_cases [of rows listed, folded ds_def ag_def] and cnt = scan_counts [of rows listed, folded ds_def ag_def]
    and nd = no_disagreement [of rows listed, folded ds_def] and pairs = agreed_pairs [of _ rows listed, folded ag_def]
  show "ledger_verdict listed rows = Silent (length listed)" if none: "\<not> Ex (matched listed rows)"
  proof (rule c(2))
    show "ds = []" unfolding nd using none by (auto simp: matched_def)
    show "ag = []"
    proof (rule ccontr)
      assume "ag \<noteq> []"
      then have "(fst (hd ag), snd (hd ag)) \<in> set ag" by simp
      then obtain item row where "item \<in> set listed" "rows (ls_id item) = Some row" using pairs by blast
      then show False using none by (auto simp: matched_def)
    qed
  qed
  have shape: "ds = [] \<and> (\<exists>k r. ag = (k, p) # r) \<and> (\<forall>y \<in> set ag. snd y = p)"
    if x: "matched listed rows x" and p: "agree_on listed rows p" for p
  proof (intro conjI ballI)
    show "ds = []" unfolding nd using agree_onD [OF p] by (auto simp: matched_def)
    show same: "snd y = p" if "y \<in> set ag" for y
    proof -
      have "(fst y, snd y) \<in> set ag" using that by simp
      then obtain item row where i: "item \<in> set listed" "rows (ls_id item) = Some row" "agrees (snd y) item row" using pairs by blast
      then show ?thesis using agree_onD [OF p, of item row] by (simp add: matched_def agrees_def)
    qed
    obtain item row where i: "item \<in> set listed" "rows (ls_id item) = Some row" using x by (auto simp: matched_def)
    then have "agrees p item row" using agree_onD [OF p] by (simp add: matched_def)
    then have "\<exists>key. (key, p) \<in> set ag" using pairs i by blast
    then have ne: "ag \<noteq> []" by auto
    then have "ag = (fst (hd ag), p) # tl ag" using same [OF hd_in_set [OF ne]] by (simp add: prod_eq_iff list.expand)
    then show "\<exists>k r. ag = (k, p) # r" by blast
  qed
  show "\<exists>m u smp k. ledger_verdict listed rows = Confirmed m u smp p k \<and> 0 < m \<and> m + u = length listed"
    if x: "matched listed rows x" and p: "agree_on listed rows p"
  proof -
    obtain k r where s: "ds = []" "ag = (k, p) # r" "\<forall>y \<in> set ag. snd y = p" using shape [OF x p] by blast
    moreover have "0 < length ag" using s(2) by simp
    ultimately show ?thesis using c(4) [OF s] cnt [OF s(1)] by blast
  qed
  show "refuses (ledger_verdict listed rows)" if x: "matched listed rows x" and no: "\<forall>p. \<not> agree_on listed rows p"
  proof (cases "ds = []")
    case True
    obtain item row where i: "item \<in> set listed" "rows (ls_id item) = Some row" using x by (auto simp: matched_def)
    then obtain q where "agrees q item row" using nd True by blast
    then have "\<exists>key. (key, q) \<in> set ag" using pairs i by blast
    then obtain k p r where ag: "ag = (k, p) # r" by (cases ag) auto
    have "\<not> agree_on listed rows p" using no by simp
    then obtain j b where j: "j \<in> set listed" "rows (ls_id j) = Some b" "\<not> agrees p j b" by (auto simp: agree_on_def matched_def)
    then obtain q' where q': "agrees q' j b" using nd True by blast
    then obtain key where "(key, q') \<in> set ag" using pairs j(1,2) by blast
    moreover have "q' \<noteq> p" using q' j(3) by blast
    ultimately show ?thesis using c(3) [OF True ag, of "(key, q')"] by simp
  qed (rule c(1))
qed

text \<open>C34. The ledger check confirms a mirror prefix exactly when some listed segment has a row and every
  listed segment that has one agrees with it about that prefix, and then it accounts for every
  listed segment as matched or uncertified. It refuses exactly when some segment has a row and there
  is no prefix they all agree on, and is silent otherwise.\<close>

theorem ledger_verdict_exact:
  "((\<exists>m u smp e. ledger_verdict listed rows = Confirmed m u smp pre e \<and> 0 < m \<and> m + u = length listed) \<longleftrightarrow>
      Ex (matched listed rows) \<and> agree_on listed rows pre) \<and>
   (refuses (ledger_verdict listed rows) \<longleftrightarrow> Ex (matched listed rows) \<and> (\<forall>p. \<not> agree_on listed rows p)) \<and>
   (ledger_verdict listed rows = Silent (length listed) \<longleftrightarrow> \<not> Ex (matched listed rows))"
proof (cases "Ex (matched listed rows)")
  case False
  then show ?thesis using ledger_verdict_by_agreement(1) [OF False] by simp
next
  case True
  then obtain x where x: "matched listed rows x" by blast
  show ?thesis
  proof (cases "\<exists>p. agree_on listed rows p")
    case True
    then obtain p where p: "agree_on listed rows p" by blast
    have eq: "agree_on listed rows pre \<longleftrightarrow> pre = p"
      using p x agree_onD [OF p] agree_onD [of listed rows pre] agrees_unique by (cases x) blast
    obtain m u smp k where v: "ledger_verdict listed rows = Confirmed m u smp p k" "0 < m" "m + u = length listed"
      using ledger_verdict_by_agreement(2) [OF x p] by blast
    show ?thesis unfolding v(1) eq using v(2,3) p \<open>Ex (matched listed rows)\<close> by (simp del: split_paired_Ex) blast
  next
    case False
    then have "refuses (ledger_verdict listed rows)" using ledger_verdict_by_agreement(3) [OF x] by blast
    then show ?thesis using False \<open>Ex (matched listed rows)\<close>
      by (cases "ledger_verdict listed rows") (auto simp del: split_paired_Ex)
  qed
qed

theorem ledger_verdict_exact_witness:
  "\<exists>smp e. ledger_verdict [\<lparr>ls_key = ''acme/7.arrow'', ls_id = ''7'', ls_route = None\<rparr>]
     [''7'' \<mapsto> \<lparr>row_tenant = ''acme'', row_index_id = [], segment_url = ''wal/acme/7.arrow''\<rparr>] = Confirmed 1 0 smp ''wal'' e"
proof -
  define item where "item = \<lparr>ls_key = ''acme/7.arrow'', ls_id = ''7'', ls_route = None\<rparr>"
  define row where "row = \<lparr>row_tenant = ''acme'', row_index_id = [], segment_url = ''wal/acme/7.arrow''\<rparr>"
  have "prefix_above ''wal/acme/7.arrow'' ''acme/7.arrow'' = Some ''wal''" by code_simp
  then have a: "agrees ''wal'' item row" by (simp add: agrees_def item_def row_def)
  have l: "[''7'' \<mapsto> row] (ls_id item) = Some row" by (simp add: item_def)
  then have "agree_on [item] [''7'' \<mapsto> row] ''wal''" "matched [item] [''7'' \<mapsto> row] (item, row)"
    using a by (auto intro!: agree_onI simp: matched_def)
  then obtain m u smp e where v: "ledger_verdict [item] [''7'' \<mapsto> row] = Confirmed m u smp ''wal'' e" "0 < m \<and> m + u = length [item]"
    using ledger_verdict_exact [of "[item]" "[''7'' \<mapsto> row]" "''wal''"] by blast
  then have "m = 1" "u = 0" by auto
  then show ?thesis using v(1) unfolding item_def row_def by blast
qed

end
