(* ===== verification/MirrorUpload.thy ===== *)
theory MirrorUpload
  imports MirrorKeys
begin

text \<open>
  The object-store side of the WAL mirror in \<^verbatim>\<open>crates/loglake-wal/src/mirror.rs\<close>: the upload worker
  with its retries, the announcement to the registrar, the removal of the pin, and the catch-up sweep.
  The store is an argument, a record of the operator's calls over a state of its own; what the code
  relies on is \<open>store_laws\<close>. Waiting between attempts and the metrics are left out.
\<close>

section \<open>The object store\<close>

datatype op_error = OpNotFound | OpOther

record op_meta =
  m_is_file :: bool
  m_content_length :: nat

record 's operator =
  op_write :: "string \<Rightarrow> bytes \<Rightarrow> 's \<Rightarrow> (op_error + unit) \<times> 's"
  op_stat :: "string \<Rightarrow> 's \<Rightarrow> (op_error + op_meta) \<times> 's"
  op_delete :: "string \<Rightarrow> 's \<Rightarrow> (op_error + unit) \<times> 's"

text \<open>What the documentation of the store promises, over the objects \<open>obj\<close> it holds: a write that
  reports success has stored the bytes, one that reports an error has stored all of them or nothing;
  a stat that answers describes the object; a delete that reports an error may have happened; and no
  call touches another key.\<close>

definition write_law :: "'s operator \<Rightarrow> ('s \<Rightarrow> string \<rightharpoonup> bytes) \<Rightarrow> bool" where
  "write_law op obj \<longleftrightarrow> (\<forall>k b s r t. op_write op k b s = (r, t) \<longrightarrow>
     (\<forall>j. j \<noteq> k \<longrightarrow> obj t j = obj s j) \<and>
     (case r of Inr _ \<Rightarrow> obj t k = Some b | Inl _ \<Rightarrow> obj t k = obj s k \<or> obj t k = Some b))"

definition stat_law :: "'s operator \<Rightarrow> ('s \<Rightarrow> string \<rightharpoonup> bytes) \<Rightarrow> bool" where
  "stat_law op obj \<longleftrightarrow> (\<forall>k s r t. op_stat op k s = (r, t) \<longrightarrow> obj t = obj s \<and>
     (case r of Inr m \<Rightarrow> m_is_file m \<longrightarrow> (\<exists>b. obj s k = Some b \<and> m_content_length m = length b)
      | Inl OpNotFound \<Rightarrow> obj s k = None
      | Inl OpOther \<Rightarrow> True))"

definition delete_law :: "'s operator \<Rightarrow> ('s \<Rightarrow> string \<rightharpoonup> bytes) \<Rightarrow> bool" where
  "delete_law op obj \<longleftrightarrow> (\<forall>k s r t. op_delete op k s = (r, t) \<longrightarrow>
     (\<forall>j. j \<noteq> k \<longrightarrow> obj t j = obj s j) \<and>
     (case r of Inr _ \<Rightarrow> obj t k = None | Inl _ \<Rightarrow> obj t k = obj s k \<or> obj t k = None))"

definition store_laws :: "'s operator \<Rightarrow> ('s \<Rightarrow> string \<rightharpoonup> bytes) \<Rightarrow> bool" where
  "store_laws op obj \<longleftrightarrow> write_law op obj \<and> stat_law op obj \<and> delete_law op obj"

text \<open>A store without directories.\<close>

definition flat_store :: "'s operator \<Rightarrow> bool" where
  "flat_store op \<longleftrightarrow> (\<forall>k s m t. op_stat op k s = (Inr m, t) \<longrightarrow> m_is_file m)"

section \<open>Announcements\<close>

record MirroredSegment =
  ms_id :: string
  ms_tenant :: string
  ms_index_id :: string
  ms_url :: string
  ms_bytes :: nat
  ms_rows :: nat

lemma strip_suffix_shorter: "pat \<noteq> [] \<Longrightarrow> strip_suffix pat s = Some t \<Longrightarrow> length t < length s"
  by (simp add: strip_suffix_Some)

text \<open>\<^verbatim>\<open>trim_end_matches\<close> with a string: every trailing copy goes.\<close>

function trim_end_matches :: "'a list \<Rightarrow> 'a list \<Rightarrow> 'a list" where
  "trim_end_matches pat s =
     (case (if pat = [] then None else strip_suffix pat s) of None \<Rightarrow> s | Some t \<Rightarrow> trim_end_matches pat t)"
  by auto
termination
  by (relation "measure (\<lambda>(pat, s). length s)") (auto dest: strip_suffix_shorter split: if_splits)

declare trim_end_matches.simps [simp del]

record WalMirror =
  mir_prefix :: string
  mir_uploaded_tx :: bool
  mir_cleanup_active_partials :: bool

definition WalMirror_new :: "string \<Rightarrow> WalMirror" where
  "WalMirror_new pre = \<lparr>mir_prefix = trim_matches slash pre, mir_uploaded_tx = False, mir_cleanup_active_partials = False\<rparr>"

definition with_uploaded_tx :: "WalMirror \<Rightarrow> WalMirror" where
  "with_uploaded_tx m = m\<lparr>mir_uploaded_tx := True\<rparr>"

definition with_active_partial_cleanup :: "WalMirror \<Rightarrow> WalMirror" where
  "with_active_partial_cleanup m = m\<lparr>mir_cleanup_active_partials := True\<rparr>"

definition announcement :: "string \<Rightarrow> WalSegment \<Rightarrow> nat \<Rightarrow> MirroredSegment" where
  "announcement pre segment bytes =
     (let suff = mirror_key_suffix segment;
          (tenant, index_id) = parse_mirror_key_suffix suff in
      \<lparr>ms_id = trim_end_matches ''.arrow'' (last (split_slash suff)), ms_tenant = tenant, ms_index_id = index_id,
       ms_url = mirror_key pre suff, ms_bytes = bytes, ms_rows = seg_rows segment\<rparr>)"

definition notify_uploaded :: "WalMirror \<Rightarrow> WalSegment \<Rightarrow> nat \<Rightarrow> MirroredSegment list \<Rightarrow> MirroredSegment list" where
  "notify_uploaded m segment bytes sent =
     (if mir_uploaded_tx m then sent @ [announcement (mir_prefix m) segment bytes] else sent)"

section \<open>The upload worker\<close>

definition ACTIVE_CLEANUP_ATTEMPTS :: nat where "ACTIVE_CLEANUP_ATTEMPTS = 3"
definition MIRROR_UPLOAD_ATTEMPTS :: nat where "MIRROR_UPLOAD_ATTEMPTS = 5"

primrec cleanup_loop :: "nat \<Rightarrow> 's operator \<Rightarrow> string \<Rightarrow> 's \<Rightarrow> 's" where
  "cleanup_loop 0 op key s = s"
| "cleanup_loop (Suc n) op key s =
     (case op_delete op key s of (Inr _, t) \<Rightarrow> t | (Inl _, t) \<Rightarrow> cleanup_loop n op key t)"

definition cleanup_active_partial :: "'s operator \<Rightarrow> string \<Rightarrow> string \<Rightarrow> 's \<Rightarrow> 's" where
  "cleanup_active_partial op pre suff s =
     (case active_partial_key pre suff of
        None \<Rightarrow> s
      | Some key \<Rightarrow> cleanup_loop ACTIVE_CLEANUP_ATTEMPTS op key s)"

datatype MirrorUploadError = LocalNotFound | UploadOther

definition upload :: "'s operator \<Rightarrow> WalMirror \<Rightarrow> WalSegment \<Rightarrow> fs \<times> 's \<Rightarrow> (MirrorUploadError + nat) \<times> (fs \<times> 's)" where
  "upload op m segment = (\<lambda>(f, s).
     (case (if exists_path f (seg_path segment) then Some (seg_path segment) else find_segment segment f) of
        None \<Rightarrow> (Inl LocalNotFound, (f, s))
      | Some p \<Rightarrow>
          (case std_read p f of
             (Inl ENoEnt, f) \<Rightarrow> (Inl LocalNotFound, (f, s))
           | (Inl _, f) \<Rightarrow> (Inl UploadOther, (f, s))
           | (Inr bs, f) \<Rightarrow>
               (case op_write op (mirror_key (mir_prefix m) (mirror_key_suffix segment)) bs s of
                  (Inl _, s) \<Rightarrow> (Inl UploadOther, (f, s))
                | (Inr _, s) \<Rightarrow> (Inr (length bs), (f, s))))))"

text \<open>The attempts: the size of what was stored, or nothing when they are used up or the local file is
  gone.\<close>

primrec upload_loop :: "nat \<Rightarrow> 's operator \<Rightarrow> WalMirror \<Rightarrow> WalSegment \<Rightarrow> fs \<times> 's \<Rightarrow> nat option \<times> (fs \<times> 's)" where
  "upload_loop 0 op m segment w = (None, w)"
| "upload_loop (Suc n) op m segment w =
     (case upload op m segment w of
        (Inr bytes, w) \<Rightarrow> (Some bytes, w)
      | (Inl LocalNotFound, w) \<Rightarrow> (None, w)
      | (Inl UploadOther, w) \<Rightarrow> upload_loop n op m segment w)"

text \<open>What follows a confirmed object, on both paths: tell the registrar, drop the active sibling, drop
  the pin.\<close>

definition confirmed :: "'s operator \<Rightarrow> WalMirror \<Rightarrow> WalSegment \<Rightarrow> nat \<Rightarrow> fs \<times> 's \<times> MirroredSegment list \<Rightarrow> fs \<times> 's \<times> MirroredSegment list" where
  "confirmed op m segment bytes = (\<lambda>(f, s, sent).
     (snd (remove_pin segment f),
      if mir_cleanup_active_partials m then cleanup_active_partial op (mir_prefix m) (mirror_key_suffix segment) s else s,
      notify_uploaded m segment bytes sent))"

definition upload_and_notify :: "'s operator \<Rightarrow> WalMirror \<Rightarrow> WalSegment \<Rightarrow> fs \<times> 's \<times> MirroredSegment list \<Rightarrow> fs \<times> 's \<times> MirroredSegment list" where
  "upload_and_notify op m segment = (\<lambda>(f, s, sent).
     (case upload_loop MIRROR_UPLOAD_ATTEMPTS op m segment (f, s) of
        (Some bytes, (f, s)) \<Rightarrow> confirmed op m segment bytes (f, s, sent)
      | (None, (f, s)) \<Rightarrow>
          (case op_stat op (mirror_key (mir_prefix m) (mirror_key_suffix segment)) s of
             (Inr meta, s) \<Rightarrow> confirmed op m segment (m_content_length meta) (f, s, sent)
           | (Inl _, s) \<Rightarrow> (f, s, sent))))"

text \<open>The worker drains the channel in order.\<close>

definition mirror_run :: "'s operator \<Rightarrow> WalMirror \<Rightarrow> WalSegment list \<Rightarrow> fs \<times> 's \<times> MirroredSegment list \<Rightarrow> fs \<times> 's \<times> MirroredSegment list" where
  "mirror_run op m queue w = fold (upload_and_notify op m) queue w"

section \<open>Facts about the calls\<close>

lemma write_lawD:
  assumes "store_laws op obj" and "op_write op k b s = (r, t)"
  shows "j \<noteq> k \<Longrightarrow> obj t j = obj s j" and "r = Inr x \<Longrightarrow> obj t k = Some b" and "obj t k = obj s k \<or> obj t k = Some b"
proof -
  have "(\<forall>j. j \<noteq> k \<longrightarrow> obj t j = obj s j) \<and> (case r of Inr _ \<Rightarrow> obj t k = Some b | Inl _ \<Rightarrow> obj t k = obj s k \<or> obj t k = Some b)"
    using assms unfolding store_laws_def write_law_def by blast
  then show "j \<noteq> k \<Longrightarrow> obj t j = obj s j" and "r = Inr x \<Longrightarrow> obj t k = Some b" and "obj t k = obj s k \<or> obj t k = Some b"
    by (cases r; simp)+
qed

lemma stat_lawD:
  assumes "store_laws op obj" and "op_stat op k s = (r, t)"
  shows "obj t = obj s" and "r = Inr m \<Longrightarrow> m_is_file m \<Longrightarrow> \<exists>b. obj s k = Some b \<and> m_content_length m = length b"
    and "r = Inl OpNotFound \<Longrightarrow> obj s k = None"
proof -
  have "obj t = obj s \<and> (case r of Inr m \<Rightarrow> m_is_file m \<longrightarrow> (\<exists>b. obj s k = Some b \<and> m_content_length m = length b)
      | Inl OpNotFound \<Rightarrow> obj s k = None | Inl OpOther \<Rightarrow> True)"
    using assms unfolding store_laws_def stat_law_def by blast
  then show "obj t = obj s" and "r = Inr m \<Longrightarrow> m_is_file m \<Longrightarrow> \<exists>b. obj s k = Some b \<and> m_content_length m = length b"
    and "r = Inl OpNotFound \<Longrightarrow> obj s k = None"
    by simp_all
qed

lemma delete_lawD:
  assumes "store_laws op obj" and "op_delete op k s = (r, t)"
  shows "j \<noteq> k \<Longrightarrow> obj t j = obj s j"
  using assms unfolding store_laws_def delete_law_def by blast

lemma cleanup_loop_frame:
  assumes "store_laws op obj" and "j \<noteq> k"
  shows "obj (cleanup_loop n op k s) j = obj s j"
proof (induction n arbitrary: s)
  case (Suc n)
  obtain r t where "op_delete op k s = (r, t)" by fastforce
  then show ?case using Suc delete_lawD [OF assms(1) _ assms(2)] by (cases r) auto
qed simp

lemma trim_start_snoc: "c \<noteq> y \<Longrightarrow> trim_start_matches c (x @ [y]) = trim_start_matches c x @ [y]"
  by (induction x) (auto simp: trim_start_matches_def)

lemma mirror_key_snoc: "y \<noteq> slash \<Longrightarrow> last (mirror_key pre (x @ [y])) = y"
  by (simp add: mirror_key_def Let_def trim_start_snoc)

lemma active_key_last: "active_partial_key pre suff = Some k \<Longrightarrow> last k = CHR ''l''"
  using mirror_key_snoc [of "CHR ''l''" pre "''_active/'' @ the (strip_suffix ''.arrow'' suff) @ ''.arrow.partia''"]
  by (auto simp: active_partial_key_def)

lemma active_key_not_sealed: "active_partial_key pre suff = Some k \<Longrightarrow> k \<noteq> mirror_key pre suff"
proof
  assume a: "active_partial_key pre suff = Some k" and k: "k = mirror_key pre suff"
  obtain stem where "suff = stem @ ''.arrow''" using a by (auto simp: active_partial_key_def strip_suffix_Some)
  then have "last (mirror_key pre suff) = CHR ''w''" using mirror_key_snoc [of "CHR ''w''" pre "stem @ ''.arro''"] by simp
  then show False using active_key_last [OF a] k by simp
qed

lemma cleanup_frame:
  assumes "store_laws op obj" and "active_partial_key pre suff \<noteq> Some j"
  shows "obj (cleanup_active_partial op pre suff s) j = obj s j"
  using assms(2) by (auto simp: cleanup_active_partial_def intro!: cleanup_loop_frame [OF assms(1)] split: option.splits)

text \<open>Reading and looking up local names leaves the files alone.\<close>

definition same_files :: "fs \<Rightarrow> fs \<Rightarrow> bool" where
  "same_files f g \<longleftrightarrow> ent g = ent f \<and> data g = data f"

lemma same_files_refl [simp]: "same_files f f"
  by (simp add: same_files_def)

lemma same_files_trans: "same_files f g \<Longrightarrow> same_files g h \<Longrightarrow> same_files f h"
  by (simp add: same_files_def)

lemma same_files_read: "same_files f g \<Longrightarrow> read_file g = read_file f"
  by (intro ext) (auto simp: same_files_def read_file_def split: option.splits node.splits)

lemma ent_clk [simp]: "ent (f\<lparr>clk := n\<rparr>) = ent f"
  by (simp add: ent_def fun_eq_iff)

lemma std_read_same: "std_read p f = (r, g) \<Longrightarrow> same_files f g \<and> (\<forall>bs. r = Inr bs \<longrightarrow> read_file f p = Some bs)"
  by (auto simp: std_read_def syscall_def Let_def same_files_def read_file_def split: option.splits node.splits)

text \<open>Every local name the uploader may read holds the segment's bytes, if anything.\<close>

definition local_copies :: "WalSegment \<Rightarrow> bytes \<Rightarrow> fs \<Rightarrow> bool" where
  "local_copies segment b f \<longleftrightarrow>
     (\<forall>p. p = seg_path segment \<or> find_segment segment f = Some p \<longrightarrow> read_file f p = None \<or> read_file f p = Some b)"

lemma find_segment_same: "same_files f g \<Longrightarrow> find_segment segment g = find_segment segment f"
proof -
  assume "same_files f g"
  then have "exists_path g = exists_path f" by (intro ext) (simp add: exists_path_def same_files_def)
  then show ?thesis by (simp add: find_segment_def)
qed

lemma local_copies_same: "same_files f g \<Longrightarrow> local_copies segment b f \<Longrightarrow> local_copies segment b g"
  by (simp add: local_copies_def same_files_read find_segment_same)

abbreviation segment_key :: "WalMirror \<Rightarrow> WalSegment \<Rightarrow> string" where
  "segment_key m segment \<equiv> mirror_key (mir_prefix m) (mirror_key_suffix segment)"

lemma upload_step:
  assumes laws: "store_laws op obj" and loc: "local_copies segment b f"
    and run: "upload op m segment (f, s) = (r, (g, t))"
  shows "same_files f g" and "j \<noteq> segment_key m segment \<Longrightarrow> obj t j = obj s j"
    and "obj t (segment_key m segment) = obj s (segment_key m segment) \<or> obj t (segment_key m segment) = Some b"
    and "r = Inr n \<Longrightarrow> obj t (segment_key m segment) = Some b \<and> n = length b"
proof -
  let ?k = "segment_key m segment"
  have "same_files f g \<and> (\<forall>j. j \<noteq> ?k \<longrightarrow> obj t j = obj s j) \<and> (obj t ?k = obj s ?k \<or> obj t ?k = Some b) \<and>
      (\<forall>n. r = Inr n \<longrightarrow> obj t ?k = Some b \<and> n = length b)"
  proof (cases "if exists_path f (seg_path segment) then Some (seg_path segment) else find_segment segment f")
    case None
    then have "r = Inl LocalNotFound" "g = f" "t = s" using run by (simp_all add: upload_def)
    then show ?thesis by simp
  next
    case (Some p)
    obtain q f' where rd: "std_read p f = (q, f')" by fastforce
    have p: "p = seg_path segment \<or> find_segment segment f = Some p" using Some by (auto split: if_splits)
    note same = std_read_same [OF rd]
    show ?thesis
    proof (cases q)
      case (Inl e)
      then show ?thesis using run Some rd same by (cases e) (auto simp: upload_def simp del: if_split)
    next
      case (Inr bs)
      then have bs: "bs = b" using same p loc by (auto simp: local_copies_def)
      obtain q' t' where w: "op_write op ?k bs s = (q', t')" by fastforce
      have "g = f'" "t = t'" "r = (case q' of Inl _ \<Rightarrow> Inl UploadOther | Inr _ \<Rightarrow> Inr (length bs))"
        using run Some rd Inr w by (cases q'; simp add: upload_def)+
      then show ?thesis using same write_lawD [OF laws w] bs by (cases q') auto
    qed
  qed
  then show "same_files f g" and "j \<noteq> ?k \<Longrightarrow> obj t j = obj s j" and "obj t ?k = obj s ?k \<or> obj t ?k = Some b"
    and "r = Inr n \<Longrightarrow> obj t ?k = Some b \<and> n = length b" by blast+
qed

lemma upload_loop_step:
  assumes laws: "store_laws op obj"
  shows "local_copies segment b f \<Longrightarrow> upload_loop n op m segment (f, s) = (r, (g, t)) \<Longrightarrow>
    same_files f g \<and> (\<forall>j. j \<noteq> segment_key m segment \<longrightarrow> obj t j = obj s j) \<and>
    (obj t (segment_key m segment) = obj s (segment_key m segment) \<or> obj t (segment_key m segment) = Some b) \<and>
    (\<forall>k. r = Some k \<longrightarrow> obj t (segment_key m segment) = Some b \<and> k = length b)"
proof (induction n arbitrary: f s)
  case (Suc n)
  obtain q f' s' where u: "upload op m segment (f, s) = (q, (f', s'))" by (rule prod_cases3)
  note st = upload_step [OF laws Suc.prems(1) u]
  show ?case
  proof (cases "q = Inl UploadOther")
    case True
    then have "upload_loop n op m segment (f', s') = (r, (g, t))" using Suc.prems(2) u by simp
    note ih = Suc.IH [OF local_copies_same [OF st(1) Suc.prems(1)] this]
    show ?thesis using ih st(2,3) same_files_trans [OF st(1)] by auto
  next
    case False
    have "g = f'" "t = s'" "r = (case q of Inl _ \<Rightarrow> None | Inr k \<Rightarrow> Some k)"
      using False Suc.prems(2) u by (auto split: sum.splits MirrorUploadError.splits)
    then show ?thesis using st by (cases q) auto
  qed
qed simp

lemma remove_pin_frame: "remove_pin segment f = (r, g) \<Longrightarrow> pending_path segment \<noteq> Some p \<Longrightarrow> ent g p = ent f p"
  by (auto simp: remove_pin_def qm_def ok_or_def fail_def ret_def std_remove_file_def sync_dir_def syscall_def Let_def set_ent_def ent_def
      split: option.splits prod.splits sum.splits io_error.splits node.splits if_splits)

lemma confirmed_step:
  assumes laws: "store_laws op obj" and run: "confirmed op m segment n (f, s, sent) = (g, t, sent')"
  shows "sent' = notify_uploaded m segment n sent" and "obj t (segment_key m segment) = obj s (segment_key m segment)"
    and "active_partial_key (mir_prefix m) (mirror_key_suffix segment) \<noteq> Some j \<Longrightarrow> obj t j = obj s j"
    and "pending_path segment \<noteq> Some p \<Longrightarrow> ent g p = ent f p"
proof -
  have eqs: "sent' = notify_uploaded m segment n sent" "g = snd (remove_pin segment f)"
      "t = (if mir_cleanup_active_partials m then cleanup_active_partial op (mir_prefix m) (mirror_key_suffix segment) s else s)"
    using run by (auto simp: confirmed_def)
  show "sent' = notify_uploaded m segment n sent" by (rule eqs(1))
  show "obj t j = obj s j" if "active_partial_key (mir_prefix m) (mirror_key_suffix segment) \<noteq> Some j" for j
    using eqs(3) cleanup_frame [OF laws that] by simp
  then show "obj t (segment_key m segment) = obj s (segment_key m segment)" using active_key_not_sealed by blast
  show "pending_path segment \<noteq> Some p \<Longrightarrow> ent g p = ent f p" using remove_pin_frame eqs(2) by (metis prod.collapse)
qed


text \<open>A store whose writes land although they report an error.\<close>

definition reset_store :: "(string \<rightharpoonup> bytes) operator" where
  "reset_store = \<lparr>op_write = (\<lambda>k b s. (Inl OpOther, s(k \<mapsto> b))),
     op_stat = (\<lambda>k s. (case s k of None \<Rightarrow> Inl OpNotFound | Some b \<Rightarrow> Inr \<lparr>m_is_file = True, m_content_length = length b\<rparr>, s)),
     op_delete = (\<lambda>k s. (Inr (), s(k := None)))\<rparr>"

lemma reset_store_laws: "store_laws reset_store id" "flat_store reset_store"
  by (auto simp: store_laws_def write_law_def stat_law_def delete_law_def flat_store_def reset_store_def split: option.splits)

definition sample_segment :: WalSegment where
  "sample_segment = \<lparr>seg_path = [''w'', SEALED_DIR, ''a.arrow''], seg_rows = 4, seg_bytes = 3, mirror_key_suffix = ''acme/a.arrow''\<rparr>"

definition sample_mirror :: WalMirror where
  "sample_mirror = with_uploaded_tx (WalMirror_new ''wal'')"

lemma sample_announced:
  "snd (snd (upload_and_notify reset_store sample_mirror sample_segment (sample_fs, Map.empty, []))) \<noteq> []"
  by code_simp

lemma sample_local: "local_copies sample_segment [1, 2, 3] sample_fs"
proof -
  have "read_file sample_fs [''w'', SEALED_DIR, ''a.arrow''] = Some [1, 2, 3]"
    "find_segment sample_segment sample_fs = Some [''w'', SEALED_DIR, ''a.arrow'']" by code_simp+
  then show ?thesis by (simp add: local_copies_def sample_segment_def)
qed


section \<open>Listing a WAL directory\<close>

primrec list_loop :: "path \<Rightarrow> string list \<Rightarrow> path list \<Rightarrow> path list io" where
  "list_loop target [] out = ret out"
| "list_loop target (e # es) out =
     qm (std_next_entry e) (\<lambda>name.
     qm (gets (\<lambda>s. is_file s (target @ [name]))) (\<lambda>f.
     list_loop target es (if f \<and> extension name = Some ''arrow'' then out @ [target @ [name]] else out)))"

definition list_segments :: "path \<Rightarrow> string \<Rightarrow> path list io" where
  "list_segments dir sub =
     (let target = dir @ [sub] in
      qm (gets (\<lambda>s. exists_path s target)) (\<lambda>there.
      if \<not> there then ret []
      else
        qm (std_read_dir target) (\<lambda>entries.
        qm (list_loop target (map fst entries) []) (\<lambda>out. ret (sort out)))))"

definition list_sealed :: "path \<Rightarrow> path list io" where
  "list_sealed dir = list_segments dir SEALED_DIR"

definition list_pending :: "path \<Rightarrow> path list io" where
  "list_pending dir =
     (let pending = dir @ [MIRROR_PENDING_DIR] in
      qm (gets (\<lambda>s. exists_path s pending)) (\<lambda>there.
      if \<not> there then ret []
      else
        qm (std_read_dir pending) (\<lambda>entries.
        qm (list_loop pending (map fst entries) []) (\<lambda>paths. ret (sort paths)))))"

primrec layout_loop :: "path \<Rightarrow> string list \<Rightarrow> (string \<times> path) list \<Rightarrow> (string \<times> path) list io" where
  "layout_loop root [] out = ret out"
| "layout_loop root (e # es) out =
     qm (std_next_entry e) (\<lambda>name.
     qm (gets (\<lambda>s. is_dir s (root @ [name]) \<and> is_dir s (root @ [name, SEALED_DIR]))) (\<lambda>tenant.
     layout_loop root es
       (if tenant \<and> name \<notin> {ACTIVE_DIR, SEALED_DIR, PROCESSING_DIR, COMMITTED_DIR, CONSUMERS_DIR}
        then out @ [(name, root @ [name])] else out)))"

definition list_layout_dirs :: "path \<Rightarrow> (string \<times> path) list io" where
  "list_layout_dirs root =
     qm (gets (\<lambda>s. exists_path s root)) (\<lambda>there.
     if \<not> there then ret []
     else
       qm (std_read_dir root) (\<lambda>entries.
       qm (layout_loop root (map fst entries) []) (\<lambda>out. ret (sort_key fst out))))"

section \<open>The catch-up sweep\<close>

text \<open>\<^verbatim>\<open>unwrap_or_default\<close> and \<^verbatim>\<open>if let Ok\<close>: an error counts as an empty list.\<close>

definition or_empty :: "'a list io \<Rightarrow> fs \<Rightarrow> 'a list \<times> fs" where
  "or_empty m f = (case m f of (Inl _, g) \<Rightarrow> ([], g) | (Inr xs, g) \<Rightarrow> (xs, g))"

fun tenant_roots :: "(string \<times> path) list \<Rightarrow> fs \<Rightarrow> (path \<times> string) list \<times> fs" where
  "tenant_roots [] f = ([], f)"
| "tenant_roots ((tenant, dir) # rest) f =
     (let (indexes, f) = or_empty (list_layout_dirs dir) f;
          (roots, f) = tenant_roots rest f in
      ((dir, tenant) # map (\<lambda>(index, index_dir). (index_dir, tenant @ ''/'' @ index)) indexes @ roots, f))"

definition sweep_roots :: "path \<Rightarrow> fs \<Rightarrow> (path \<times> string) list \<times> fs" where
  "sweep_roots root f =
     (let (tenants, f) = or_empty (list_layout_dirs root) f;
          (roots, f) = tenant_roots tenants f in
      ((root, []) # roots, f))"

record Candidate =
  c_path :: path
  c_name :: string
  c_subdir :: string
  c_key :: string
  c_pinned :: bool

definition add_candidate :: "string \<Rightarrow> string \<Rightarrow> bool \<Rightarrow> path \<Rightarrow> Candidate list \<Rightarrow> Candidate list" where
  "add_candidate pre subdir pinned p cs =
     (case file_name p of
        None \<Rightarrow> cs
      | Some name \<Rightarrow>
          let key = (if subdir = [] then pre @ ''/'' @ name else pre @ ''/'' @ subdir @ ''/'' @ name) in
          if key \<in> set (map c_key cs) then cs
          else cs @ [\<lparr>c_path = p, c_name = name, c_subdir = subdir, c_key = key, c_pinned = pinned\<rparr>])"

fun sweep_candidates :: "string \<Rightarrow> (path \<times> string) list \<Rightarrow> Candidate list \<Rightarrow> fs \<Rightarrow> Candidate list \<times> fs" where
  "sweep_candidates pre [] cs f = (cs, f)"
| "sweep_candidates pre ((dir, subdir) # roots) cs f =
     (let (pending, f) = or_empty (list_pending dir) f;
          (sealed, f) = or_empty (list_sealed dir) f;
          cs = fold (add_candidate pre subdir True) pending cs;
          cs = fold (add_candidate pre subdir False) sealed cs in
      sweep_candidates pre roots cs f)"

definition remove_candidate_pin :: "path \<Rightarrow> fs \<Rightarrow> fs" where
  "remove_candidate_pin p f =
     snd (qm (std_remove_file p) (\<lambda>_. qm (ok_or (parent p) EPath) (\<lambda>d. sync_dir d)) f)"

datatype SweepCandidateRead = SweepBytes bytes | LocallyCommitted

definition read_sweep_candidate :: "path \<Rightarrow> SweepCandidateRead io" where
  "read_sweep_candidate p f =
     (case std_read p f of
        (Inr bs, f) \<Rightarrow> (Inr (SweepBytes bs), f)
      | (Inl ENoEnt, f) \<Rightarrow>
          (case (file_name p, Option.bind (parent p) parent) of
             (Some filename, Some d) \<Rightarrow>
               (case std_read (d @ [PROCESSING_DIR, filename]) f of
                  (Inr bs, f) \<Rightarrow> (Inr (SweepBytes bs), f)
                | (Inl ENoEnt, f) \<Rightarrow>
                    if exists_path f (d @ [COMMITTED_DIR, filename]) then (Inr LocallyCommitted, f)
                    else qm (std_read p) (\<lambda>bs. ret (SweepBytes bs)) f
                | (Inl e, f) \<Rightarrow> (Inl e, f))
           | _ \<Rightarrow> qm (std_read p) (\<lambda>bs. ret (SweepBytes bs)) f)
      | (Inl e, f) \<Rightarrow> (Inl e, f))"

definition candidate_suffix :: "Candidate \<Rightarrow> string" where
  "candidate_suffix c = (if c_subdir c = [] then c_name c else c_subdir c @ ''/'' @ c_name c)"

definition sweep_announcement :: "Candidate \<Rightarrow> nat \<Rightarrow> MirroredSegment" where
  "sweep_announcement c bytes =
     (let (tenant, index_id) = parse_mirror_key_suffix (candidate_suffix c) in
      \<lparr>ms_id = trim_end_matches ''.arrow'' (c_name c), ms_tenant = tenant, ms_index_id = index_id,
       ms_url = trim_start_matches slash (c_key c), ms_bytes = bytes, ms_rows = 0\<rparr>)"

text \<open>One turn of the loop over the candidates: whether the sweep stops, what it adds to the uploads, and
  the state. The existence checks run ahead of the loop, at most sixteen at a time; their keys are
  distinct from each other and from everything the loop writes or deletes in between, so each is
  taken where its answer is used.\<close>

definition sweep_one :: "'s operator \<Rightarrow> string \<Rightarrow> bool \<Rightarrow> Candidate \<Rightarrow> fs \<times> 's \<Rightarrow> bool \<times> MirroredSegment list \<times> fs \<times> 's" where
  "sweep_one op pre cleanup c = (\<lambda>(f, s).
     (let tidy = (\<lambda>s. if cleanup then cleanup_active_partial op pre (candidate_suffix c) s else s);
          unpin = (\<lambda>f. if c_pinned c then remove_candidate_pin (c_path c) f else f) in
      case op_stat op (c_key c) s of
        (Inl OpOther, s) \<Rightarrow> (True, [], f, s)
      | (q, s) \<Rightarrow>
          (case (case q of Inr meta \<Rightarrow> if m_is_file meta then Some (m_content_length meta) else None | Inl _ \<Rightarrow> None) of
             Some n \<Rightarrow> (False, if c_pinned c then [sweep_announcement c n] else [], unpin f, tidy s)
           | None \<Rightarrow>
               (case read_sweep_candidate (c_path c) f of
                  (Inr (SweepBytes bs), f) \<Rightarrow>
                    (case op_write op (c_key c) bs s of
                       (Inl _, s) \<Rightarrow> (True, [], f, s)
                     | (Inr _, s) \<Rightarrow> (False, [sweep_announcement c (length bs)], unpin f, tidy s))
                | (Inr LocallyCommitted, f) \<Rightarrow> (False, [], f, s)
                | (Inl _, f) \<Rightarrow> (False, [], f, s)))))"

primrec sweep_loop :: "'s operator \<Rightarrow> string \<Rightarrow> bool \<Rightarrow> Candidate list \<Rightarrow> fs \<times> 's \<Rightarrow> MirroredSegment list \<Rightarrow> MirroredSegment list \<times> (fs \<times> 's)" where
  "sweep_loop op pre cleanup [] w uploaded = (uploaded, w)"
| "sweep_loop op pre cleanup (c # cs) w uploaded =
     (case sweep_one op pre cleanup c w of
        (stop, new, w) \<Rightarrow>
          if stop then (uploaded @ new, w) else sweep_loop op pre cleanup cs w (uploaded @ new))"

definition catch_up_sweep_configured :: "'s operator \<Rightarrow> string \<Rightarrow> path \<Rightarrow> bool \<Rightarrow> fs \<times> 's \<Rightarrow> MirroredSegment list \<times> (fs \<times> 's)" where
  "catch_up_sweep_configured op pre root cleanup = (\<lambda>(f, s).
     (let pre = trim_matches slash pre;
          (roots, f) = sweep_roots root f;
          (candidates, f) = sweep_candidates pre roots [] f in
      sweep_loop op pre cleanup candidates (f, s) []))"

definition catch_up_sweep :: "'s operator \<Rightarrow> string \<Rightarrow> path \<Rightarrow> fs \<times> 's \<Rightarrow> MirroredSegment list \<times> (fs \<times> 's)" where
  "catch_up_sweep op pre root = catch_up_sweep_configured op pre root False"

section \<open>What a sweep may change\<close>

lemma same_files_sys:
  assumes "\<And>u. same_files u (snd (m u))"
  shows "same_files f (snd (syscall m f))"
proof -
  have clk: "same_files f (f\<lparr>clk := Suc (clk f)\<rparr>)" by (simp add: same_files_def)
  then show ?thesis using same_files_trans [OF clk assms] by (cases "fault_at f (clk f)") (simp_all add: syscall_def Let_def)
qed

lemma same_files_qm:
  assumes "\<And>u. same_files u (snd (m u))" and "\<And>x u. same_files u (snd (k x u))"
  shows "same_files f (snd (qm m k f))"
proof (cases "m f")
  case (Pair r g)
  then have g: "same_files f g" using assms(1) [of f] by simp
  show ?thesis using g same_files_trans [OF g assms(2)] Pair by (cases r) (simp_all add: qm_def)
qed

lemma same_files_pure [simp]: "same_files f (snd (ret x f))" "same_files f (snd (gets h f))"
  by (simp_all add: ret_def gets_def)

lemma same_files_read_dir: "same_files f (snd (std_read_dir d f))"
  unfolding std_read_dir_def by (rule same_files_sys) auto

lemma same_files_next: "same_files f (snd (std_next_entry e f))"
  unfolding std_next_entry_def by (rule same_files_sys) simp

lemma same_files_list_loop: "same_files f (snd (list_loop target es out f))"
  by (induction es arbitrary: out f) (auto intro!: same_files_qm same_files_next)

lemma same_files_layout_loop: "same_files f (snd (layout_loop root es out f))"
  by (induction es arbitrary: out f) (auto intro!: same_files_qm same_files_next)

lemma same_files_lists:
  "same_files f (snd (list_segments dir sub f))" "same_files f (snd (list_pending dir f))" "same_files f (snd (list_layout_dirs root f))"
  unfolding list_segments_def list_pending_def list_layout_dirs_def Let_def
  by (auto intro!: same_files_qm same_files_read_dir same_files_list_loop same_files_layout_loop)

lemma same_files_or_empty: "or_empty m f = (xs, g) \<Longrightarrow> same_files f (snd (m f)) \<Longrightarrow> same_files f g"
  by (auto simp: or_empty_def split: prod.splits sum.splits)

lemma tenant_roots_same: "tenant_roots tenants f = (roots, g) \<Longrightarrow> same_files f g"
proof (induction tenants f arbitrary: roots g rule: tenant_roots.induct)
  case (2 tenant dir rest f)
  obtain ix f' where o: "or_empty (list_layout_dirs dir) f = (ix, f')" by fastforce
  obtain rs f'' where t: "tenant_roots rest f' = (rs, f'')" by fastforce
  have "same_files f f'" by (rule same_files_or_empty [OF o same_files_lists(3)])
  moreover have "same_files f' f''" by (rule 2(1) [OF o [symmetric] refl t])
  ultimately show ?case using "2.prems" o t same_files_trans by simp
qed simp

lemma sweep_roots_same: "sweep_roots root f = (roots, g) \<Longrightarrow> same_files f g"
proof -
  assume r: "sweep_roots root f = (roots, g)"
  obtain ts f' where o: "or_empty (list_layout_dirs root) f = (ts, f')" by fastforce
  obtain rs f'' where t: "tenant_roots ts f' = (rs, f'')" by fastforce
  have "g = f''" using r o t by (simp add: sweep_roots_def)
  then show ?thesis using same_files_trans [OF same_files_or_empty [OF o same_files_lists(3)] tenant_roots_same [OF t]] by simp
qed

lemma list_loop_arrow:
  "list_loop target es out f = (Inr ps, g) \<Longrightarrow> p \<in> set ps \<Longrightarrow> p \<in> set out \<or> (\<exists>n. p = target @ [n] \<and> extension n = Some ''arrow'')"
proof (induction es arbitrary: out f)
  case (Cons e es)
  obtain r f' where n: "std_next_entry e f = (r, f')" by fastforce
  then obtain name where r: "r = Inr name" using Cons.prems(1) by (cases r) (auto simp: qm_def)
  let ?out = "if is_file f' (target @ [name]) \<and> extension name = Some ''arrow'' then out @ [target @ [name]] else out"
  have "list_loop target es ?out f' = (Inr ps, g)" using Cons.prems(1) n r by (simp add: qm_def gets_def)
  from Cons.IH [OF this Cons.prems(2)] show ?case by (auto split: if_splits)
qed (simp add: ret_def)

definition arrow_in :: "path \<Rightarrow> path \<Rightarrow> bool" where
  "arrow_in d p \<longleftrightarrow> (\<exists>n. p = d @ [n] \<and> extension n = Some ''arrow'')"

lemma list_pending_arrow:
  assumes "or_empty (list_pending dir) f = (ps, g)" and "p \<in> set ps"
  shows "arrow_in (dir @ [MIRROR_PENDING_DIR]) p"
proof -
  have "list_pending dir f = (Inr ps, g)" using assms by (auto simp: or_empty_def split: prod.splits sum.splits)
  then show ?thesis using assms(2)
    by (auto simp: list_pending_def Let_def qm_def gets_def ret_def arrow_in_def split: if_splits prod.splits sum.splits dest: list_loop_arrow)
qed

lemma list_sealed_arrow:
  assumes "or_empty (list_sealed dir) f = (ps, g)" and "p \<in> set ps"
  shows "arrow_in (dir @ [SEALED_DIR]) p"
proof -
  have "list_sealed dir f = (Inr ps, g)" using assms by (auto simp: or_empty_def split: prod.splits sum.splits)
  then show ?thesis using assms(2)
    by (auto simp: list_sealed_def list_segments_def Let_def qm_def gets_def ret_def arrow_in_def split: if_splits prod.splits sum.splits dest: list_loop_arrow)
qed

text \<open>A candidate comes from one of the roots: it is an \<^verbatim>\<open>.arrow\<close> file there, its key spells the prefix, the
  root's mirror directory and its name, and only names under \<^verbatim>\<open>mirror-pending/\<close> count as pins.\<close>

definition root_key :: "string \<Rightarrow> string \<Rightarrow> string \<Rightarrow> string" where
  "root_key pre subdir name = (if subdir = [] then pre @ ''/'' @ name else pre @ ''/'' @ subdir @ ''/'' @ name)"

definition candidate_of :: "string \<Rightarrow> (path \<times> string) set \<Rightarrow> Candidate \<Rightarrow> bool" where
  "candidate_of pre roots c \<longleftrightarrow> extension (c_name c) = Some ''arrow'' \<and> c_key c = root_key pre (c_subdir c) (c_name c) \<and>
     (c_pinned c \<longrightarrow> (\<exists>dir. (dir, c_subdir c) \<in> roots \<and> c_path c = dir @ [MIRROR_PENDING_DIR, c_name c]))"

lemma add_candidate_of:
  assumes "arrow_in (dir @ [sub]) p" and "pinned \<longrightarrow> sub = MIRROR_PENDING_DIR" and "(dir, subdir) \<in> roots"
    and "\<forall>c \<in> set cs. candidate_of pre roots c"
  shows "\<forall>c \<in> set (add_candidate pre subdir pinned p cs). candidate_of pre roots c"
proof -
  obtain n where n: "p = dir @ [sub, n]" "extension n = Some ''arrow''" using assms(1) by (auto simp: arrow_in_def)
  have "candidate_of pre roots \<lparr>c_path = p, c_name = n, c_subdir = subdir, c_key = root_key pre subdir n, c_pinned = pinned\<rparr>"
    using n assms(2,3) by (auto simp: candidate_of_def)
  then show ?thesis using assms(4) n(1) by (auto simp: add_candidate_def file_name_def root_key_def Let_def)
qed

lemma fold_candidate_of:
  assumes "\<forall>p \<in> set ps. arrow_in (dir @ [sub]) p" and "pinned \<longrightarrow> sub = MIRROR_PENDING_DIR" and "(dir, subdir) \<in> roots"
  shows "\<forall>c \<in> set cs. candidate_of pre roots c \<Longrightarrow> \<forall>c \<in> set (fold (add_candidate pre subdir pinned) ps cs). candidate_of pre roots c"
  using assms(1)
proof (induction ps arbitrary: cs)
  case (Cons p ps)
  have "\<forall>c \<in> set (add_candidate pre subdir pinned p cs). candidate_of pre roots c"
    by (rule add_candidate_of [OF _ assms(2,3) Cons.prems(1)]) (use Cons.prems(2) in simp)
  then show ?case using Cons.IH Cons.prems(2) by simp
qed simp

lemma sweep_candidates_of:
  "sweep_candidates pre rs cs f = (cs', g) \<Longrightarrow> set rs \<subseteq> roots \<Longrightarrow> \<forall>c \<in> set cs. candidate_of pre roots c \<Longrightarrow>
    same_files f g \<and> (\<forall>c \<in> set cs'. candidate_of pre roots c)"
proof (induction pre rs cs f arbitrary: cs' g rule: sweep_candidates.induct)
  case (2 pre dir subdir rs cs f)
  obtain ps f' where o: "or_empty (list_pending dir) f = (ps, f')" by fastforce
  obtain ss f'' where o': "or_empty (list_sealed dir) f' = (ss, f'')" by fastforce
  have root: "(dir, subdir) \<in> roots" using "2.prems"(2) by simp
  have "same_files f f'" by (rule same_files_or_empty [OF o same_files_lists(2)])
  moreover have "same_files f' f''" using same_files_or_empty [OF o'] same_files_lists(1) by (simp add: list_sealed_def)
  ultimately have sf: "same_files f f''" by (rule same_files_trans)
  have c1: "\<forall>c \<in> set (fold (add_candidate pre subdir True) ps cs). candidate_of pre roots c"
    by (rule fold_candidate_of [OF _ _ root "2.prems"(3)]) (use list_pending_arrow [OF o] in auto)
  have c2: "\<forall>c \<in> set (fold (add_candidate pre subdir False) ss (fold (add_candidate pre subdir True) ps cs)). candidate_of pre roots c"
    by (rule fold_candidate_of [OF _ _ root c1]) (use list_sealed_arrow [OF o'] in auto)
  have "same_files f'' g \<and> (\<forall>c \<in> set cs'. candidate_of pre roots c)"
    by (rule "2.IH" [OF o [symmetric] refl o' [symmetric] refl refl refl _ _ c2]) (use "2.prems"(1,2) o o' in simp_all)
  then show ?case using same_files_trans [OF sf] by blast
qed simp

lemma arrow_last: "extension n = Some ''arrow'' \<Longrightarrow> n \<noteq> [] \<and> last n = CHR ''w''"
proof -
  assume "extension n = Some ''arrow''"
  then have "takeWhile (\<lambda>c. c \<noteq> CHR ''.'') (rev n) = rev ''arrow''"
    by (auto simp: extension_def Let_def rev_swap split: if_splits)
  then have "rev n \<noteq> []" "hd (rev n) = CHR ''w''" by (cases "rev n"; auto split: if_splits)+
  then show ?thesis by (simp add: hd_rev)
qed

lemma candidate_key_last: "candidate_of pre roots c \<Longrightarrow> last (c_key c) = CHR ''w''"
  using arrow_last [of "c_name c"] by (auto simp: candidate_of_def root_key_def)

lemma candidate_url: "candidate_of pre roots c \<Longrightarrow> pre \<noteq> [] \<Longrightarrow> hd pre \<noteq> slash \<Longrightarrow> ms_url (sweep_announcement c n) = c_key c"
  by (cases pre) (auto simp: sweep_announcement_def candidate_of_def root_key_def trim_start_matches_def Let_def case_prod_beta)

lemma remove_candidate_pin_frame: "q \<noteq> p \<Longrightarrow> ent (remove_candidate_pin p f) q = ent f q"
  by (auto simp: remove_candidate_pin_def qm_def ok_or_def fail_def ret_def std_remove_file_def sync_dir_def syscall_def Let_def set_ent_def ent_def
      split: option.splits prod.splits sum.splits node.splits if_splits)

lemma read_sweep_same: "same_files f (snd (read_sweep_candidate p f))"
proof -
  have rd: "same_files u (snd (std_read q u))" for q u
    using std_read_same [of q u "fst (std_read q u)" "snd (std_read q u)"] by simp
  have again: "same_files u (snd (qm (std_read q) (\<lambda>bs. ret (SweepBytes bs)) u))" for q u
    by (intro same_files_qm rd) simp
  obtain r g where a: "std_read p f = (r, g)" by fastforce
  have fg: "same_files f g" using rd [of f p] a by simp
  have "same_files g (snd (qm (std_read p) (\<lambda>bs. ret (SweepBytes bs)) g))" by (rule again)
  moreover have "same_files g (snd (case std_read (d @ [PROCESSING_DIR, n]) g of
                  (Inr bs, f) \<Rightarrow> (Inr (SweepBytes bs), f)
                | (Inl ENoEnt, f) \<Rightarrow>
                    if exists_path f (d @ [COMMITTED_DIR, n]) then (Inr LocallyCommitted, f)
                    else qm (std_read p) (\<lambda>bs. ret (SweepBytes bs)) f
                | (Inl e, f) \<Rightarrow> (Inl e, f)))" for d n
  proof -
    obtain q h where b: "std_read (d @ [PROCESSING_DIR, n]) g = (q, h)" by fastforce
    have "same_files g h" using rd [of g "d @ [PROCESSING_DIR, n]"] b by simp
    then show ?thesis using b same_files_trans [OF _ again [of h p]] by (auto split: sum.splits io_error.splits)
  qed
  ultimately show ?thesis using a fg same_files_trans [OF fg]
    by (auto simp: read_sweep_candidate_def split: sum.splits io_error.splits option.splits)
qed

text \<open>One turn: what was present stays, unless it is an active sibling; a turn that changes a local name
  is one that removed the candidate's pin and announced it; and what it announces is present.\<close>

lemma sweep_one_step:
  assumes laws: "store_laws op obj" and c: "candidate_of pre roots c" and run: "sweep_one op pre cleanup c (f, s) = (stop, new, g, t)"
  shows "obj s j \<noteq> None \<Longrightarrow> last j = CHR ''w'' \<Longrightarrow> obj t j \<noteq> None"
    and "ent g p \<noteq> ent f p \<Longrightarrow> c_pinned c \<and> p = c_path c \<and> (\<exists>n. new = [sweep_announcement c n])"
    and "ms \<in> set new \<Longrightarrow> (\<exists>n. ms = sweep_announcement c n) \<and> obj t (c_key c) \<noteq> None"
proof -
  define tidy where "tidy = (\<lambda>s. if cleanup then cleanup_active_partial op pre (candidate_suffix c) s else s)"
  define unpin where "unpin = (\<lambda>f. if c_pinned c then remove_candidate_pin (c_path c) f else f)"
  have tidy: "obj (tidy u) j = obj u j" if "last j = CHR ''w''" for u j
  proof -
    have "active_partial_key pre (candidate_suffix c) \<noteq> Some j" using active_key_last that by fastforce
    then show ?thesis using cleanup_frame [OF laws] by (simp add: tidy_def)
  qed
  have unpin: "ent (unpin u) p \<noteq> ent u p \<Longrightarrow> c_pinned c \<and> p = c_path c" for u p
    using remove_candidate_pin_frame [of p "c_path c" u] by (auto simp: unpin_def split: if_splits)
  note w = candidate_key_last [OF c]
  obtain q s1 where st: "op_stat op (c_key c) s = (q, s1)" by fastforce
  note sl = stat_lawD [OF laws st]
  have goal: "(\<forall>j. obj s j \<noteq> None \<longrightarrow> last j = CHR ''w'' \<longrightarrow> obj t j \<noteq> None) \<and>
      (\<forall>p. ent g p \<noteq> ent f p \<longrightarrow> c_pinned c \<and> p = c_path c \<and> (\<exists>n. new = [sweep_announcement c n])) \<and>
      (\<forall>ms \<in> set new. (\<exists>n. ms = sweep_announcement c n) \<and> obj t (c_key c) \<noteq> None)"
  proof (cases "q = Inl OpOther")
    case True
    then have "stop" "new = []" "g = f" "t = s1" using run st by (simp_all add: sweep_one_def)
    then show ?thesis using sl(1) by simp
  next
    case other: False
    define here where "here = (case q of Inr meta \<Rightarrow> if m_is_file meta then Some (m_content_length meta) else None | Inl _ \<Rightarrow> None)"
    have run': "(stop, new, g, t) = (case here of
             Some n \<Rightarrow> (False, if c_pinned c then [sweep_announcement c n] else [], unpin f, tidy s1)
           | None \<Rightarrow>
               (case read_sweep_candidate (c_path c) f of
                  (Inr (SweepBytes bs), f) \<Rightarrow>
                    (case op_write op (c_key c) bs s1 of
                       (Inl _, s) \<Rightarrow> (True, [], f, s)
                     | (Inr _, s) \<Rightarrow> (False, [sweep_announcement c (length bs)], unpin f, tidy s))
                | (Inr LocallyCommitted, f) \<Rightarrow> (False, [], f, s1)
                | (Inl _, f) \<Rightarrow> (False, [], f, s1)))"
      using run st other unfolding sweep_one_def here_def tidy_def unpin_def Let_def
      by (cases q) (auto split: op_error.splits)
    show ?thesis
    proof (cases here)
      case (Some n)
      then obtain meta where "q = Inr meta" "m_is_file meta" by (auto simp: here_def split: sum.splits if_splits)
      then have "obj s (c_key c) \<noteq> None" using sl(2) by blast
      then show ?thesis using run' Some tidy w unpin sl(1) by (auto split: if_splits)
    next
      case None
      obtain rd f' where r: "read_sweep_candidate (c_path c) f = (rd, f')" by fastforce
      have ef: "ent f' = ent f" using read_sweep_same [of f "c_path c"] r by (simp add: same_files_def)
      show ?thesis
      proof (cases "\<exists>bs. rd = Inr (SweepBytes bs)")
        case True
        then obtain bs where bs: "rd = Inr (SweepBytes bs)" by blast
        obtain wq s2 where wr: "op_write op (c_key c) bs s1 = (wq, s2)" by fastforce
        note wl = write_lawD [OF laws wr]
        have keep: "obj s2 j \<noteq> None" if "obj s j \<noteq> None" for j using that wl(1,3) sl(1) by (cases "j = c_key c") auto
        show ?thesis
        proof (cases wq)
          case (Inl e)
          then have "new = []" "g = f'" "t = s2" using run' None r bs wr by simp_all
          then show ?thesis using keep ef by simp
        next
          case (Inr x)
          then have "new = [sweep_announcement c (length bs)]" "g = unpin f'" "t = tidy s2" using run' None r bs wr by simp_all
          then show ?thesis using keep ef tidy unpin [of f'] w wl(2) [OF Inr] by auto
        qed
      next
        case False
        then have "new = []" "g = f'" "t = s1" using run' None r by (auto split: sum.splits SweepCandidateRead.splits)
        then show ?thesis using ef sl(1) by simp
      qed
    qed
  qed
  then show "obj s j \<noteq> None \<Longrightarrow> last j = CHR ''w'' \<Longrightarrow> obj t j \<noteq> None"
    and "ent g p \<noteq> ent f p \<Longrightarrow> c_pinned c \<and> p = c_path c \<and> (\<exists>n. new = [sweep_announcement c n])"
    and "ms \<in> set new \<Longrightarrow> (\<exists>n. ms = sweep_announcement c n) \<and> obj t (c_key c) \<noteq> None" by blast+
qed

definition present :: "('s \<Rightarrow> string \<rightharpoonup> bytes) \<Rightarrow> 's \<Rightarrow> MirroredSegment list \<Rightarrow> bool" where
  "present obj s up \<longleftrightarrow> (\<forall>ms \<in> set up. obj s (ms_url ms) \<noteq> None \<and> last (ms_url ms) = CHR ''w'')"

lemma sweep_loop_step:
  assumes laws: "store_laws op obj" and pre: "pre \<noteq> []" "hd pre \<noteq> slash"
  shows "\<forall>c \<in> set cs. candidate_of pre roots c \<Longrightarrow> sweep_loop op pre cleanup cs (f, s) up = (up', (g, t)) \<Longrightarrow> present obj s up \<Longrightarrow>
    present obj t up' \<and> set up \<subseteq> set up' \<and>
    (\<forall>p. ent g p \<noteq> ent f p \<longrightarrow> (\<exists>c \<in> set cs. c_pinned c \<and> p = c_path c \<and> (\<exists>n. sweep_announcement c n \<in> set up')))"
proof (induction cs arbitrary: f s up)
  case (Cons c cs)
  obtain stop new f' s' where one: "sweep_one op pre cleanup c (f, s) = (stop, new, f', s')" by (rule prod_cases4)
  have c: "candidate_of pre roots c" using Cons.prems(1) by simp
  note st = sweep_one_step [OF laws c one]
  have url: "ms_url ms = c_key c" if "ms \<in> set new" for ms using st(3) [OF that] candidate_url [OF c pre] by auto
  have pr: "present obj s' (up @ new)" unfolding present_def
  proof
    fix ms assume "ms \<in> set (up @ new)"
    then consider "ms \<in> set up" | "ms \<in> set new" by auto
    then show "obj s' (ms_url ms) \<noteq> None \<and> last (ms_url ms) = CHR ''w''"
    proof cases
      case 1
      then show ?thesis using Cons.prems(3) st(1) by (auto simp: present_def)
    next
      case 2
      then show ?thesis using st(3) [OF 2] url [OF 2] candidate_key_last [OF c] by auto
    qed
  qed
  show ?case
  proof (cases stop)
    case True
    then have "up' = up @ new" "g = f'" "t = s'" using Cons.prems(2) one by simp_all
    then show ?thesis using pr st(2) by fastforce
  next
    case False
    then have "sweep_loop op pre cleanup cs (f', s') (up @ new) = (up', (g, t))" using Cons.prems(2) one by simp
    then have ih: "present obj t up'" "set (up @ new) \<subseteq> set up'"
        "\<forall>p. ent g p \<noteq> ent f' p \<longrightarrow> (\<exists>c \<in> set cs. c_pinned c \<and> p = c_path c \<and> (\<exists>n. sweep_announcement c n \<in> set up'))"
      using Cons.IH [OF _ _ pr] Cons.prems(1) by simp_all
    have "\<exists>c' \<in> set (c # cs). c_pinned c' \<and> p = c_path c' \<and> (\<exists>n. sweep_announcement c' n \<in> set up')" if "ent g p \<noteq> ent f p" for p
    proof (cases "ent f' p = ent f p")
      case True
      then show ?thesis using ih(3) that by auto
    next
      case False
      then show ?thesis using st(2) [OF False] ih(2) by auto
    qed
    then show ?thesis using ih(1,2) by auto
  qed
qed (simp add: present_def)

lemma trim_matches_hd: "trim_matches c s \<noteq> [] \<Longrightarrow> hd (trim_matches c s) \<noteq> c"
proof -
  assume ne: "trim_matches c s \<noteq> []"
  let ?d = "dropWhile (\<lambda>x. x = c) s"
  have "?d = trim_matches c s @ rev (takeWhile (\<lambda>x. x = c) (rev ?d))"
    unfolding trim_matches_def by (metis rev_append rev_rev_ident takeWhile_dropWhile_id)
  then have "hd (trim_matches c s) = hd ?d" "?d \<noteq> []" using ne by (metis hd_append2, metis Nil_is_append_conv)
  then show ?thesis using hd_dropWhile [of "\<lambda>x. x = c" s] by simp
qed

text \<open>C36. The catch-up sweep never strands a segment either, however the store and the file system answer
  and wherever it stops: everything it returns for registration is in the store, and the only local
  names it changes are pins, each of a segment of one of the WAL roots whose object, under that
  root's own key, is in the store and returned for registration.\<close>

theorem sweep_never_strands:
  assumes laws: "store_laws op obj" and pre: "trim_matches slash pre \<noteq> []"
    and run: "catch_up_sweep_configured op pre root cleanup (f, s) = (up, (g, t))"
  shows "(\<forall>ms. ms \<in> set up \<longrightarrow> obj t (ms_url ms) \<noteq> None) \<and>
    (\<forall>p. ent g p \<noteq> ent f p \<longrightarrow>
      (\<exists>dir subdir name ms. (dir, subdir) \<in> set (fst (sweep_roots root f)) \<and> p = dir @ [MIRROR_PENDING_DIR, name] \<and>
         ms \<in> set up \<and> ms_url ms = root_key (trim_matches slash pre) subdir name))"
proof -
  obtain roots f1 where r: "sweep_roots root f = (roots, f1)" by fastforce
  obtain cs f2 where c: "sweep_candidates (trim_matches slash pre) roots [] f1 = (cs, f2)" by fastforce
  have sc: "same_files f1 f2 \<and> (\<forall>c \<in> set cs. candidate_of (trim_matches slash pre) (set roots) c)"
    by (rule sweep_candidates_of [OF c]) simp_all
  have loop: "sweep_loop op (trim_matches slash pre) cleanup cs (f2, s) [] = (up, (g, t))"
    using run r c by (simp add: catch_up_sweep_configured_def)
  have "ent f2 = ent f" using sweep_roots_same [OF r] sc by (simp add: same_files_def)
  moreover note st = sweep_loop_step [OF laws pre trim_matches_hd [OF pre] conjunct2 [OF sc] loop]
  have "\<exists>dir subdir name ms. (dir, subdir) \<in> set roots \<and> p = dir @ [MIRROR_PENDING_DIR, name] \<and>
         ms \<in> set up \<and> ms_url ms = root_key (trim_matches slash pre) subdir name" if changed: "ent g p \<noteq> ent f2 p" for p
  proof -
    obtain k n where k: "k \<in> set cs" "c_pinned k" "p = c_path k" "sweep_announcement k n \<in> set up"
      using st changed by (auto simp: present_def)
    have of: "candidate_of (trim_matches slash pre) (set roots) k" using sc k(1) by blast
    then obtain dir where "(dir, c_subdir k) \<in> set roots" "p = dir @ [MIRROR_PENDING_DIR, c_name k]"
      using k(2,3) by (auto simp: candidate_of_def)
    moreover have "ms_url (sweep_announcement k n) = root_key (trim_matches slash pre) (c_subdir k) (c_name k)"
      using candidate_url [OF of pre trim_matches_hd [OF pre]] of by (simp add: candidate_of_def)
    ultimately show ?thesis using k(4) by blast
  qed
  ultimately show ?thesis using st r by (simp add: present_def)
qed

text \<open>A segment pinned and not yet in the store: the sweep uploads it and drops the pin.\<close>

definition pinned_tree :: "(path \<times> node) list" where
  "pinned_tree = [([''w''], Dir), ([''w'', MIRROR_PENDING_DIR], Dir), ([''w'', MIRROR_PENDING_DIR, ''a.arrow''], File 0)]"

definition pinned_fs :: fs where
  "pinned_fs = fs_of pinned_tree (\<lambda>i. if i = 0 then [1, 2, 3] else [])"

definition plain_store :: "(string \<rightharpoonup> bytes) operator" where
  "plain_store = reset_store\<lparr>op_write := (\<lambda>k b s. (Inr (), s(k \<mapsto> b)))\<rparr>"

lemma plain_store_laws: "store_laws plain_store id"
  by (auto simp: store_laws_def write_law_def stat_law_def delete_law_def plain_store_def reset_store_def split: option.splits)

lemma pinned_swept:
  "ent (fst (snd (catch_up_sweep_configured plain_store ''wal'' [''w''] True (pinned_fs, Map.empty)))) [''w'', MIRROR_PENDING_DIR, ''a.arrow''] = None"
  "ent pinned_fs [''w'', MIRROR_PENDING_DIR, ''a.arrow''] = Some (File 0)"
  by code_simp+

theorem sweep_never_strands_witness:
  "\<exists>up g t. catch_up_sweep_configured plain_store ''wal'' [''w''] True (pinned_fs, Map.empty) = (up, (g, t)) \<and> up \<noteq> [] \<and>
     (\<forall>ms. ms \<in> set up \<longrightarrow> t (ms_url ms) \<noteq> None)"
proof -
  obtain up g t where run: "catch_up_sweep_configured plain_store ''wal'' [''w''] True (pinned_fs, Map.empty) = (up, (g, t))"
    by (rule prod_cases3)
  have pre: "trim_matches slash ''wal'' \<noteq> []" by code_simp
  have "ent g [''w'', MIRROR_PENDING_DIR, ''a.arrow''] \<noteq> ent pinned_fs [''w'', MIRROR_PENDING_DIR, ''a.arrow'']"
    using pinned_swept run by simp
  then have "up \<noteq> []" using sweep_never_strands [OF plain_store_laws pre run] by fastforce
  then show ?thesis using run sweep_never_strands [OF plain_store_laws pre run] by auto
qed

end
