(* ===== verification/Merge.thy ===== *)
theory Merge
  imports Prelude "HOL-Library.Multiset"
begin

text \<open>
  The streaming k-way merge of \<^verbatim>\<open>crates/loglake-storage/src/merge.rs\<close>, which compaction runs over
  inputs already sorted by timestamp: the run-length plan, its split into chunks, and the
  batch-by-batch merge. Timestamps are \<^verbatim>\<open>i64\<close> values as integers, with the wrapping negation the
  heap key uses. The batch type of the arrow crate is an argument, and so are reading its
  timestamp column and interleaving rows.
\<close>

record MergeRun =
  input_index :: nat
  start_row :: nat
  row_count :: nat

definition wrapping_neg :: "int \<Rightarrow> int" where
  "wrapping_neg x = (if x = - (2 ^ 63) then x else - x)"

text \<open>The heap key: one maximum-first order for both directions.\<close>

definition merge_key :: "bool \<Rightarrow> int \<Rightarrow> int" where
  "merge_key descending ts = (if descending then ts else wrapping_neg ts)"

section \<open>The heap\<close>

text \<open>\<^verbatim>\<open>BinaryHeap<(i64, Reverse<usize>)>\<close> as the list of what was pushed: \<^verbatim>\<open>pop\<close> removes the greatest,
  which has the best key and, among equals, the lowest index.\<close>

type_synonym head = "int \<times> nat"

definition beats :: "head \<Rightarrow> head \<Rightarrow> bool" where
  "beats a b \<longleftrightarrow> fst a > fst b \<or> fst a = fst b \<and> snd a \<le> snd b"

fun peek :: "head list \<Rightarrow> head option" where
  "peek [] = None"
| "peek (h # hs) = (case peek hs of None \<Rightarrow> Some h | Some m \<Rightarrow> if beats h m then Some h else Some m)"

definition pop :: "head list \<Rightarrow> (head \<times> head list) option" where
  "pop hs = map_option (\<lambda>m. (m, remove1 m hs)) (peek hs)"

section \<open>The plan\<close>

text \<open>\<^verbatim>\<open>partition_point\<close> on a slice the predicate splits.\<close>

definition partition_point :: "('a \<Rightarrow> bool) \<Rightarrow> 'a list \<Rightarrow> nat" where
  "partition_point p xs = length (takeWhile p xs)"

text \<open>The loop, with the number of rows left as the bound on its iterations; \<open>None\<close> is running out.\<close>

primrec plan_loop :: "nat \<Rightarrow> int list list \<Rightarrow> bool \<Rightarrow> head list \<Rightarrow> nat list \<Rightarrow> MergeRun list \<Rightarrow> MergeRun list option" where
  "plan_loop 0 inputs descending heap pos plan = (if pop heap = None then Some plan else None)"
| "plan_loop (Suc fuel) inputs descending heap pos plan =
     (case pop heap of
        None \<Rightarrow> Some plan
      | Some ((_, i), heap) \<Rightarrow>
          let a = inputs ! i;
              start = pos ! i;
              stop = (case peek heap of
                  None \<Rightarrow> length a
                | Some (rival_key, rival) \<Rightarrow>
                    start + partition_point (\<lambda>ts. let k = merge_key descending ts in
                        k > rival_key \<or> k = rival_key \<and> i < rival) (drop start a));
              plan = plan @ [\<lparr>input_index = i, start_row = start, row_count = stop - start\<rparr>];
              pos = pos[i := stop];
              heap = (if stop < length a then (merge_key descending (a ! stop), i) # heap else heap) in
          plan_loop fuel inputs descending heap pos plan)"

definition initial_heap :: "bool \<Rightarrow> int list list \<Rightarrow> head list" where
  "initial_heap descending inputs =
     map (\<lambda>(i, a). (merge_key descending (a ! 0), i)) (filter (\<lambda>(i, a). a \<noteq> []) (enumerate 0 inputs))"

definition compute_merge_plan :: "int list list \<Rightarrow> bool \<Rightarrow> MergeRun list option" where
  "compute_merge_plan inputs descending =
     plan_loop (sum_list (map length inputs)) inputs descending (initial_heap descending inputs)
       (replicate (length inputs) 0) []"

section \<open>Chunks\<close>

text \<open>The inner loop takes rows of one run until none remain; every iteration takes at least one,
  since the current chunk is never full.\<close>

function split_run :: "nat \<Rightarrow> nat \<Rightarrow> nat \<Rightarrow> nat \<Rightarrow> MergeRun list list \<Rightarrow> MergeRun list \<Rightarrow> nat \<Rightarrow> MergeRun list list \<times> MergeRun list \<times> nat" where
  "split_run chunk_rows ix start remaining chunks cur cur_rows =
     (if remaining = 0 \<or> cur_rows \<ge> chunk_rows then (chunks, cur, cur_rows)
      else
        let n = min remaining (chunk_rows - cur_rows);
            cur = cur @ [\<lparr>input_index = ix, start_row = start, row_count = n\<rparr>];
            cur_rows = cur_rows + n in
        if cur_rows = chunk_rows
        then split_run chunk_rows ix (start + n) (remaining - n) (chunks @ [cur]) [] 0
        else split_run chunk_rows ix (start + n) (remaining - n) chunks cur cur_rows)"
  by auto
termination by (relation "measure (\<lambda>(c, ix, s, r, ch, cur, n). r)") auto

declare split_run.simps [simp del]

fun split_loop :: "nat \<Rightarrow> MergeRun list \<Rightarrow> MergeRun list list \<Rightarrow> MergeRun list \<Rightarrow> nat \<Rightarrow> MergeRun list list \<times> MergeRun list \<times> nat" where
  "split_loop chunk_rows [] chunks cur cur_rows = (chunks, cur, cur_rows)"
| "split_loop chunk_rows (run # rest) chunks cur cur_rows =
     (let (chunks, cur, cur_rows) = split_run chunk_rows (input_index run) (start_row run) (row_count run) chunks cur cur_rows in
      split_loop chunk_rows rest chunks cur cur_rows)"

definition split_plan_chunks :: "MergeRun list \<Rightarrow> nat \<Rightarrow> MergeRun list list" where
  "split_plan_chunks plan chunk_rows =
     (let chunk_rows = max chunk_rows 1;
          (chunks, cur, _) = split_loop chunk_rows plan [] [] 0 in
      if cur \<noteq> [] then chunks @ [cur] else chunks)"

section \<open>The streaming merge\<close>

datatype merge_error = SourceError | BadTimestamp | InterleaveError

record 'b arrow =
  ar_rows :: "'b \<Rightarrow> nat"
  ar_nanos :: "'b \<Rightarrow> int list option"
  ar_interleave :: "'b list \<Rightarrow> (nat \<times> nat) list \<Rightarrow> 'b option"

text \<open>A source is what its stream will still yield.\<close>

type_synonym 'b source = "(merge_error + 'b) list"

record 'b kway =
  k_sources :: "'b source list"
  k_current :: "'b list"
  k_ts :: "int list list"
  k_pos :: "nat list"
  k_heap :: "head list"
  k_target :: nat
  k_descending :: bool
  k_started :: bool

definition kway_new :: "'b source list \<Rightarrow> nat \<Rightarrow> bool \<Rightarrow> 'b kway" where
  "kway_new sources target_rows descending =
     \<lparr>k_sources = sources, k_current = [], k_ts = [], k_pos = [], k_heap = [],
      k_target = max target_rows 1, k_descending = descending, k_started = False\<rparr>"

fun pull_nonempty :: "'b arrow \<Rightarrow> 'b source \<Rightarrow> (merge_error + 'b option) \<times> 'b source" where
  "pull_nonempty A [] = (Inr None, [])"
| "pull_nonempty A (Inl e # s) = (Inl e, s)"
| "pull_nonempty A (Inr b # s) = (if ar_rows A b > 0 then (Inr (Some b), s) else pull_nonempty A s)"

definition cache_ts_array :: "'b arrow \<Rightarrow> nat \<Rightarrow> 'b kway \<Rightarrow> 'b kway option" where
  "cache_ts_array A i k =
     map_option (\<lambda>arr. k\<lparr>k_ts := (if i < length (k_ts k) then (k_ts k)[i := arr] else k_ts k @ [arr])\<rparr>)
       (ar_nanos A (k_current k ! i))"

definition head_key :: "'b kway \<Rightarrow> nat \<Rightarrow> head" where
  "head_key k i = (merge_key (k_descending k) (k_ts k ! i ! (k_pos k ! i)), i)"

fun start_loop :: "'b arrow \<Rightarrow> 'b source list \<Rightarrow> 'b kway \<Rightarrow> (merge_error + unit) \<times> 'b kway" where
  "start_loop A [] k = (Inr (), k)"
| "start_loop A (s # rest) k =
     (case pull_nonempty A s of
        (Inl e, _) \<Rightarrow> (Inl e, k)
      | (Inr None, _) \<Rightarrow> start_loop A rest k
      | (Inr (Some b), s) \<Rightarrow>
          let i = length (k_current k);
              k = k\<lparr>k_current := k_current k @ [b], k_pos := k_pos k @ [0], k_sources := k_sources k @ [s]\<rparr> in
          (case cache_ts_array A i k of
             None \<Rightarrow> (Inl BadTimestamp, k)
           | Some k \<Rightarrow> start_loop A rest (k\<lparr>k_heap := head_key k i # k_heap k\<rparr>)))"

definition kway_start :: "'b arrow \<Rightarrow> 'b kway \<Rightarrow> (merge_error + unit) \<times> 'b kway" where
  "kway_start A k =
     (case start_loop A (k_sources k) (k\<lparr>k_sources := []\<rparr>) of
        (Inl e, k) \<Rightarrow> (Inl e, k)
      | (Inr _, k) \<Rightarrow> (Inr (), k\<lparr>k_started := True\<rparr>))"

text \<open>The heap loop of \<^verbatim>\<open>next_batch\<close>: the rows of the batch and the source to refill, if one crossed
  its batch boundary. It pushes one row each time, so \<open>k_target\<close> iterations are enough.\<close>

primrec pick_loop :: "nat \<Rightarrow> 'b arrow \<Rightarrow> 'b kway \<Rightarrow> (nat \<times> nat) list \<Rightarrow> (nat \<times> nat) list \<times> nat option \<times> 'b kway" where
  "pick_loop 0 A k indices = (indices, None, k)"
| "pick_loop (Suc n) A k indices =
     (case pop (k_heap k) of
        None \<Rightarrow> (indices, None, k)
      | Some ((_, i), heap) \<Rightarrow>
          let indices = indices @ [(i, k_pos k ! i)];
              k = k\<lparr>k_heap := heap, k_pos := (k_pos k)[i := k_pos k ! i + 1]\<rparr> in
          if k_pos k ! i \<ge> ar_rows A (k_current k ! i) then (indices, Some i, k)
          else
            let k = k\<lparr>k_heap := head_key k i # k_heap k\<rparr> in
            if length indices \<ge> k_target k then (indices, None, k) else pick_loop n A k indices)"

definition refill :: "'b arrow \<Rightarrow> nat \<Rightarrow> 'b kway \<Rightarrow> (merge_error + unit) \<times> 'b kway" where
  "refill A i k =
     (case pull_nonempty A (k_sources k ! i) of
        (Inl e, s) \<Rightarrow> (Inl e, k\<lparr>k_sources := (k_sources k)[i := s]\<rparr>)
      | (Inr None, s) \<Rightarrow> (Inr (), k\<lparr>k_sources := (k_sources k)[i := s]\<rparr>)
      | (Inr (Some b), s) \<Rightarrow>
          let k = k\<lparr>k_sources := (k_sources k)[i := s], k_current := (k_current k)[i := b], k_pos := (k_pos k)[i := 0]\<rparr> in
          (case cache_ts_array A i k of
             None \<Rightarrow> (Inl BadTimestamp, k)
           | Some k \<Rightarrow> (Inr (), k\<lparr>k_heap := head_key k i # k_heap k\<rparr>)))"

definition next_batch :: "'b arrow \<Rightarrow> 'b kway \<Rightarrow> (merge_error + 'b option) \<times> 'b kway" where
  "next_batch A k =
     (case (if k_started k then (Inr (), k) else kway_start A k) of
        (Inl e, k) \<Rightarrow> (Inl e, k)
      | (Inr _, k) \<Rightarrow>
          if k_current k = [] then (Inr None, k)
          else
            let (indices, boundary, k) = pick_loop (k_target k) A k [] in
            if indices = [] then (Inr None, k)
            else
              (case ar_interleave A (k_current k) indices of
                 None \<Rightarrow> (Inl InterleaveError, k)
               | Some batch \<Rightarrow>
                   (case boundary of
                      None \<Rightarrow> (Inr (Some batch), k)
                    | Some i \<Rightarrow>
                        (case refill A i k of
                           (Inl e, k) \<Rightarrow> (Inl e, k)
                         | (Inr _, k) \<Rightarrow> (Inr (Some batch), k)))))"

section \<open>Reference order\<close>

text \<open>A row is an input and a row number. The merged order is by key, best first, then by input, then
  by row.\<close>

abbreviation row_key :: "bool \<Rightarrow> int list list \<Rightarrow> nat \<Rightarrow> nat \<Rightarrow> int" where
  "row_key d inputs i r \<equiv> merge_key d (inputs ! i ! r)"

definition before :: "bool \<Rightarrow> int list list \<Rightarrow> nat \<times> nat \<Rightarrow> nat \<times> nat \<Rightarrow> bool" where
  "before d inputs = (\<lambda>(i, r) (j, s). row_key d inputs i r > row_key d inputs j s \<or>
     row_key d inputs i r = row_key d inputs j s \<and> (i < j \<or> i = j \<and> r < s))"

definition inputs_sorted :: "bool \<Rightarrow> int list list \<Rightarrow> bool" where
  "inputs_sorted d inputs \<longleftrightarrow> (\<forall>a \<in> set inputs. sorted_wrt (\<lambda>x y. merge_key d x \<ge> merge_key d y) a)"

definition rows_left :: "int list list \<Rightarrow> nat list \<Rightarrow> nat \<times> nat \<Rightarrow> bool" where
  "rows_left inputs pos = (\<lambda>(i, r). i < length inputs \<and> pos ! i \<le> r \<and> r < length (inputs ! i))"

text \<open>\<open>E\<close> is the merged order of the rows before the positions, and precedes every row left.\<close>

definition merged :: "bool \<Rightarrow> int list list \<Rightarrow> (nat \<times> nat) list \<Rightarrow> nat list \<Rightarrow> bool" where
  "merged d inputs E pos \<longleftrightarrow> length pos = length inputs \<and> (\<forall>i < length inputs. pos ! i \<le> length (inputs ! i)) \<and>
     sorted_wrt (before d inputs) E \<and> set E = {(i, r). i < length inputs \<and> r < pos ! i} \<and>
     (\<forall>e \<in> set E. \<forall>x. rows_left inputs pos x \<longrightarrow> before d inputs e x)"

lemma before_trans: "before d inputs a b \<Longrightarrow> before d inputs b c \<Longrightarrow> before d inputs a c"
  by (auto simp: before_def split: prod.splits)

lemma key_mono:
  assumes "inputs_sorted d inputs" and "i < length inputs" and "r \<le> s" and "s < length (inputs ! i)"
  shows "row_key d inputs i r \<ge> row_key d inputs i s"
proof (cases "r = s")
  case False
  have "sorted_wrt (\<lambda>x y. merge_key d x \<ge> merge_key d y) (inputs ! i)"
    using assms(1,2) by (auto simp: inputs_sorted_def)
  then show ?thesis using sorted_wrt_nth_less [of _ "inputs ! i" r s] False assms(3,4) by simp
qed simp

lemma merged_advance:
  assumes srt: "inputs_sorted d inputs" and m: "merged d inputs E pos" and i: "i < length inputs"
    and stop: "pos ! i \<le> stop" "stop \<le> length (inputs ! i)"
    and wins: "\<And>r j s. pos ! i \<le> r \<Longrightarrow> r < stop \<Longrightarrow> j \<noteq> i \<Longrightarrow> rows_left inputs pos (j, s) \<Longrightarrow> before d inputs (i, r) (j, s)"
  shows "merged d inputs (E @ map (Pair i) [pos ! i..<stop]) (pos[i := stop])"
proof -
  have own: "before d inputs (i, r) (i, s)" if "r < s" "s < length (inputs ! i)" for r s
    using key_mono [OF srt i, of r s] that by (auto simp: before_def)
  have len: "length pos = length inputs" using m by (simp add: merged_def)
  have left: "rows_left inputs pos x" "fst x = i \<longrightarrow> stop \<le> snd x" if "rows_left inputs (pos[i := stop]) x" for x
    using that stop(1) len i by (auto simp: rows_left_def nth_list_update split: if_splits)
  have "sorted_wrt (before d inputs) (map (Pair i) [pos ! i..<stop])"
    unfolding sorted_wrt_map by (rule sorted_wrt_mono_rel [OF _ sorted_wrt_upt]) (use own stop in auto)
  moreover have "before d inputs e (i, r)" if "e \<in> set E" "pos ! i \<le> r" "r < stop" for e r
    using m that i stop by (auto simp: merged_def rows_left_def)
  ultimately have "sorted_wrt (before d inputs) (E @ map (Pair i) [pos ! i..<stop])"
    using m by (auto simp: sorted_wrt_append merged_def)
  moreover have "set (E @ map (Pair i) [pos ! i..<stop]) = {(j, r). j < length inputs \<and> r < pos[i := stop] ! j}"
    using m i stop(1) len by (auto simp: merged_def nth_list_update split: if_splits)
  moreover have "before d inputs e x" if e: "e \<in> set (E @ map (Pair i) [pos ! i..<stop])" and x: "rows_left inputs (pos[i := stop]) x" for e x
  proof (cases "e \<in> set E")
    case True
    then show ?thesis using m left(1) [OF x] unfolding merged_def by blast
  next
    case False
    then obtain r where r: "e = (i, r)" "pos ! i \<le> r" "r < stop" using e by auto
    obtain j s where js: "x = (j, s)" by fastforce
    show ?thesis
    proof (cases "j = i")
      case True
      then show ?thesis using own [of r s] r left(2) [OF x] x js by (auto simp: rows_left_def)
    next
      case False
      then show ?thesis using wins [OF r(2,3), of j s] left(1) [OF x] js r(1) by simp
    qed
  qed
  moreover have "\<forall>j < length inputs. pos[i := stop] ! j \<le> length (inputs ! j)"
    using m i stop(2) len by (auto simp: merged_def nth_list_update)
  ultimately show ?thesis using len by (simp add: merged_def)
qed

section \<open>Heap facts\<close>

lemma beats_total: "beats a b \<or> beats b a"
  by (auto simp: beats_def)

lemma beats_trans: "beats a b \<Longrightarrow> beats b c \<Longrightarrow> beats a c"
  by (auto simp: beats_def)

lemma peek_None [simp]: "peek hs = None \<longleftrightarrow> hs = []"
  by (cases hs) (auto split: option.splits)

lemma peek_Some: "peek hs = Some m \<Longrightarrow> m \<in> set hs \<and> (\<forall>h \<in> set hs. beats m h)"
proof (induction hs arbitrary: m)
  case (Cons h hs)
  show ?case
  proof (cases "peek hs")
    case None
    then show ?thesis using Cons.prems by (auto simp: beats_def)
  next
    case (Some x)
    then have x: "x \<in> set hs" "\<forall>h \<in> set hs. beats x h" using Cons.IH by auto
    show ?thesis
    proof (cases "beats h x")
      case True
      then show ?thesis using Cons.prems Some x by (auto intro: beats_trans simp: beats_def)
    next
      case False
      then have "beats x h" using beats_total by blast
      then show ?thesis using Cons.prems Some x False by auto
    qed
  qed
qed simp

text \<open>The heap holds the heads of the inputs that have rows left.\<close>

definition heap_ok :: "bool \<Rightarrow> int list list \<Rightarrow> head list \<Rightarrow> nat list \<Rightarrow> bool" where
  "heap_ok d inputs heap pos \<longleftrightarrow> distinct heap \<and>
     set heap = {(row_key d inputs i (pos ! i), i) |i. i < length inputs \<and> pos ! i < length (inputs ! i)}"

lemma pop_heap_ok:
  assumes "heap_ok d inputs heap pos" and "pop heap = Some ((k, i), rest)"
  shows "i < length inputs" "pos ! i < length (inputs ! i)" "k = row_key d inputs i (pos ! i)"
    and "distinct rest"
    and "set rest = {(row_key d inputs j (pos ! j), j) |j. j < length inputs \<and> pos ! j < length (inputs ! j) \<and> j \<noteq> i}"
    and "\<forall>h \<in> set rest. beats (k, i) h"
proof -
  have pk: "peek heap = Some (k, i)" and rest: "rest = remove1 (k, i) heap"
    using assms(2) by (auto simp: pop_def)
  have mem: "(k, i) \<in> set heap" and best: "\<forall>h \<in> set heap. beats (k, i) h" using peek_Some [OF pk] by auto
  then show "i < length inputs" "pos ! i < length (inputs ! i)" "k = row_key d inputs i (pos ! i)"
    using assms(1) by (auto simp: heap_ok_def)
  show "distinct rest" using assms(1) rest by (simp add: heap_ok_def)
  have set: "set rest = set heap - {(k, i)}" using assms(1) rest by (simp add: heap_ok_def set_remove1_eq)
  then show "\<forall>h \<in> set rest. beats (k, i) h" using best by simp
  show "set rest = {(row_key d inputs j (pos ! j), j) |j. j < length inputs \<and> pos ! j < length (inputs ! j) \<and> j \<noteq> i}"
    unfolding set using assms(1) \<open>k = row_key d inputs i (pos ! i)\<close> by (auto simp: heap_ok_def)
qed

lemma heap_ok_push:
  assumes len: "length pos = length inputs" and i: "i < length inputs" and "distinct rest"
    and set: "set rest = {(row_key d inputs j (pos ! j), j) |j. j < length inputs \<and> pos ! j < length (inputs ! j) \<and> j \<noteq> i}"
  shows "heap_ok d inputs (if stop < length (inputs ! i) then (row_key d inputs i stop, i) # rest else rest) (pos[i := stop])"
proof -
  have eq: "{(row_key d inputs j (pos[i := stop] ! j), j) |j. j < length inputs \<and> pos[i := stop] ! j < length (inputs ! j)} =
      (if stop < length (inputs ! i) then {(row_key d inputs i stop, i)} else {}) \<union> set rest"
    unfolding set using len i by (auto simp: nth_list_update split: if_splits)
  have "(x, i) \<notin> set rest" for x unfolding set by auto
  then show ?thesis using assms(3) unfolding heap_ok_def eq by auto
qed

section \<open>The plan is the merged order\<close>

definition expand_run :: "MergeRun \<Rightarrow> (nat \<times> nat) list" where
  "expand_run r = map (Pair (input_index r)) [start_row r..<start_row r + row_count r]"

definition expand_plan :: "MergeRun list \<Rightarrow> (nat \<times> nat) list" where
  "expand_plan plan = concat (map expand_run plan)"

definition rows_remaining :: "int list list \<Rightarrow> nat list \<Rightarrow> nat" where
  "rows_remaining inputs pos = (\<Sum>i < length inputs. length (inputs ! i) - pos ! i)"

lemma rows_remaining_advance:
  assumes "i < length inputs" and "length pos = length inputs" and "pos ! i < stop" and "stop \<le> length (inputs ! i)"
  shows "rows_remaining inputs (pos[i := stop]) < rows_remaining inputs pos"
proof -
  have "(\<Sum>j < length inputs. length (inputs ! j) - pos[i := stop] ! j) < (\<Sum>j < length inputs. length (inputs ! j) - pos ! j)"
    by (rule sum_strict_mono_ex1) (use assms in \<open>auto simp: nth_list_update intro!: bexI [of _ i]\<close>)
  then show ?thesis by (simp add: rows_remaining_def)
qed

text \<open>Where the winner hands over: it takes at least its head, and all it takes precedes every row
  the others have left.\<close>

lemma handover_wins:
  assumes srt: "inputs_sorted d inputs" and h: "heap_ok d inputs heap pos" and pop: "pop heap = Some ((k, i), rest)"
    and stop: "stop = (case peek rest of None \<Rightarrow> length (inputs ! i)
      | Some (rk, rv) \<Rightarrow> pos ! i + partition_point (\<lambda>ts. let k = merge_key d ts in k > rk \<or> k = rk \<and> i < rv) (drop (pos ! i) (inputs ! i)))"
  shows "pos ! i < stop" "stop \<le> length (inputs ! i)"
    and "\<And>r j s. pos ! i \<le> r \<Longrightarrow> r < stop \<Longrightarrow> j \<noteq> i \<Longrightarrow> rows_left inputs pos (j, s) \<Longrightarrow> before d inputs (i, r) (j, s)"
proof -
  note p = pop_heap_ok [OF h pop]
  have "pos ! i < stop \<and> stop \<le> length (inputs ! i) \<and>
    (\<forall>r j s. pos ! i \<le> r \<longrightarrow> r < stop \<longrightarrow> j \<noteq> i \<longrightarrow> rows_left inputs pos (j, s) \<longrightarrow> before d inputs (i, r) (j, s))"
  proof (cases "peek rest")
    case None
    then have "rest = []" by simp
    have "\<not> rows_left inputs pos (j, s)" if "j \<noteq> i" for j s
    proof
      assume "rows_left inputs pos (j, s)"
      then have "(row_key d inputs j (pos ! j), j) \<in> set rest" unfolding p(5) using that by (auto simp: rows_left_def)
      then show False using \<open>rest = []\<close> by simp
    qed
    then show ?thesis using stop None p(2) by auto
  next
    case (Some m)
    obtain rk rv where m: "m = (rk, rv)" by fastforce
    let ?win = "\<lambda>ts. merge_key d ts > rk \<or> merge_key d ts = rk \<and> i < rv" and ?a = "inputs ! i"
    have rival: "(rk, rv) \<in> set rest" "\<forall>h \<in> set rest. beats (rk, rv) h" using peek_Some [OF Some] m by auto
    have "rv \<noteq> i" using rival(1) unfolding p(5) by auto
    then have "?win (?a ! (pos ! i))" using p(3,6) rival(1) by (auto simp: beats_def)
    moreover have "drop (pos ! i) ?a = ?a ! (pos ! i) # drop (Suc (pos ! i)) ?a"
      using p(2) by (simp add: Cons_nth_drop_Suc)
    moreover have st: "stop = pos ! i + length (takeWhile ?win (drop (pos ! i) ?a))"
      using stop Some m by (simp add: partition_point_def Let_def)
    ultimately have lt: "pos ! i < stop" by simp
    have "length (takeWhile ?win (drop (pos ! i) ?a)) \<le> length (drop (pos ! i) ?a)"
      by (rule length_takeWhile_le)
    then have le: "stop \<le> length ?a" using st p(2) by simp
    have win: "?win (?a ! r)" if r: "pos ! i \<le> r" "r < stop" for r
    proof -
      have n: "r - pos ! i < length (takeWhile ?win (drop (pos ! i) ?a))" using r st by simp
      then have "?win (takeWhile ?win (drop (pos ! i) ?a) ! (r - pos ! i))"
        using nth_mem [OF n] by (blast dest: set_takeWhileD)
      moreover have "takeWhile ?win (drop (pos ! i) ?a) ! (r - pos ! i) = ?a ! r"
        using takeWhile_nth [OF n] r p(2) by simp
      ultimately show ?thesis by simp
    qed
    have "before d inputs (i, r) (j, s)" if "pos ! i \<le> r" "r < stop" "j \<noteq> i" "rows_left inputs pos (j, s)" for r j s
    proof -
      have js: "j < length inputs" "pos ! j \<le> s" "s < length (inputs ! j)" using that(4) by (auto simp: rows_left_def)
      then have "(row_key d inputs j (pos ! j), j) \<in> set rest" unfolding p(5) using that(3) by auto
      then have "beats (rk, rv) (row_key d inputs j (pos ! j), j)" using rival(2) by blast
      moreover have "row_key d inputs j (pos ! j) \<ge> row_key d inputs j s" by (rule key_mono [OF srt js])
      ultimately show ?thesis using win [OF that(1,2)] by (auto simp: before_def beats_def)
    qed
    with lt le show ?thesis by blast
  qed
  then show "pos ! i < stop" "stop \<le> length (inputs ! i)"
    and "\<And>r j s. pos ! i \<le> r \<Longrightarrow> r < stop \<Longrightarrow> j \<noteq> i \<Longrightarrow> rows_left inputs pos (j, s) \<Longrightarrow> before d inputs (i, r) (j, s)"
    by blast+
qed

lemma merged_done:
  assumes m: "merged d inputs E pos" and h: "heap_ok d inputs [] pos"
  shows "pos = map length inputs"
proof (rule nth_equalityI)
  show "length pos = length (map length inputs)" using m by (simp add: merged_def)
  fix i assume "i < length pos"
  then have i: "i < length inputs" using m by (simp add: merged_def)
  then have "pos ! i \<le> length (inputs ! i)" using m by (simp add: merged_def)
  moreover have "\<not> pos ! i < length (inputs ! i)" using h i by (simp add: heap_ok_def)
  ultimately show "pos ! i = map length inputs ! i" using i by simp
qed

lemma no_rows_no_heads:
  assumes "heap_ok d inputs heap pos" and "rows_remaining inputs pos = 0"
  shows "heap = []"
proof -
  have "\<not> pos ! i < length (inputs ! i)" if "i < length inputs" for i
    using assms(2) that unfolding rows_remaining_def sum_eq_0_iff [OF finite_lessThan] by (simp add: Ball_def leD)
  then have "h \<notin> set heap" for h using assms(1) unfolding heap_ok_def by auto
  then show ?thesis by (cases heap) auto
qed

lemma plan_loop_merged:
  assumes srt: "inputs_sorted d inputs"
  shows "merged d inputs (expand_plan plan) pos \<Longrightarrow> heap_ok d inputs heap pos \<Longrightarrow> rows_remaining inputs pos \<le> fuel \<Longrightarrow>
    \<exists>plan'. plan_loop fuel inputs d heap pos plan = Some plan' \<and> merged d inputs (expand_plan plan') (map length inputs)"
proof (induction fuel arbitrary: heap pos plan)
  case (0 heap pos plan)
  have h: "heap = []" by (rule no_rows_no_heads [OF 0(2)]) (use 0(3) in simp)
  have "pos = map length inputs" by (rule merged_done [OF 0(1)]) (use 0(2) h in simp)
  then show ?case using 0(1) h by (simp add: pop_def)
next
  case (Suc fuel heap pos plan)
  have len: "length pos = length inputs" using Suc.prems(1) by (simp add: merged_def)
  show ?case
  proof (cases "pop heap")
    case None
    then have h: "heap = []" by (simp add: pop_def)
    have "pos = map length inputs" by (rule merged_done [OF Suc.prems(1)]) (use Suc.prems(2) h in simp)
    then show ?thesis using None Suc.prems(1) by simp
  next
    case (Some x)
    obtain k i rest where x: "x = ((k, i), rest)" by (cases x) auto
    define stop where "stop = (case peek rest of None \<Rightarrow> length (inputs ! i)
      | Some (rk, rv) \<Rightarrow> pos ! i + partition_point (\<lambda>ts. let k = merge_key d ts in k > rk \<or> k = rk \<and> i < rv) (drop (pos ! i) (inputs ! i)))"
    have pop: "pop heap = Some ((k, i), rest)" using Some x by simp
    note p = pop_heap_ok [OF Suc.prems(2) pop] and w = handover_wins [OF srt Suc.prems(2) pop stop_def]
    let ?run = "\<lparr>input_index = i, start_row = pos ! i, row_count = stop - pos ! i\<rparr>"
    let ?heap = "if stop < length (inputs ! i) then (merge_key d (inputs ! i ! stop), i) # rest else rest"
    have "expand_plan (plan @ [?run]) = expand_plan plan @ map (Pair i) [pos ! i..<stop]"
      using w(1) by (simp add: expand_plan_def expand_run_def)
    then have "merged d inputs (expand_plan (plan @ [?run])) (pos[i := stop])"
      using merged_advance [OF srt Suc.prems(1) p(1) less_imp_le [OF w(1)] w(2,3)] by simp
    moreover have "heap_ok d inputs ?heap (pos[i := stop])" by (rule heap_ok_push [OF len p(1,4,5)])
    moreover have "rows_remaining inputs (pos[i := stop]) \<le> fuel"
      using rows_remaining_advance [OF p(1) len w(1,2)] Suc.prems(3) by simp
    ultimately have "\<exists>plan'. plan_loop fuel inputs d ?heap (pos[i := stop]) (plan @ [?run]) = Some plan' \<and>
        merged d inputs (expand_plan plan') (map length inputs)"
      by (rule Suc.IH)
    then show ?thesis by (simp add: pop stop_def [symmetric] Let_def split: if_splits)
  qed
qed

lemma initial_heap_ok: "heap_ok d inputs (initial_heap d inputs) (replicate (length inputs) 0)"
proof -
  have "set (initial_heap d inputs) = {(row_key d inputs i 0, i) |i. i < length inputs \<and> 0 < length (inputs ! i)}"
    by (force simp: initial_heap_def in_set_enumerate_eq image_iff)
  moreover have "distinct (map snd (initial_heap d inputs))"
  proof -
    have "map snd (initial_heap d inputs) = map fst (filter (\<lambda>(i, a). a \<noteq> []) (enumerate 0 inputs))"
      by (simp add: initial_heap_def case_prod_beta comp_def)
    then show ?thesis by (simp add: distinct_map_filter)
  qed
  moreover have "{(row_key d inputs i (replicate (length inputs) 0 ! i), i) |i. i < length inputs \<and> replicate (length inputs) 0 ! i < length (inputs ! i)} =
      {(row_key d inputs i 0, i) |i. i < length inputs \<and> 0 < length (inputs ! i)}"
    by (metis (no_types, lifting) nth_replicate)
  ultimately show ?thesis unfolding heap_ok_def by (simp add: distinct_map)
qed

lemma initial_rows: "rows_remaining inputs (replicate (length inputs) 0) = sum_list (map length inputs)"
  by (simp add: rows_remaining_def sum_list_sum_nth atLeast0LessThan)

lemma compute_merge_plan_merged:
  assumes "inputs_sorted d inputs"
  shows "\<exists>plan. compute_merge_plan inputs d = Some plan \<and> merged d inputs (expand_plan plan) (map length inputs)"
  unfolding compute_merge_plan_def
  by (rule plan_loop_merged [OF assms _ initial_heap_ok])
     (simp_all add: initial_rows merged_def expand_plan_def)

text \<open>Timestamps in their own order, ties by input and then by row.\<close>

definition row_ts :: "int list list \<Rightarrow> nat \<times> nat \<Rightarrow> int" where
  "row_ts inputs x = inputs ! fst x ! snd x"

definition precedes :: "bool \<Rightarrow> int list list \<Rightarrow> nat \<times> nat \<Rightarrow> nat \<times> nat \<Rightarrow> bool" where
  "precedes d inputs x y \<longleftrightarrow> (if d then row_ts inputs x > row_ts inputs y else row_ts inputs x < row_ts inputs y) \<or>
     row_ts inputs x = row_ts inputs y \<and> (fst x < fst y \<or> fst x = fst y \<and> snd x < snd y)"

definition timestamps_sorted :: "bool \<Rightarrow> int list list \<Rightarrow> bool" where
  "timestamps_sorted d inputs \<longleftrightarrow> (\<forall>a \<in> set inputs. sorted_wrt (\<lambda>x y. if d then y \<le> x else x \<le> y) a)"

definition above_min :: "int list list \<Rightarrow> bool" where
  "above_min inputs \<longleftrightarrow> (\<forall>a \<in> set inputs. \<forall>ts \<in> set a. - (2 ^ 63) < ts)"

lemma merge_key_order:
  assumes "d \<or> - (2 ^ 63) < x \<and> - (2 ^ 63) < y"
  shows "merge_key d x > merge_key d y \<longleftrightarrow> (if d then x > y else x < y)" "merge_key d x = merge_key d y \<longleftrightarrow> x = y"
  using assms by (auto simp: merge_key_def wrapping_neg_def)

lemma timestamps_inputs_sorted:
  assumes "timestamps_sorted d inputs" and "d \<or> above_min inputs"
  shows "inputs_sorted d inputs"
  unfolding inputs_sorted_def
proof
  fix a assume a: "a \<in> set inputs"
  show "sorted_wrt (\<lambda>x y. merge_key d y \<le> merge_key d x) a"
  proof (rule sorted_wrt_mono_rel)
    show "sorted_wrt (\<lambda>x y. if d then y \<le> x else x \<le> y) a" using assms(1) a by (simp add: timestamps_sorted_def)
    fix x y assume "x \<in> set a" "y \<in> set a" "if d then y \<le> x else x \<le> y"
    then show "merge_key d y \<le> merge_key d x"
      using assms(2) a by (auto simp: merge_key_def wrapping_neg_def above_min_def split: if_splits)
  qed
qed

lemma before_precedes:
  assumes "d \<or> above_min inputs" and "fst x < length inputs" "snd x < length (inputs ! fst x)"
    and "fst y < length inputs" "snd y < length (inputs ! fst y)"
  shows "before d inputs x y \<longleftrightarrow> precedes d inputs x y"
proof -
  have "- (2 ^ 63) < row_ts inputs z" if "above_min inputs" "fst z < length inputs" "snd z < length (inputs ! fst z)" for z
    using that unfolding above_min_def row_ts_def by (meson nth_mem)
  then have "d \<or> - (2 ^ 63) < row_ts inputs x \<and> - (2 ^ 63) < row_ts inputs y"
    using assms by blast
  note k = merge_key_order [OF this]
  show ?thesis using k by (auto simp: before_def precedes_def row_ts_def case_prod_beta split: if_splits)
qed

text \<open>C30. For inputs sorted by timestamp (ascending ones without the least \<^verbatim>\<open>i64\<close>),
  \<^verbatim>\<open>compute_merge_plan\<close> terminates within one iteration per row, and the plan lists every row of every
  input exactly once, in timestamp order with ties by input and row.\<close>

theorem merge_plan_is_sorted_order:
  assumes "timestamps_sorted d inputs" and "d \<or> above_min inputs"
  shows "\<exists>plan. compute_merge_plan inputs d = Some plan \<and> sorted_wrt (precedes d inputs) (expand_plan plan) \<and>
    distinct (expand_plan plan) \<and> set (expand_plan plan) = {(i, r). i < length inputs \<and> r < length (inputs ! i)}"
proof -
  obtain plan where plan: "compute_merge_plan inputs d = Some plan" and m: "merged d inputs (expand_plan plan) (map length inputs)"
    using compute_merge_plan_merged [OF timestamps_inputs_sorted [OF assms]] by blast
  have rows: "set (expand_plan plan) = {(i, r). i < length inputs \<and> r < length (inputs ! i)}"
    using m by (auto simp: merged_def)
  have "sorted_wrt (before d inputs) (expand_plan plan)" using m by (simp add: merged_def)
  then have s: "sorted_wrt (precedes d inputs) (expand_plan plan)"
    by (rule sorted_wrt_mono_rel [rotated]) (use before_precedes [OF assms(2)] rows in auto)
  then have "distinct (expand_plan plan)"
    by (auto simp: distinct_conv_nth sorted_wrt_iff_nth_less precedes_def nat_neq_iff) (metis less_irrefl)+
  with plan s rows show ?thesis by blast
qed

theorem merge_plan_is_sorted_order_witness:
  "timestamps_sorted True [[9, 4, 4], [], [8, 4]] \<and>
   (\<exists>plan. compute_merge_plan [[9, 4, 4], [], [8, 4]] True = Some plan \<and>
     sorted_wrt (precedes True [[9, 4, 4], [], [8, 4]]) (expand_plan plan))"
  using merge_plan_is_sorted_order [of True "[[9, 4, 4], [], [8, 4]]"] by (auto simp: timestamps_sorted_def)


section \<open>Chunks keep the rows\<close>

definition plan_rows :: "MergeRun list \<Rightarrow> nat" where
  "plan_rows plan = sum_list (map row_count plan)"

definition split_ok :: "nat \<Rightarrow> MergeRun list list \<times> MergeRun list \<times> nat \<Rightarrow> bool" where
  "split_ok n = (\<lambda>(chunks, cur, cur_rows). cur_rows = plan_rows cur \<and> cur_rows < n \<and>
     (\<forall>c \<in> set chunks. plan_rows c = n) \<and> (\<forall>run \<in> set (concat chunks @ cur). 0 < row_count run))"

definition split_rows :: "MergeRun list list \<times> MergeRun list \<times> nat \<Rightarrow> (nat \<times> nat) list" where
  "split_rows = (\<lambda>(chunks, cur, cur_rows). expand_plan (concat chunks @ cur))"

lemma expand_plan_simps [simp]: "expand_plan [] = []" "expand_plan (r # p) = expand_run r @ expand_plan p" "expand_plan (p @ q) = expand_plan p @ expand_plan q"
  by (simp_all add: expand_plan_def)

lemma plan_rows_simps [simp]: "plan_rows [] = 0" "plan_rows (r # p) = row_count r + plan_rows p" "plan_rows (p @ q) = plan_rows p + plan_rows q"
  by (simp_all add: plan_rows_def)

lemma expand_run_split:
  "n \<le> m \<Longrightarrow> expand_run \<lparr>input_index = i, start_row = s, row_count = n\<rparr> @ expand_run \<lparr>input_index = i, start_row = s + n, row_count = m - n\<rparr> =
    expand_run \<lparr>input_index = i, start_row = s, row_count = m\<rparr>"
proof -
  assume "n \<le> m"
  then have "[s..<s + m] = [s..<s + n] @ [s + n..<s + m]" by (metis le_add1 add_le_cancel_left upt_add_eq_append le_add_diff_inverse)
  then show ?thesis using \<open>n \<le> m\<close> by (simp add: expand_run_def)
qed

lemma split_run_ok:
  "split_ok n (chunks, cur, cur_rows) \<Longrightarrow>
    split_ok n (split_run n ix start remaining chunks cur cur_rows) \<and>
    split_rows (split_run n ix start remaining chunks cur cur_rows) =
      split_rows (chunks, cur, cur_rows) @ expand_run \<lparr>input_index = ix, start_row = start, row_count = remaining\<rparr>"
proof (induction n ix start remaining chunks cur cur_rows rule: split_run.induct)
  case (1 n ix start remaining chunks cur cur_rows)
  let ?m = "min remaining (n - cur_rows)"
  let ?run = "\<lparr>input_index = ix, start_row = start, row_count = ?m\<rparr>"
  have lt: "cur_rows < n" using 1(3) by (simp add: split_ok_def)
  show ?case
  proof (cases "remaining = 0")
    case True
    then show ?thesis using 1(3) by (simp add: split_run.simps [of n ix start 0] expand_run_def)
  next
    case False
    then have go: "\<not> (remaining = 0 \<or> n \<le> cur_rows)" using lt by simp
    have rows: "expand_run ?run @ expand_run \<lparr>input_index = ix, start_row = start + ?m, row_count = remaining - ?m\<rparr> =
        expand_run \<lparr>input_index = ix, start_row = start, row_count = remaining\<rparr>"
      by (rule expand_run_split) simp
    show ?thesis
    proof (cases "cur_rows + ?m = n")
      case True
      have "split_ok n (chunks @ [cur @ [?run]], [], 0)"
        using 1(3) True False lt by (auto simp: split_ok_def)
      note ih = 1(1) [OF go refl refl refl True this]
      have "split_run n ix start remaining chunks cur cur_rows =
          split_run n ix (start + ?m) (remaining - ?m) (chunks @ [cur @ [?run]]) [] 0"
        using go True by (subst split_run.simps) (simp only: Let_def if_False if_True simp_thms)
      then show ?thesis using ih rows by (simp only: split_rows_def) simp
    next
      case False
      have "split_ok n (chunks, cur @ [?run], cur_rows + ?m)"
        using 1(3) False go lt by (auto simp: split_ok_def)
      note ih = 1(2) [OF go refl refl refl False this]
      have "split_run n ix start remaining chunks cur cur_rows =
          split_run n ix (start + ?m) (remaining - ?m) chunks (cur @ [?run]) (cur_rows + ?m)"
        using go False by (subst split_run.simps) (simp only: Let_def if_False)
      then show ?thesis using ih rows by (simp only: split_rows_def) simp
    qed
  qed
qed

lemma split_loop_ok:
  "split_ok n (chunks, cur, cur_rows) \<Longrightarrow>
    split_ok n (split_loop n plan chunks cur cur_rows) \<and>
    split_rows (split_loop n plan chunks cur cur_rows) = split_rows (chunks, cur, cur_rows) @ expand_plan plan"
proof (induction plan arbitrary: chunks cur cur_rows)
  case (Cons run plan)
  obtain chunks' cur' rows' where s: "split_run n (input_index run) (start_row run) (row_count run) chunks cur cur_rows = (chunks', cur', rows')"
    using prod_cases3 by blast
  have r: "\<lparr>input_index = input_index run, start_row = start_row run, row_count = row_count run\<rparr> = run" by simp
  have k: "split_ok n (chunks', cur', rows')" "split_rows (chunks', cur', rows') = split_rows (chunks, cur, cur_rows) @ expand_run run"
    using split_run_ok [OF Cons.prems, of "input_index run" "start_row run" "row_count run"] unfolding s r by simp_all
  show ?case using Cons.IH [OF k(1)] k(2) s by simp
qed simp

text \<open>C31. \<^verbatim>\<open>split_plan_chunks\<close> keeps the row order of the plan; every chunk but the last has exactly the chunk
  size, the last at least one row and at most the chunk size, and no run is empty.\<close>

theorem chunks_partition_plan:
  "expand_plan (concat (split_plan_chunks plan chunk_rows)) = expand_plan plan \<and>
   (\<forall>c. c \<in> set (butlast (split_plan_chunks plan chunk_rows)) \<longrightarrow> plan_rows c = max chunk_rows 1) \<and>
   (\<forall>c. c \<in> set (split_plan_chunks plan chunk_rows) \<longrightarrow>
      0 < plan_rows c \<and> plan_rows c \<le> max chunk_rows 1 \<and> (\<forall>run. run \<in> set c \<longrightarrow> 0 < row_count run))"
proof -
  obtain chunks cur rows where s: "split_loop (max chunk_rows 1) plan [] [] 0 = (chunks, cur, rows)"
    using prod_cases3 by blast
  have "split_ok (max chunk_rows 1) ([], [], 0)" by (simp add: split_ok_def)
  note ok = split_loop_ok [OF this, of plan, unfolded s]
  have runs: "\<forall>run \<in> set (concat chunks @ cur). 0 < row_count run" "rows = plan_rows cur" "rows < max chunk_rows 1" "\<forall>c \<in> set chunks. plan_rows c = max chunk_rows 1"
    using ok by (simp_all add: split_ok_def)
  have result: "split_plan_chunks plan chunk_rows = (if cur \<noteq> [] then chunks @ [cur] else chunks)"
    unfolding split_plan_chunks_def Let_def s by simp
  have "0 < plan_rows cur" if "cur \<noteq> []" using that runs(1) by (cases cur) auto
  moreover have "expand_plan (concat (split_plan_chunks plan chunk_rows)) = expand_plan plan"
    using ok by (cases cur) (auto simp: split_rows_def result)
  moreover have "plan_rows c = max chunk_rows 1" if "c \<in> set (butlast (split_plan_chunks plan chunk_rows))" for c
    using that runs(4) unfolding result by (auto dest: in_set_butlastD split: if_splits)
  moreover have "0 < row_count run" if "c \<in> set (split_plan_chunks plan chunk_rows)" "run \<in> set c" for c run
    using that runs(1) unfolding result by (auto split: if_splits)
  moreover have "c \<in> set chunks \<or> c = cur \<and> cur \<noteq> []" if "c \<in> set (split_plan_chunks plan chunk_rows)" for c
    using that unfolding result by (auto split: if_splits)
  ultimately show ?thesis using runs(2-4) by (metis less_imp_le less_max_iff_disj order_refl zero_less_one)
qed

theorem chunks_partition_plan_witness:
  "map plan_rows (split_plan_chunks [\<lparr>input_index = 0, start_row = 2, row_count = 5\<rparr>, \<lparr>input_index = 1, start_row = 0, row_count = 2\<rparr>] 3) = [3, 3, 1] \<and>
   expand_plan (concat (split_plan_chunks [\<lparr>input_index = 0, start_row = 2, row_count = 5\<rparr>, \<lparr>input_index = 1, start_row = 0, row_count = 2\<rparr>] 3)) =
     [(0, 2), (0, 3), (0, 4), (0, 5), (0, 6), (1, 0), (1, 1)]"
proof -
  note chunks_partition_plan [of "[\<lparr>input_index = 0, start_row = 2, row_count = 5\<rparr>, \<lparr>input_index = 1, start_row = 0, row_count = 2\<rparr>]" 3]
  then have "expand_plan (concat (split_plan_chunks [\<lparr>input_index = 0, start_row = 2, row_count = 5\<rparr>, \<lparr>input_index = 1, start_row = 0, row_count = 2\<rparr>] 3)) =
     [(0, 2), (0, 3), (0, 4), (0, 5), (0, 6), (1, 0), (1, 1)]"
    by (simp add: expand_run_def upt_rec)
  moreover have "map plan_rows (split_plan_chunks [\<lparr>input_index = 0, start_row = 2, row_count = 5\<rparr>, \<lparr>input_index = 1, start_row = 0, row_count = 2\<rparr>] 3) = [3, 3, 1]"
    by (simp add: split_plan_chunks_def split_run.simps)
  ultimately show ?thesis by blast
qed

end
