(* ===== verification/Scaling.thy ===== *)
theory Scaling
  imports Complex_Main Prelude
begin

text \<open>
  The autoscaling decisions of \<^verbatim>\<open>crates/loglake-operator/src/scaling.rs\<close>. Floating-point readings
  are rationals, so rounding is not modelled; the power of one half in the smoothing factor is an
  argument. Instants and durations are nanoseconds, replica counts integers, and the cast to
  \<^verbatim>\<open>i32\<close> saturates as Rust's does.
\<close>

record ComponentAutoscale =
  as_min :: int
  as_max :: int
  as_target :: rat

record autoscaling =
  as_ingester :: ComponentAutoscale
  as_compactor :: ComponentAutoscale
  as_query :: ComponentAutoscale

record ObservedMetrics =
  m_ingester :: rat
  m_compactor :: rat
  m_query :: rat

record ObservedSamples =
  o_ingester :: "rat option"
  o_compactor :: "rat option"
  o_query :: "rat option"

definition default_samples :: ObservedSamples where
  "default_samples = \<lparr>o_ingester = None, o_compactor = None, o_query = None\<rparr>"

definition all_absent :: "ObservedSamples \<Rightarrow> bool" where
  "all_absent s \<longleftrightarrow> o_ingester s = None \<and> o_compactor s = None \<and> o_query s = None"

definition from_metrics :: "ObservedMetrics \<Rightarrow> ObservedSamples" where
  "from_metrics m = \<lparr>o_ingester = Some (m_ingester m), o_compactor = Some (m_compactor m), o_query = Some (m_query m)\<rparr>"

definition from_metrics_option :: "ObservedMetrics option \<Rightarrow> ObservedSamples" where
  "from_metrics_option m = (case m of None \<Rightarrow> default_samples | Some m \<Rightarrow> from_metrics m)"

datatype Load = PerPod | Shared

definition uses_catalog_claim :: "ComponentAutoscale \<Rightarrow> bool" where
  "uses_catalog_claim policy \<longleftrightarrow> as_max policy > 1"

definition compactor_load :: "ComponentAutoscale \<Rightarrow> Load" where
  "compactor_load policy = (if uses_catalog_claim policy then Shared else PerPod)"

record Replicas =
  r_ingester :: int
  r_compactor :: int
  r_query :: int

definition SCALE_DEADBAND :: rat where "SCALE_DEADBAND = 1 / 10"

text \<open>\<^verbatim>\<open>Ord::clamp\<close> panics when the bounds cross; the policies that reach it are validated first.\<close>

definition clamp :: "'a::linorder \<Rightarrow> 'a \<Rightarrow> 'a \<Rightarrow> 'a" where
  "clamp x lo hi = (if x < lo then lo else if x > hi then hi else x)"

definition as_i32 :: "int \<Rightarrow> int" where
  "as_i32 x = clamp x (- (2 ^ 31)) (2 ^ 31 - 1)"

definition replicas_without_signal :: "ComponentAutoscale \<Rightarrow> int \<Rightarrow> int" where
  "replicas_without_signal policy current =
     (if current \<le> 0 then max (as_min policy) 1
      else clamp current (as_min policy) (max (as_max policy) (as_min policy)))"

definition decide :: "ComponentAutoscale \<Rightarrow> rat \<Rightarrow> int \<Rightarrow> Load \<Rightarrow> int" where
  "decide policy observed current load =
     (let mn = as_min policy; mx = as_max policy in
      if current \<le> 0 then
        (if mn = 0 then (if observed > 0 then 1 else 0) else mn)
      else
        let wanted = (case load of
              PerPod \<Rightarrow> of_int current * (observed / as_target policy)
            | Shared \<Rightarrow> observed / as_target policy);
            ratio = wanted / of_int current in
        if \<bar>ratio - 1\<bar> \<le> SCALE_DEADBAND then clamp current mn mx
        else clamp (as_i32 \<lceil>wanted\<rceil>) mn mx)"

definition sized :: "ComponentAutoscale \<Rightarrow> rat option \<Rightarrow> int \<Rightarrow> Load \<Rightarrow> int" where
  "sized policy sample current load =
     (case sample of
        Some v \<Rightarrow> decide policy v current load
      | None \<Rightarrow> replicas_without_signal policy current)"

definition reconcile_replicas :: "autoscaling \<Rightarrow> ObservedSamples \<Rightarrow> Replicas \<Rightarrow> Replicas" where
  "reconcile_replicas spec observed current =
     \<lparr>r_ingester = sized (as_ingester spec) (o_ingester observed) (r_ingester current) PerPod,
      r_compactor = sized (as_compactor spec) (o_compactor observed) (r_compactor current) (compactor_load (as_compactor spec)),
      r_query = sized (as_query spec) (o_query observed) (r_query current) PerPod\<rparr>"

section \<open>Parking a tier at zero\<close>

datatype ZeroFloorPhase = Parked nat | Waking nat

definition maintenance_wake ::
  "ZeroFloorPhase option \<Rightarrow> int \<Rightarrow> nat \<Rightarrow> nat \<Rightarrow> nat \<Rightarrow> int \<times> ZeroFloorPhase option" where
  "maintenance_wake phase desired now wake_after hold =
     (if desired > 0 then (desired, None)
      else (case phase of
              Some (Waking until) \<Rightarrow>
                if now < until then (1, Some (Waking until)) else (0, Some (Parked now))
            | Some (Parked since) \<Rightarrow>
                if now - since \<ge> wake_after then (1, Some (Waking (now + hold))) else (0, Some (Parked since))
            | None \<Rightarrow> (0, Some (Parked now))))"

section \<open>Smoothing\<close>

definition ewma_alpha :: "(rat \<Rightarrow> rat) \<Rightarrow> rat \<Rightarrow> rat \<Rightarrow> rat" where
  "ewma_alpha half_pow half_life_secs dt_secs =
     (if half_life_secs \<le> 0 \<or> dt_secs \<le> 0 then 1
      else clamp (1 - half_pow (dt_secs / half_life_secs)) 0 1)"

definition ewma_smooth :: "ObservedMetrics \<Rightarrow> ObservedMetrics \<Rightarrow> rat \<Rightarrow> ObservedMetrics" where
  "ewma_smooth prev raw alpha =
     (let blend = (\<lambda>p r. p + alpha * (r - p)) in
      \<lparr>m_ingester = blend (m_ingester prev) (m_ingester raw),
       m_compactor = blend (m_compactor prev) (m_compactor raw),
       m_query = blend (m_query prev) (m_query raw)\<rparr>)"

definition IDLE_HALF_LIVES :: rat where "IDLE_HALF_LIVES = 10"

record IdleSeconds =
  idle_ingester :: rat
  idle_compactor :: rat
  idle_query :: rat

record Interrupted =
  int_ingester :: bool
  int_compactor :: bool
  int_query :: bool

definition Interrupted_ALL :: Interrupted where
  "Interrupted_ALL = \<lparr>int_ingester = True, int_compactor = True, int_query = True\<rparr>"

record SmoothingState =
  st_at :: nat
  st_smoothed :: ObservedSamples
  st_idle :: IdleSeconds
  st_interrupted :: Interrupted

record Smoothed =
  sm_observed :: ObservedSamples
  sm_state :: "SmoothingState option"

text \<open>One signal's fold: the reading for the decision, the smoothed history, the idle window and the
  gap marker.\<close>

definition fold_signal ::
  "rat \<Rightarrow> rat \<Rightarrow> rat \<Rightarrow> rat option \<Rightarrow> rat option \<Rightarrow> rat \<Rightarrow> bool \<Rightarrow> rat option \<times> rat option \<times> rat \<times> bool" where
  "fold_signal alpha dt idle_window raw prev_smoothed prev_idle prev_interrupted =
     (case raw of
        None \<Rightarrow> (None, prev_smoothed, prev_idle, True)
      | Some raw \<Rightarrow>
          let (blended, extended) =
                (case prev_smoothed of
                   Some prev \<Rightarrow>
                     if \<not> prev_interrupted then (prev + alpha * (raw - prev), prev_idle + dt)
                     else (prev + alpha * (raw - prev), 0)
                 | None \<Rightarrow> (raw, 0));
              (v, idle) =
                (if raw > 0 then (blended, 0)
                 else if extended \<ge> idle_window then (0, extended)
                 else (blended, extended)) in
          (Some v, Some v, idle, False))"

definition secs :: "nat \<Rightarrow> rat" where
  "secs ns = of_nat ns / 10 ^ 9"

definition fold_observation ::
  "(rat \<Rightarrow> rat) \<Rightarrow> SmoothingState option \<Rightarrow> ObservedSamples \<Rightarrow> nat \<Rightarrow> rat \<Rightarrow> Smoothed" where
  "fold_observation half_pow previous raw now half_life_secs =
     (if half_life_secs \<le> 0 then \<lparr>sm_observed = raw, sm_state = None\<rparr>
      else if all_absent raw then
        \<lparr>sm_observed = default_samples,
         sm_state = map_option (\<lambda>prev. prev\<lparr>st_interrupted := Interrupted_ALL\<rparr>) previous\<rparr>
      else
        let idle_window = IDLE_HALF_LIVES * half_life_secs;
            dt = (case previous of None \<Rightarrow> 0 | Some prev \<Rightarrow> secs (now - st_at prev));
            alpha = ewma_alpha half_pow half_life_secs dt;
            prev_smoothed = (case previous of None \<Rightarrow> default_samples | Some prev \<Rightarrow> st_smoothed prev);
            prev_idle = (case previous of None \<Rightarrow> \<lparr>idle_ingester = 0, idle_compactor = 0, idle_query = 0\<rparr> | Some prev \<Rightarrow> st_idle prev);
            prev_int = (case previous of None \<Rightarrow> \<lparr>int_ingester = False, int_compactor = False, int_query = False\<rparr>
                        | Some prev \<Rightarrow> st_interrupted prev);
            (i, i_sm, i_idle, i_int) = fold_signal alpha dt idle_window (o_ingester raw) (o_ingester prev_smoothed)
               (idle_ingester prev_idle) (int_ingester prev_int);
            (c, c_sm, c_idle, c_int) = fold_signal alpha dt idle_window (o_compactor raw) (o_compactor prev_smoothed)
               (idle_compactor prev_idle) (int_compactor prev_int);
            (q, q_sm, q_idle, q_int) = fold_signal alpha dt idle_window (o_query raw) (o_query prev_smoothed)
               (idle_query prev_idle) (int_query prev_int) in
        \<lparr>sm_observed = \<lparr>o_ingester = i, o_compactor = c, o_query = q\<rparr>,
         sm_state = Some \<lparr>st_at = now,
           st_smoothed = \<lparr>o_ingester = i_sm, o_compactor = c_sm, o_query = q_sm\<rparr>,
           st_idle = \<lparr>idle_ingester = i_idle, idle_compactor = c_idle, idle_query = q_idle\<rparr>,
           st_interrupted = \<lparr>int_ingester = i_int, int_compactor = c_int, int_query = q_int\<rparr>\<rparr>\<rparr>)"

section \<open>Bounds and convergence\<close>

definition policy_ok :: "ComponentAutoscale \<Rightarrow> bool" where
  "policy_ok p \<longleftrightarrow> 0 \<le> as_min p \<and> as_min p \<le> as_max p \<and> 1 \<le> as_max p \<and> as_max p < 2 ^ 31 \<and> 0 < as_target p"

lemma clamp_bounds: "lo \<le> hi \<Longrightarrow> lo \<le> clamp x lo hi \<and> clamp x lo hi \<le> hi"
  by (auto simp: clamp_def)

lemma clamp_id: "lo \<le> x \<Longrightarrow> x \<le> hi \<Longrightarrow> clamp x lo hi = x"
  by (auto simp: clamp_def)

lemma decide_bounds: "policy_ok p \<Longrightarrow> as_min p \<le> decide p obs cur load \<and> decide p obs cur load \<le> as_max p"
  using clamp_bounds [of "as_min p" "as_max p"] by (auto simp: decide_def Let_def policy_ok_def)

lemma without_signal_bounds:
  "policy_ok p \<Longrightarrow> max 1 (min (as_min p) cur) \<le> replicas_without_signal p cur \<and> as_min p \<le> replicas_without_signal p cur \<and>
     replicas_without_signal p cur \<le> as_max p"
  using clamp_bounds [of "as_min p" "as_max p" cur]
  by (auto simp: replicas_without_signal_def policy_ok_def clamp_def max_def min_def)


definition sample_spec :: autoscaling where
  "sample_spec = (let p = \<lparr>as_min = 1, as_max = 8, as_target = 4\<rparr> in
     \<lparr>as_ingester = p, as_compactor = p\<lparr>as_min := 0\<rparr>, as_query = p\<rparr>)"


lemma deadband:
  "0 < c \<Longrightarrow> \<bar>w / of_int c - 1\<bar> \<le> SCALE_DEADBAND \<longleftrightarrow> 9 * of_int c \<le> 10 * w \<and> 10 * w \<le> 11 * (of_int c :: rat)"
proof -
  assume "0 < c"
  then have c: "(0 :: rat) < of_int c" by simp
  have "\<bar>w / of_int c - 1\<bar> \<le> 1 / 10 \<longleftrightarrow> 9 / 10 \<le> w / of_int c \<and> w / of_int c \<le> 11 / 10" by linarith
  also have "\<dots> \<longleftrightarrow> 9 / 10 * of_int c \<le> w \<and> w \<le> 11 / 10 * of_int c"
    using c by (simp add: pos_le_divide_eq pos_divide_le_eq)
  also have "\<dots> \<longleftrightarrow> 9 * of_int c \<le> 10 * w \<and> 10 * w \<le> 11 * of_int c" by linarith
  finally show ?thesis by (simp add: SCALE_DEADBAND_def)
qed

lemma decide_shared:
  "0 < cur \<Longrightarrow> decide p obs cur Shared =
     (if \<bar>obs / as_target p / of_int cur - 1\<bar> \<le> SCALE_DEADBAND then clamp cur (as_min p) (as_max p)
      else clamp (as_i32 \<lceil>obs / as_target p\<rceil>) (as_min p) (as_max p))"
  by (simp add: decide_def Let_def)

lemma clamp_as_i32:
  assumes "policy_ok p"
  shows "clamp (as_i32 x) (as_min p) (as_max p) = clamp x (as_min p) (as_max p)"
  using assms by (auto simp: policy_ok_def as_i32_def clamp_def)

text \<open>A size forced onto the configured range while the reading was inside the deadband is what the
  reading asks for from there.\<close>

lemma forced_size_stays:
  assumes "policy_ok p" and "0 < cur" and "9 * of_int cur \<le> 10 * w" "10 * w \<le> 11 * (of_int cur :: rat)"
    and "c = clamp cur (as_min p) (as_max p)" and "\<not> (9 * of_int c \<le> 10 * w \<and> 10 * w \<le> 11 * (of_int c :: rat))"
  shows "clamp \<lceil>w\<rceil> (as_min p) (as_max p) = c"
proof -
  consider "cur < as_min p" | "as_max p < cur" | "c = cur"
    using assms(5) by (auto simp: clamp_def split: if_splits)
  then show ?thesis
  proof cases
    case 1
    then have c: "c = as_min p" using assms(5) by (simp add: clamp_def)
    have "(of_int cur :: rat) < of_int (as_min p)" using 1 by simp
    then have "w < of_int (as_min p)" using assms(4,6) assms(2) c by linarith
    then have "\<lceil>w\<rceil> \<le> as_min p" by (simp add: ceiling_le_iff)
    then show ?thesis using assms(1) c by (auto simp: clamp_def policy_ok_def)
  next
    case 2
    then have c: "c = as_max p" using assms(1,5) by (auto simp: clamp_def policy_ok_def)
    have "(of_int (as_max p) :: rat) < of_int cur" "(0 :: rat) < of_int (as_max p)"
      using 2 assms(1) by (simp_all add: policy_ok_def)
    then have "of_int (as_max p) < w" using assms(3,6) c by linarith
    then have "as_max p < \<lceil>w\<rceil>" by (simp add: less_ceiling_iff)
    then show ?thesis using assms(1) c by (auto simp: clamp_def policy_ok_def)
  next
    case 3
    then show ?thesis using assms(3,4,6) by simp
  qed
qed


definition sample_policy :: ComponentAutoscale where
  "sample_policy = \<lparr>as_min = 0, as_max = 8, as_target = 4\<rparr>"

lemma sample_decision: "decide sample_policy 13 2 Shared = 4"
proof -
  have "\<lceil>13 / 4 :: rat\<rceil> = 4" by (simp add: ceiling_eq_iff)
  then show ?thesis by (simp add: sample_policy_def decide_def SCALE_DEADBAND_def as_i32_def clamp_def)
qed


section \<open>Bounded time at zero\<close>

text \<open>The reconcile cycles of a tier whose reading keeps asking for zero, at the given instants.\<close>

primrec idle_cycles :: "ZeroFloorPhase option \<Rightarrow> nat \<Rightarrow> nat \<Rightarrow> nat list \<Rightarrow> int list" where
  "idle_cycles phase wake_after hold [] = []"
| "idle_cycles phase wake_after hold (now # rest) =
     (let (n, phase) = maintenance_wake phase 0 now wake_after hold in n # idle_cycles phase wake_after hold rest)"

lemma parked_stretch:
  assumes "\<forall>n \<in> set (idle_cycles (Some (Parked since)) w h ts). n = 0" and "t \<in> set ts"
  shows "t - since < w"
  using assms
proof (induction ts)
  case (Cons a ts)
  have m: "maintenance_wake (Some (Parked since)) 0 a w h =
      (if a - since \<ge> w then (1, Some (Waking (a + h))) else (0, Some (Parked since)))"
    by (simp add: maintenance_wake_def)
  have a: "a - since < w"
    using Cons.prems(1) by (cases "a - since \<ge> w") (simp_all add: m)
  then have "\<forall>n \<in> set (idle_cycles (Some (Parked since)) w h ts). n = 0"
    using Cons.prems(1) by (simp add: m)
  with Cons a show ?case by auto
qed simp

lemma first_zero_parks:
  assumes "fst (maintenance_wake phase 0 a w h) = 0" and "0 < w" and "\<forall>s. phase = Some (Parked s) \<longrightarrow> s \<le> a"
  obtains since where "snd (maintenance_wake phase 0 a w h) = Some (Parked since)" and "since \<le> a" and "a - since < w"
  using assms by (cases phase; cases "the phase") (auto simp: maintenance_wake_def split: if_splits)

text \<open>C22. A tier whose reading keeps asking for zero is not left at zero: any stretch of consecutive
  cycles that all leave it stopped is shorter than the wake interval, from whatever phase the
  stretch starts.\<close>

theorem zero_stretch_bounded:
  assumes "0 < wake_after" and "sorted ts" and "\<forall>n \<in> set (idle_cycles phase wake_after hold ts). n = 0"
    and "\<forall>s. phase = Some (Parked s) \<longrightarrow> (\<forall>t \<in> set ts. s \<le> t)" and "t \<in> set ts" and "u \<in> set ts"
  shows "u - t < wake_after"
proof -
  obtain a rest where ts: "ts = a # rest" using assms(5) by (cases ts) auto
  have "fst (maintenance_wake phase 0 a wake_after hold) = 0"
    using assms(3) by (simp add: ts case_prod_unfold Let_def)
  then obtain since where ph: "snd (maintenance_wake phase 0 a wake_after hold) = Some (Parked since)"
      and s: "since \<le> a" "a - since < wake_after"
    by (rule first_zero_parks) (use assms(1,4) ts in auto)
  have rest: "\<forall>n \<in> set (idle_cycles (Some (Parked since)) wake_after hold rest). n = 0"
    using assms(3) ph by (simp add: ts case_prod_unfold Let_def)
  have "u - since < wake_after"
    using assms(6) s(2) parked_stretch [OF rest] by (auto simp: ts)
  moreover have "since \<le> t" using assms(2,5) s(1) by (auto simp: ts)
  ultimately show ?thesis by linarith
qed

theorem zero_stretch_bounded_witness: "(110 :: nat) - 100 < 60 \<and> idle_cycles None 60 10 [100, 110] = [0, 0]"
proof -
  have e: "idle_cycles None 60 10 [100, 110] = [0, 0]"
    by (simp add: maintenance_wake_def)
  have "(110 :: nat) - 100 < 60"
  proof (rule zero_stretch_bounded)
    show "\<forall>n \<in> set (idle_cycles None 60 10 [100, 110]). n = 0" unfolding e by simp
  qed simp_all
  with e show ?thesis by simp
qed

section \<open>Outages\<close>

text \<open>C23. Cycles without any reading, however many, do not touch the smoothed history: the next
  complete reading is folded exactly as it would have been after the first of them.\<close>

theorem outage_length_irrelevant:
  assumes "0 < half_life" and "all_absent obs"
  shows "fold (\<lambda>now st. sm_state (fold_observation hp st obs now half_life)) (n # ns) st =
       sm_state (fold_observation hp st obs n half_life) \<and>
     map_option st_smoothed (sm_state (fold_observation hp st obs n half_life)) = map_option st_smoothed st \<and>
     sm_observed (fold_observation hp st obs n half_life) = default_samples"
proof -
  let ?mark = "map_option (\<lambda>p. p\<lparr>st_interrupted := Interrupted_ALL\<rparr>) :: SmoothingState option \<Rightarrow> _"
  have one: "sm_state (fold_observation hp s obs m half_life) = ?mark s" for s m
    using assms by (simp add: fold_observation_def)
  have "fold (\<lambda>n. ?mark) ns (?mark st) = ?mark st"
    by (induction ns) (simp_all add: option.map_comp comp_def)
  then show ?thesis using assms by (cases st) (simp_all add: one, simp_all add: fold_observation_def)
qed

theorem outage_length_irrelevant_witness:
  "fold (\<lambda>now st. sm_state (fold_observation (\<lambda>x. x) st default_samples now 30)) [1, 2, 3] None =
     sm_state (fold_observation (\<lambda>x. x) None default_samples 1 30)"
  by (rule outage_length_irrelevant [of 30 default_samples "\<lambda>x. x" 1 "[2, 3]" None, THEN conjunct1])
    (simp_all add: all_absent_def default_samples_def)


end
