(* ===== verification/RateLimit.thy ===== *)
theory RateLimit
  imports Scaling
begin

text \<open>
  Ingest admission in \<^verbatim>\<open>crates/loglake-ingest/src\<close>: the token-bucket rate limiter of
  \<^verbatim>\<open>rate_limit.rs\<close>, in memory and as the script run inside Redis, and the memory breaker of
  \<^verbatim>\<open>mem_guard.rs\<close>. The trait \<^verbatim>\<open>RateBudget\<close> is a locale whose laws both limiters meet; what the
  ingest server relies on is proved in it. Token counts are rationals, the in-memory clock counts
  nanoseconds and the Redis one milliseconds. The Redis connection itself is an argument.
\<close>

datatype RateOutcome = Allowed | Throttled nat

section \<open>The contract\<close>

text \<open>A run of requests, each a key and a clock reading, and how many requests of a key it admits.\<close>

fun run_requests :: "(string \<Rightarrow> nat \<Rightarrow> 's \<Rightarrow> RateOutcome \<times> 's) \<Rightarrow> (string \<times> nat) list \<Rightarrow> 's \<Rightarrow> RateOutcome list" where
  "run_requests acquire [] s = []"
| "run_requests acquire ((k, t) # rs) s =
     fst (acquire k t s) # run_requests acquire rs (snd (acquire k t s))"

definition admitted :: "(string \<Rightarrow> nat \<Rightarrow> 's \<Rightarrow> RateOutcome \<times> 's) \<Rightarrow> string \<Rightarrow> (string \<times> nat) list \<Rightarrow> 's \<Rightarrow> nat" where
  "admitted acquire k rs s =
     length (filter (\<lambda>((j, t), out). j = k \<and> out = Allowed) (zip rs (run_requests acquire rs s)))"

lemma admitted_Cons:
  "admitted acquire k ((j, u) # rs) s =
     (if j = k \<and> fst (acquire j u s) = Allowed then 1 else 0) + admitted acquire k rs (snd (acquire j u s))"
  by (auto simp: admitted_def)

text \<open>\<open>avail s k t\<close> is the budget of a key at clock \<open>t\<close>, \<open>tick_secs\<close> the length of a clock tick in
  seconds, and \<open>at_clock\<close> that the state was last touched no later than \<open>t\<close>.\<close>

locale rate_budget =
  fixes try_acquire :: "string \<Rightarrow> nat \<Rightarrow> 's \<Rightarrow> RateOutcome \<times> 's"
    and avail :: "'s \<Rightarrow> string \<Rightarrow> nat \<Rightarrow> rat"
    and at_clock :: "'s \<Rightarrow> nat \<Rightarrow> bool"
    and rate :: rat and burst :: rat and tick_secs :: rat
  assumes rate_nonneg: "at_clock s t \<Longrightarrow> 0 \<le> tick_secs * rate"
    and burst_nonneg: "at_clock s t \<Longrightarrow> 0 \<le> burst"
    and avail_burst: "at_clock s t \<Longrightarrow> avail s k t \<le> burst"
    and avail_grows: "at_clock s t \<Longrightarrow> t \<le> u \<Longrightarrow> avail s k u \<le> avail s k t + of_nat (u - t) * (tick_secs * rate)"
    and clock_mono: "at_clock s t \<Longrightarrow> t \<le> u \<Longrightarrow> at_clock s u"
    and clock_kept: "at_clock s t \<Longrightarrow> at_clock (snd (try_acquire k t s)) t"
    and others_kept: "at_clock s t \<Longrightarrow> j \<noteq> k \<Longrightarrow> avail (snd (try_acquire k t s)) j t = avail s j t"
    and allowed_pays: "at_clock s t \<Longrightarrow> fst (try_acquire k t s) = Allowed \<Longrightarrow>
      1 \<le> avail s k t \<and> avail (snd (try_acquire k t s)) k t = avail s k t - 1"
    and throttled_keeps: "at_clock s t \<Longrightarrow> fst (try_acquire k t s) = Throttled n \<Longrightarrow>
      avail s k t < 1 \<and> avail (snd (try_acquire k t s)) k t = avail s k t"
begin

lemma admitted_avail:
  assumes "at_clock s t" and "sorted (t # map snd rs)"
  shows "of_nat (admitted try_acquire k rs s) \<le>
    max 0 (avail s k t) + of_nat (last (t # map snd rs) - t) * (tick_secs * rate)"
  using assms
proof (induction rs arbitrary: s t)
  case Nil
  then show ?case by (simp add: admitted_def)
next
  case (Cons r rs)
  obtain j u where r: "r = (j, u)" by fastforce
  let ?s = "snd (try_acquire j u s)" and ?c = "tick_secs * rate" and ?l = "last (u # map snd rs)"
  have tu: "t \<le> u" and srt: "sorted (u # map snd rs)" using Cons.prems(2) r by auto
  have ul: "u \<le> ?l"
  proof -
    have "?l \<in> set (u # map snd rs)" by (rule last_in_set) simp
    then show ?thesis using srt by auto
  qed
  have at: "at_clock s u" by (rule clock_mono [OF Cons.prems(1) tu])
  have IH: "of_nat (admitted try_acquire k rs ?s) \<le> max 0 (avail ?s k u) + of_nat (?l - u) * ?c"
    by (rule Cons.IH [OF clock_kept [OF at] srt])
  have grow: "avail s k u \<le> avail s k t + of_nat (u - t) * ?c"
    by (rule avail_grows [OF Cons.prems(1) tu])
  have "(of_nat (?l - u) + of_nat (u - t) :: rat) = of_nat (?l - t)"
    using tu ul by (simp flip: of_nat_add)
  then have split: "of_nat (?l - u) * ?c + of_nat (u - t) * ?c = of_nat (?l - t) * ?c"
    by (simp flip: distrib_right)
  have nn: "0 \<le> of_nat (u - t) * ?c" using rate_nonneg [OF at] by simp
  have "(if j = k \<and> fst (try_acquire j u s) = Allowed then 1 else 0) + max 0 (avail ?s k u) \<le>
      max 0 (avail s k t) + of_nat (u - t) * ?c"
  proof (cases "j = k \<and> fst (try_acquire j u s) = Allowed")
    case True
    then have jk: "j = k" and al: "fst (try_acquire k u s) = Allowed" by auto
    show ?thesis using allowed_pays [OF at al] grow al unfolding jk by auto
  next
    case False
    have "avail ?s k u = avail s k u"
      using False others_kept [OF at, of k j] throttled_keeps [OF at, of j]
      by (cases "j = k"; cases "fst (try_acquire j u s)") auto
    then show ?thesis using False grow nn by auto
  qed
  moreover have "of_nat (admitted try_acquire k (r # rs) s) =
      (if j = k \<and> fst (try_acquire j u s) = Allowed then 1 else 0) + (of_nat (admitted try_acquire k rs ?s) :: rat)"
    by (auto simp: r admitted_Cons)
  moreover have l: "last (t # map snd (r # rs)) = ?l" by (simp add: r)
  ultimately show ?case using IH split unfolding l by linarith
qed

lemma admitted_bound:
  assumes "at_clock s t" and "sorted (t # map snd rs)"
  shows "of_nat (admitted try_acquire k rs s) \<le> burst + of_nat (last (t # map snd rs) - t) * (tick_secs * rate)"
  using admitted_avail [OF assms, of k] avail_burst [OF assms(1), of k] burst_nonneg [OF assms(1)] by linarith

end

section \<open>In memory\<close>

record Bucket =
  b_tokens :: rat
  last_refill :: nat

record RateLimiterInner =
  buckets :: "string \<Rightarrow> Bucket option"
  rate_per_sec :: rat
  rl_burst :: rat

definition RateLimiter_new :: "rat \<Rightarrow> rat \<Rightarrow> RateLimiterInner" where
  "RateLimiter_new rate burst = \<lparr>buckets = (\<lambda>_. None), rate_per_sec = max rate 0, rl_burst = max burst 1\<rparr>"

text \<open>\<open>locked\<close>: another task holds the lock.\<close>

definition is_disabled :: "bool \<Rightarrow> RateLimiterInner \<Rightarrow> bool" where
  "is_disabled locked inner = (if locked then False else rate_per_sec inner = 0)"

definition as_u64 :: "int \<Rightarrow> nat" where
  "as_u64 x = nat (clamp x 0 (2 ^ 64 - 1))"

definition check :: "string \<Rightarrow> nat \<Rightarrow> RateLimiterInner \<Rightarrow> RateOutcome \<times> RateLimiterInner" where
  "check key now inner =
     (if rate_per_sec inner = 0 then (Allowed, inner)
      else
        let rate = rate_per_sec inner;
            burst = rl_burst inner;
            bucket = (case buckets inner key of
                        Some b \<Rightarrow> b
                      | None \<Rightarrow> \<lparr>b_tokens = burst, last_refill = now\<rparr>);
            elapsed = secs (now - last_refill bucket);
            bucket = bucket\<lparr>b_tokens := min (b_tokens bucket + elapsed * rate) burst\<rparr>;
            bucket = bucket\<lparr>last_refill := now\<rparr> in
        if b_tokens bucket \<ge> 1 then
          (Allowed, inner\<lparr>buckets := (buckets inner)(key \<mapsto> bucket\<lparr>b_tokens := b_tokens bucket - 1\<rparr>)\<rparr>)
        else
          let deficit = 1 - b_tokens bucket;
              retry_after_secs = as_u64 (max \<lceil>deficit / rate\<rceil> 1) in
          (Throttled retry_after_secs, inner\<lparr>buckets := (buckets inner)(key \<mapsto> bucket)\<rparr>))"

definition RateLimiter_try_acquire :: "string \<Rightarrow> nat \<Rightarrow> RateLimiterInner \<Rightarrow> RateOutcome \<times> RateLimiterInner" where
  "RateLimiter_try_acquire key now inner =
     (case check key now inner of
        (Allowed, inner) \<Rightarrow> (Allowed, inner)
      | (Throttled n, inner) \<Rightarrow> (Throttled n, inner))"

definition rl_avail :: "RateLimiterInner \<Rightarrow> string \<Rightarrow> nat \<Rightarrow> rat" where
  "rl_avail inner k t =
     (case buckets inner k of
        None \<Rightarrow> rl_burst inner
      | Some b \<Rightarrow> min (b_tokens b + secs (t - last_refill b) * rate_per_sec inner) (rl_burst inner))"

definition rl_clock :: "rat \<Rightarrow> rat \<Rightarrow> RateLimiterInner \<Rightarrow> nat \<Rightarrow> bool" where
  "rl_clock rate burst inner t \<longleftrightarrow> 0 < rate \<and> 1 \<le> burst \<and> rate_per_sec inner = rate \<and> rl_burst inner = burst \<and>
     (\<forall>k b. buckets inner k = Some b \<longrightarrow> last_refill b \<le> t \<and> 0 \<le> b_tokens b)"

lemma try_acquire_check [simp]: "RateLimiter_try_acquire k t s = check k t s"
  by (cases "check k t s") (simp add: RateLimiter_try_acquire_def split: RateOutcome.split)

lemma secs_add: "secs (a + b) = secs a + secs b"
  by (simp add: secs_def add_divide_distrib)

lemma secs_nonneg [simp]: "0 \<le> secs n"
  by (simp add: secs_def)

lemma secs_0 [simp]: "secs 0 = 0"
  by (simp add: secs_def)

lemma min_grow: "0 \<le> d \<Longrightarrow> min b (a + d) \<le> min b a + (d :: rat)"
  by (simp add: min_def)

lemma secs_scale: "of_nat n * (1 / 10 ^ 9 * r) = secs n * r"
  by (simp add: secs_def)

lemma bucket_eta [simp]:
  "b\<lparr>last_refill := t, b_tokens := x\<rparr> = \<lparr>b_tokens = x, last_refill = t\<rparr>"
  "b\<lparr>b_tokens := x, last_refill := t\<rparr> = \<lparr>b_tokens = x, last_refill = t\<rparr>"
  by (cases b, simp)+

lemma as_u64_id: "0 \<le> x \<Longrightarrow> x \<le> 2 ^ 64 - 1 \<Longrightarrow> int (as_u64 x) = x"
  by (simp add: as_u64_def clamp_def)

lemma rl_avail_nonneg: "rl_clock r b s t \<Longrightarrow> 0 \<le> rl_avail s k t"
  by (auto simp: rl_avail_def rl_clock_def split: option.splits)

lemma rl_check_cases:
  assumes "rl_clock r b s t"
  shows "(1 \<le> rl_avail s k t \<and> fst (check k t s) = Allowed \<and>
       snd (check k t s) = s\<lparr>buckets := (buckets s)(k \<mapsto> \<lparr>b_tokens = rl_avail s k t - 1, last_refill = t\<rparr>)\<rparr>) \<or>
     (rl_avail s k t < 1 \<and> fst (check k t s) = Throttled (as_u64 (max \<lceil>(1 - rl_avail s k t) / r\<rceil> 1)) \<and>
       snd (check k t s) = s\<lparr>buckets := (buckets s)(k \<mapsto> \<lparr>b_tokens = rl_avail s k t, last_refill = t\<rparr>)\<rparr>)"
  using assms by (cases "buckets s k") (auto simp: check_def rl_avail_def rl_clock_def Let_def)

lemma rl_avail_update:
  "rl_avail (s\<lparr>buckets := (buckets s)(k \<mapsto> \<lparr>b_tokens = x, last_refill = t\<rparr>)\<rparr>) j u =
     (if j = k then min (x + secs (u - t) * rate_per_sec s) (rl_burst s) else rl_avail s j u)"
  by (simp add: rl_avail_def split: option.split)

interpretation rl: rate_budget RateLimiter_try_acquire rl_avail "rl_clock r b" r b "1 / 10 ^ 9" for r b
proof
  fix s k j t u n
  assume c: "rl_clock r b s t"
  then have rb: "0 < r" "1 \<le> b" by (simp_all add: rl_clock_def)
  then show "0 \<le> 1 / 10 ^ 9 * r" "0 \<le> b" by simp_all
  from c show le: "rl_avail s k t \<le> b"
    by (auto simp: rl_avail_def rl_clock_def split: option.splits)
  show "rl_clock r b s u" if "t \<le> u" using c that by (auto simp: rl_clock_def intro: order_trans)
  show "rl_avail s k u \<le> rl_avail s k t + of_nat (u - t) * (1 / 10 ^ 9 * r)" if tu: "t \<le> u"
  proof (cases "buckets s k")
    case None
    then show ?thesis using rb by (simp add: rl_avail_def)
  next
    case (Some x)
    then have "last_refill x \<le> t" using c by (auto simp: rl_clock_def)
    then have "secs (u - last_refill x) = secs (t - last_refill x) + secs (u - t)"
      using tu by (simp flip: secs_add)
    then have key: "b_tokens x + secs (u - last_refill x) * r = (b_tokens x + secs (t - last_refill x) * r) + secs (u - t) * r"
      by (simp add: distrib_right)
    have nn: "0 \<le> secs (u - t) * r" using rb by simp
    have "rate_per_sec s = r" "rl_burst s = b" using c by (simp_all add: rl_clock_def)
    then show ?thesis
      unfolding rl_avail_def Some option.case secs_scale
      using min_grow [OF nn, of b "b_tokens x + secs (t - last_refill x) * r"] by (simp only: key min.commute)
  qed
  note k = rl_check_cases [OF c, of k]
  show "rl_clock r b (snd (RateLimiter_try_acquire k t s)) t"
    using k c rl_avail_nonneg [OF c, of k] by (auto simp: rl_clock_def split: if_splits)
  show "rl_avail (snd (RateLimiter_try_acquire k t s)) j t = rl_avail s j t" if "j \<noteq> k"
    using k that by (auto simp: rl_avail_update)
  show "1 \<le> rl_avail s k t \<and> rl_avail (snd (RateLimiter_try_acquire k t s)) k t = rl_avail s k t - 1"
    if "fst (RateLimiter_try_acquire k t s) = Allowed"
    using k that le c by (auto simp: rl_avail_update rl_clock_def)
  show "rl_avail s k t < 1 \<and> rl_avail (snd (RateLimiter_try_acquire k t s)) k t = rl_avail s k t"
    if "fst (RateLimiter_try_acquire k t s) = Throttled n"
    using k that le c by (auto simp: rl_avail_update rl_clock_def)
qed

text \<open>C25. Whatever the interleaving of keys and the state of the buckets, the in-memory limiter
  admits no more requests of a key over a stretch of time than the burst plus what the rate refills
  in it.\<close>

theorem rate_limiter_admits_bounded:
  assumes "rl_clock r b s t" and "sorted (t # map snd rs)"
  shows "of_nat (admitted RateLimiter_try_acquire k rs s) \<le> b + secs (last (t # map snd rs) - t) * r"
  using rl.admitted_bound [OF assms, of k] unfolding secs_scale .

theorem rate_limiter_admits_bounded_witness:
  "of_nat (admitted RateLimiter_try_acquire ''a'' [(''a'', 0), (''b'', 5), (''a'', 10 ^ 9)] (RateLimiter_new 1 3))
     \<le> (3 + secs (10 ^ 9) * 1 :: rat)"
  using rate_limiter_admits_bounded [of 1 3 "RateLimiter_new 1 3" 0 "[(''a'', 0), (''b'', 5), (''a'', 10 ^ 9)]" "''a''"]
  by (simp add: rl_clock_def RateLimiter_new_def)

text \<open>C27. The retry hint is honest: a throttled client that comes back after the seconds it was told,
  with no other request of its key in between, is admitted.\<close>

theorem retry_hint_suffices:
  assumes "rl_clock r b s t" and "fst (check k t s) = Throttled n" and "1 / r \<le> 2 ^ 64 - 1"
  shows "fst (check k (t + n * 10 ^ 9) (snd (check k t s))) = Allowed"
proof -
  let ?a = "rl_avail s k t" and ?s = "snd (check k t s)" and ?u = "t + n * 10 ^ 9"
  have rb: "0 < r" "1 \<le> b" using assms(1) by (simp_all add: rl_clock_def)
  have n: "n = as_u64 (max \<lceil>(1 - ?a) / r\<rceil> 1)" and st: "?s = s\<lparr>buckets := (buckets s)(k \<mapsto> \<lparr>b_tokens = ?a, last_refill = t\<rparr>)\<rparr>"
    using rl_check_cases [OF assms(1), of k] assms(2) by auto
  have a: "0 \<le> ?a" by (rule rl_avail_nonneg [OF assms(1)])
  then have "(1 - ?a) / r \<le> 1 / r" using rb(1) by (simp add: divide_right_mono)
  then have "(1 - ?a) / r \<le> of_int (2 ^ 64 - 1)" using assms(3) by simp
  then have "\<lceil>(1 - ?a) / r\<rceil> \<le> 2 ^ 64 - 1" by (simp only: ceiling_le_iff)
  then have "int n = max \<lceil>(1 - ?a) / r\<rceil> 1" unfolding n by (intro as_u64_id) simp_all
  then have "\<lceil>(1 - ?a) / r\<rceil> \<le> int n" by simp
  then have "(1 - ?a) / r \<le> of_nat n" by (simp add: ceiling_le_iff)
  then have ge: "1 \<le> ?a + of_nat n * r" using rb(1) by (simp add: pos_divide_le_eq algebra_simps)
  have sec: "secs (?u - t) = of_nat n" by (simp add: secs_def)
  have "rl_avail ?s k ?u = min (?a + of_nat n * r) b"
    unfolding st rl_avail_update sec using assms(1) by (simp add: rl_clock_def)
  then have "1 \<le> rl_avail ?s k ?u" using ge rb(2) by simp
  moreover have "rl_clock r b ?s ?u"
    using assms(1) a unfolding st by (auto simp: rl_clock_def trans_le_add1)
  ultimately show ?thesis
    using rl_check_cases [of r b ?s ?u k] by auto
qed

definition drained :: RateLimiterInner where
  "drained = \<lparr>buckets = [''a'' \<mapsto> \<lparr>b_tokens = 0, last_refill = 7\<rparr>], rate_per_sec = 2, rl_burst = 3\<rparr>"

theorem retry_hint_suffices_witness:
  "fst (check ''a'' 7 drained) = Throttled 1 \<and> fst (check ''a'' (7 + 1 * 10 ^ 9) (snd (check ''a'' 7 drained))) = Allowed"
proof -
  have "\<lceil>1 / 2 :: rat\<rceil> = 1" by (simp add: ceiling_eq_iff)
  then have t: "fst (check ''a'' 7 drained) = Throttled 1"
    by (simp add: check_def drained_def as_u64_def clamp_def)
  have "rl_clock 2 3 drained 7" by (simp add: rl_clock_def drained_def)
  from retry_hint_suffices [OF this t] t show ?thesis by simp
qed

section \<open>In Redis\<close>

text \<open>\<^verbatim>\<open>BUDGET_LUA\<close> on the hash of one key: the tokens and the refill instant, if the hash exists. The
  reply is the throttled flag and the seconds to wait.\<close>

definition budget_lua :: "rat \<Rightarrow> rat \<Rightarrow> nat \<Rightarrow> (rat \<times> nat) option \<Rightarrow> (int \<times> int) \<times> (rat \<times> nat)" where
  "budget_lua rate burst now_ms raw =
     (let (tokens, last_ms) = (case raw of None \<Rightarrow> (burst, now_ms) | Some r \<Rightarrow> r);
          elapsed_s = max 0 ((of_nat now_ms - of_nat last_ms) / 1000);
          tokens = min burst (tokens + elapsed_s * rate) in
      if tokens \<ge> 1 then ((0, 0), (tokens - 1, now_ms))
      else ((1, max 1 \<lceil>(1 - tokens) / rate\<rceil>), (tokens, now_ms)))"

record RedisRateBudget =
  rb_rate :: rat
  rb_burst :: rat
  rb_prefix :: string

definition redis_connect :: "rat \<Rightarrow> rat \<Rightarrow> string option \<Rightarrow> RedisRateBudget" where
  "redis_connect rate burst prefix =
     \<lparr>rb_rate = max rate 0, rb_burst = max burst 1,
      rb_prefix = (case prefix of None \<Rightarrow> ''loglake:rb'' | Some p \<Rightarrow> p)\<rparr>"

text \<open>The store of hashes lives in the server; \<open>up\<close> tells whether the connection answers. A request
  that gets no answer is admitted.\<close>

definition redis_try_acquire ::
  "RedisRateBudget \<Rightarrow> (nat \<Rightarrow> bool) \<Rightarrow> string \<Rightarrow> nat \<Rightarrow> (string \<Rightarrow> (rat \<times> nat) option) \<Rightarrow> RateOutcome \<times> (string \<Rightarrow> (rat \<times> nat) option)" where
  "redis_try_acquire rb up key now_ms store =
     (if rb_rate rb = 0 then (Allowed, store)
      else if \<not> up now_ms then (Allowed, store)
      else
        let full_key = rb_prefix rb @ '':'' @ key;
            (reply, h) = budget_lua (rb_rate rb) (rb_burst rb) now_ms (store full_key);
            store = store(full_key \<mapsto> h) in
        (if fst reply = 0 then Allowed else Throttled (as_u64 (max (snd reply) 1)), store))"

definition redis_avail :: "RedisRateBudget \<Rightarrow> (string \<Rightarrow> (rat \<times> nat) option) \<Rightarrow> string \<Rightarrow> nat \<Rightarrow> rat" where
  "redis_avail rb store k t =
     (case store (rb_prefix rb @ '':'' @ k) of
        None \<Rightarrow> rb_burst rb
      | Some (x, u) \<Rightarrow> min (rb_burst rb) (x + of_nat (t - u) / 1000 * rb_rate rb))"

definition redis_clock :: "RedisRateBudget \<Rightarrow> (string \<Rightarrow> (rat \<times> nat) option) \<Rightarrow> nat \<Rightarrow> bool" where
  "redis_clock rb store t \<longleftrightarrow> 0 < rb_rate rb \<and> 1 \<le> rb_burst rb \<and> (\<forall>k x u. store k = Some (x, u) \<longrightarrow> u \<le> t)"

lemma budget_lua_avail:
  assumes "redis_clock rb s t"
  shows "budget_lua (rb_rate rb) (rb_burst rb) t (s (rb_prefix rb @ '':'' @ k)) =
    (let a = redis_avail rb s k t in
     if 1 \<le> a then ((0, 0), (a - 1, t)) else ((1, max 1 \<lceil>(1 - a) / rb_rate rb\<rceil>), (a, t)))"
proof (cases "s (rb_prefix rb @ '':'' @ k)")
  case None
  then show ?thesis by (simp add: budget_lua_def redis_avail_def Let_def)
next
  case (Some p)
  obtain x u where p: "p = (x, u)" by fastforce
  have "u \<le> t" using assms Some p by (auto simp: redis_clock_def)
  then have "max 0 ((of_nat t - of_nat u) / 1000) = (of_nat (t - u) / 1000 :: rat)"
    by (simp add: of_nat_diff)
  then show ?thesis
    unfolding budget_lua_def redis_avail_def Some p option.case prod.case Let_def by (simp only: if_True)
qed

lemma redis_acquire_cases:
  assumes "redis_clock rb s t" and "up t"
  shows "(1 \<le> redis_avail rb s k t \<and> redis_try_acquire rb up k t s =
       (Allowed, s(rb_prefix rb @ '':'' @ k \<mapsto> (redis_avail rb s k t - 1, t)))) \<or>
     (redis_avail rb s k t < 1 \<and> (\<exists>n. redis_try_acquire rb up k t s =
       (Throttled n, s(rb_prefix rb @ '':'' @ k \<mapsto> (redis_avail rb s k t, t)))))"
  using assms unfolding redis_try_acquire_def budget_lua_avail [OF assms(1)] Let_def by (auto simp: redis_clock_def)

interpretation redis: rate_budget "redis_try_acquire rb (\<lambda>_. True)" "redis_avail rb" "redis_clock rb" "rb_rate rb" "rb_burst rb" "1 / 1000" for rb
proof
  fix s k j t u n
  assume c: "redis_clock rb s t"
  then have rb: "0 < rb_rate rb" "1 \<le> rb_burst rb" by (simp_all add: redis_clock_def)
  then show "0 \<le> 1 / 1000 * rb_rate rb" "0 \<le> rb_burst rb" by simp_all
  show le: "redis_avail rb s k t \<le> rb_burst rb"
    by (auto simp: redis_avail_def split: option.splits)
  show "redis_clock rb s u" if "t \<le> u" using c that by (fastforce simp: redis_clock_def)
  show "redis_avail rb s k u \<le> redis_avail rb s k t + of_nat (u - t) * (1 / 1000 * rb_rate rb)" if tu: "t \<le> u"
  proof (cases "s (rb_prefix rb @ '':'' @ k)")
    case None
    then show ?thesis using rb by (simp add: redis_avail_def)
  next
    case (Some p)
    obtain x v where p: "p = (x, v)" by fastforce
    have "v \<le> t" using c Some p by (auto simp: redis_clock_def)
    then have "u - v = (t - v) + (u - t)" using tu by simp
    then have "(of_nat (u - v) :: rat) = of_nat (t - v) + of_nat (u - t)" by (metis of_nat_add)
    then have key: "x + of_nat (u - v) / 1000 * rb_rate rb = (x + of_nat (t - v) / 1000 * rb_rate rb) + of_nat (u - t) * (1 / 1000 * rb_rate rb)"
      by (simp add: add_divide_distrib distrib_right)
    have nn: "0 \<le> of_nat (u - t) * (1 / 1000 * rb_rate rb)" using rb(1) by simp
    show ?thesis
      unfolding redis_avail_def Some p option.case prod.case key by (rule min_grow [OF nn])
  qed
  note k = redis_acquire_cases [where up = "\<lambda>_. True", OF c TrueI, of k]
  show "redis_clock rb (snd (redis_try_acquire rb (\<lambda>_. True) k t s)) t"
    using k c by (auto simp: redis_clock_def split: if_splits)
  show "redis_avail rb (snd (redis_try_acquire rb (\<lambda>_. True) k t s)) j t = redis_avail rb s j t" if "j \<noteq> k"
    using k that by (auto simp: redis_avail_def)
  show "1 \<le> redis_avail rb s k t \<and> redis_avail rb (snd (redis_try_acquire rb (\<lambda>_. True) k t s)) k t = redis_avail rb s k t - 1"
    if "fst (redis_try_acquire rb (\<lambda>_. True) k t s) = Allowed"
    using k that le by (auto simp: redis_avail_def [of rb "s(_ \<mapsto> _)"])
  show "redis_avail rb s k t < 1 \<and> redis_avail rb (snd (redis_try_acquire rb (\<lambda>_. True) k t s)) k t = redis_avail rb s k t"
    if "fst (redis_try_acquire rb (\<lambda>_. True) k t s) = Throttled n"
    using k that le by (auto simp: redis_avail_def [of rb "s(_ \<mapsto> _)"])
qed



section \<open>Memory breaker\<close>

record MemoryGuard =
  mg_current_rss :: u64
  mg_limit :: u64

definition MemoryGuard_new :: "u64 \<Rightarrow> MemoryGuard" where
  "MemoryGuard_new limit_bytes = \<lparr>mg_current_rss = 0, mg_limit = limit_bytes\<rparr>"

definition is_over_limit :: "MemoryGuard \<Rightarrow> bool" where
  "is_over_limit g \<longleftrightarrow> mg_limit g \<noteq> 0 \<and> mg_current_rss g \<ge> mg_limit g"

definition observe :: "u64 \<Rightarrow> MemoryGuard \<Rightarrow> MemoryGuard" where
  "observe rss g = g\<lparr>mg_current_rss := rss\<rparr>"

end
