(* ===== verification/Admission.thy ===== *)
theory Admission
  imports RateLimit
begin

text \<open>
  The query admission controller of \<^verbatim>\<open>crates/loglake-query-server/src/admission.rs\<close>: a byte budget
  shared by concurrent queries, guards that give their share back when dropped, and waiters that
  sleep on a \<^verbatim>\<open>Notify\<close>. The tasks that race on it are a step relation: one step is one critical
  section of the lock, one registration, one wake-up or one timeout.
\<close>

section \<open>Reservations\<close>

definition MIN_RESERVATION_BYTES :: u64 where "MIN_RESERVATION_BYTES = 16 * 1024 * 1024"
definition BATCH_SHARE_DIVISOR :: u64 where "BATCH_SHARE_DIVISOR = 4"

text \<open>The environment variable's value, parsed, when it parses.\<close>

definition per_query_share_divisor :: "u64 option \<Rightarrow> u64" where
  "per_query_share_divisor env =
     (case env of Some n \<Rightarrow> if n \<ge> 1 then n else 4 | None \<Rightarrow> 4)"

record AdmissionState =
  budget_bytes :: u64
  reserved_bytes :: u64
  waiting :: nat

record AdmissionInner =
  adm_state :: AdmissionState
  decompression_factor :: u64
  wait_timeout :: nat

definition AdmissionController_new :: "u64 \<Rightarrow> u64 \<Rightarrow> nat \<Rightarrow> AdmissionInner" where
  "AdmissionController_new budget factor timeout =
     \<lparr>adm_state = \<lparr>budget_bytes = budget, reserved_bytes = 0, waiting = 0\<rparr>,
      decompression_factor = max factor 1, wait_timeout = timeout\<rparr>"

definition saturating_mul :: "u64 \<Rightarrow> u64 \<Rightarrow> u64" where
  "saturating_mul a b = (if unat a * unat b < 2 ^ 64 then a * b else - 1)"

definition saturating_plus :: "u64 \<Rightarrow> u64 \<Rightarrow> u64" where
  "saturating_plus a b = (if unat a + unat b < 2 ^ 64 then a + b else - 1)"

definition saturating_sub :: "u64 \<Rightarrow> u64 \<Rightarrow> u64" where
  "saturating_sub a b = (if b \<le> a then a - b else 0)"

definition reservation_bytes :: "u64 option \<Rightarrow> u64 \<Rightarrow> AdmissionInner \<Rightarrow> u64" where
  "reservation_bytes env estimated_bytes_scanned c =
     (let budget = max (budget_bytes (adm_state c)) 1;
          heuristic = saturating_mul estimated_bytes_scanned (decompression_factor c) in
      max (min (max heuristic MIN_RESERVATION_BYTES) (max (budget div per_query_share_divisor env) 1)) 1)"

definition batch_reservation_bytes :: "AdmissionInner \<Rightarrow> u64" where
  "batch_reservation_bytes c =
     (let budget = budget_bytes (adm_state c) in
      if budget = 0 then 0 else max (budget div BATCH_SHARE_DIVISOR) 1)"

definition unestimated_reservation_bytes :: "u64 option \<Rightarrow> AdmissionInner \<Rightarrow> u64" where
  "unestimated_reservation_bytes env c =
     (let budget = budget_bytes (adm_state c) in
      if budget = 0 then 0
      else max (min MIN_RESERVATION_BYTES (max (budget div per_query_share_divisor env) 1)) 1)"

section \<open>Tasks\<close>

text \<open>Where a task is in \<^verbatim>\<open>acquire\<close>: \<open>Trying\<close> after \<^verbatim>\<open>enable\<close>, \<open>Refused\<close> after a failed check and before
  the sleep, \<open>Sleeping\<close> with its waiting guard, \<open>Holding\<close> the returned guard, \<open>Notifying\<close> when the
  drop of the guard has given the bytes back and not yet notified. The flag of the middle three
  says whether the registration has been woken.\<close>

datatype phase =
    Start u64
  | Trying u64 bool
  | Refused u64 bool
  | Sleeping u64 bool
  | Holding u64
  | Notifying
  | Failed nat
  | Dropped

type_synonym tasks = "nat \<Rightarrow> phase"
type_synonym world = "AdmissionInner \<times> tasks"

text \<open>\<^verbatim>\<open>notify_waiters\<close> wakes every registered future.\<close>

definition notify_waiters :: "tasks \<Rightarrow> tasks" where
  "notify_waiters ts = (\<lambda>i. case ts i of
      Trying n _ \<Rightarrow> Trying n True
    | Refused n _ \<Rightarrow> Refused n True
    | Sleeping n _ \<Rightarrow> Sleeping n True
    | p \<Rightarrow> p)"

definition set_reserved :: "u64 \<Rightarrow> AdmissionInner \<Rightarrow> AdmissionInner" where
  "set_reserved r c = c\<lparr>adm_state := (adm_state c)\<lparr>reserved_bytes := r\<rparr>\<rparr>"

definition set_waiting :: "nat \<Rightarrow> AdmissionInner \<Rightarrow> AdmissionInner" where
  "set_waiting w c = c\<lparr>adm_state := (adm_state c)\<lparr>waiting := w\<rparr>\<rparr>"

definition failure_hint :: "AdmissionInner \<Rightarrow> nat" where
  "failure_hint c = max (wait_timeout c) 1"

inductive step :: "world \<Rightarrow> world \<Rightarrow> bool" where
  disabled: "ts i = Start n \<Longrightarrow> budget_bytes (adm_state c) = 0 \<Longrightarrow> step (c, ts) (c, ts(i := Holding 0))"
| enable: "ts i = Start n \<Longrightarrow> budget_bytes (adm_state c) \<noteq> 0 \<Longrightarrow> step (c, ts) (c, ts(i := Trying n False))"
| admit: "ts i = Trying n w \<Longrightarrow> saturating_plus (reserved_bytes (adm_state c)) n \<le> budget_bytes (adm_state c) \<Longrightarrow>
    step (c, ts) (set_reserved (saturating_plus (reserved_bytes (adm_state c)) n) c, ts(i := Holding n))"
| refuse: "ts i = Trying n w \<Longrightarrow> \<not> saturating_plus (reserved_bytes (adm_state c)) n \<le> budget_bytes (adm_state c) \<Longrightarrow>
    step (c, ts) (c, ts(i := Refused n w))"
| deadline: "ts i = Refused n w \<Longrightarrow> step (c, ts) (c, ts(i := Failed (failure_hint c)))"
| sleep: "ts i = Refused n w \<Longrightarrow>
    step (c, ts) (set_waiting (waiting (adm_state c) + 1) c, ts(i := Sleeping n w))"
| wake: "ts i = Sleeping n True \<Longrightarrow>
    step (c, ts) (set_waiting (waiting (adm_state c) - 1) c, ts(i := Trying n False))"
| timeout: "ts i = Sleeping n w \<Longrightarrow>
    step (c, ts) (set_waiting (waiting (adm_state c) - 1) c, ts(i := Failed (failure_hint c)))"
| give_back: "ts i = Holding n \<Longrightarrow>
    step (c, ts) (set_reserved (saturating_sub (reserved_bytes (adm_state c)) n) c, ts(i := Notifying))"
| notify: "ts i = Notifying \<Longrightarrow> step (c, ts) (c, notify_waiters (ts(i := Dropped)))"

inductive reachable :: "u64 \<Rightarrow> u64 \<Rightarrow> nat \<Rightarrow> tasks \<Rightarrow> world \<Rightarrow> bool" for budget factor timeout ts0 where
  init: "reachable budget factor timeout ts0 (AdmissionController_new budget factor timeout, ts0)"
| more: "reachable budget factor timeout ts0 w \<Longrightarrow> step w w' \<Longrightarrow> reachable budget factor timeout ts0 w'"

section \<open>Invariants\<close>

text \<open>Finitely many tasks, all of them at the start.\<close>

definition fresh :: "nat \<Rightarrow> tasks \<Rightarrow> bool" where
  "fresh n ts \<longleftrightarrow> (\<forall>i. if i < n then (\<exists>b. ts i = Start b) else ts i = Dropped)"

definition held :: "phase \<Rightarrow> nat" where
  "held p = (case p of Holding n \<Rightarrow> unat n | _ \<Rightarrow> 0)"

definition asleep :: "phase \<Rightarrow> nat" where
  "asleep p = (case p of Sleeping _ _ \<Rightarrow> 1 | _ \<Rightarrow> 0)"

text \<open>The books balance: what is reserved is what the guards hold, never more than the budget; the
  gauge counts the sleepers; and no task is refused or asleep without a wake-up while its request
  would fit, except between a give-back and its notification.\<close>

definition books :: "nat \<Rightarrow> world \<Rightarrow> bool" where
  "books n = (\<lambda>(c, ts).
     (\<forall>i \<ge> n. ts i = Dropped) \<and>
     unat (reserved_bytes (adm_state c)) = (\<Sum>i < n. held (ts i)) \<and>
     reserved_bytes (adm_state c) \<le> budget_bytes (adm_state c) \<and>
     waiting (adm_state c) = (\<Sum>i < n. asleep (ts i)) \<and>
     ((\<forall>i m. ts i = Refused m False \<or> ts i = Sleeping m False \<longrightarrow>
        \<not> saturating_plus (reserved_bytes (adm_state c)) m \<le> budget_bytes (adm_state c)) \<or>
      (\<exists>j. ts j = Notifying)))"

lemma sum_upd:
  fixes n :: nat
  shows "i < n \<Longrightarrow> (\<Sum>j < n. f ((ts(i := p)) j)) + f (ts i) = (\<Sum>j < n. f (ts j)) + (f p :: nat)"
proof -
  assume i: "i < n"
  have "(\<Sum>j < n. f ((ts(i := p)) j)) = f p + (\<Sum>j \<in> {..<n} - {i}. f ((ts(i := p)) j))"
    using i by (subst sum.remove [of _ i]) simp_all
  moreover have "(\<Sum>j \<in> {..<n} - {i}. f ((ts(i := p)) j)) = (\<Sum>j \<in> {..<n} - {i}. f (ts j))"
    by (rule sum.cong) auto
  moreover have "(\<Sum>j < n. f (ts j)) = f (ts i) + (\<Sum>j \<in> {..<n} - {i}. f (ts j))"
    using i by (subst sum.remove [of _ i]) simp_all
  ultimately show ?thesis by simp
qed

lemma notify_keeps [simp]: "held (notify_waiters ts i) = held (ts i)" "asleep (notify_waiters ts i) = asleep (ts i)"
  by (simp_all add: notify_waiters_def held_def asleep_def split: phase.split)

lemma notify_awake: "notify_waiters ts i \<noteq> Refused m False" "notify_waiters ts i \<noteq> Sleeping m False"
  by (simp_all add: notify_waiters_def split: phase.split)

lemma notify_Dropped: "notify_waiters ts i = Dropped \<longleftrightarrow> ts i = Dropped"
  by (simp add: notify_waiters_def split: phase.split)

lemma unat_saturating_plus: "unat (saturating_plus a b) = min (2 ^ 64 - 1) (unat a + unat b)"
proof -
  have "unat a < 2 ^ LENGTH(64)" "unat b < 2 ^ LENGTH(64)" by (rule unsigned_less)+
  then show ?thesis
    by (auto simp: saturating_plus_def unat_word_ariths unsigned_minus_1_eq_mask mask_eq_exp_minus_1)
qed

lemma plus_fits:
  assumes "saturating_plus r m \<le> b" and "b \<noteq> - 1"
  shows "unat (saturating_plus r m) = unat r + unat m"
proof -
  have "unat b \<noteq> 2 ^ 64 - 1"
    using assms(2) by (auto simp: word_unat_eq_iff unsigned_minus_1_eq_mask mask_eq_exp_minus_1)
  moreover have "unat b < 2 ^ LENGTH(64)" by (rule unsigned_less)
  moreover have "min (2 ^ 64 - 1) (unat r + unat m) \<le> unat b"
    using assms(1) by (simp add: word_le_nat_alt unat_saturating_plus)
  ultimately show ?thesis by (simp add: unat_saturating_plus)
qed

lemma plus_mono: "r \<le> r' \<Longrightarrow> saturating_plus r m \<le> saturating_plus r' m"
  by (simp add: word_le_nat_alt unat_saturating_plus)

lemma adm_update [simp]:
  "budget_bytes (adm_state (set_reserved r c)) = budget_bytes (adm_state c)"
  "reserved_bytes (adm_state (set_reserved r c)) = r"
  "waiting (adm_state (set_reserved r c)) = waiting (adm_state c)"
  "budget_bytes (adm_state (set_waiting w c)) = budget_bytes (adm_state c)"
  "reserved_bytes (adm_state (set_waiting w c)) = reserved_bytes (adm_state c)"
  "waiting (adm_state (set_waiting w c)) = w"
  by (simp_all add: set_reserved_def set_waiting_def)

lemma unat_saturating_sub: "unat (saturating_sub a b) = unat a - unat b"
  by (auto simp: saturating_sub_def unat_sub word_le_nat_alt)

text \<open>A step that only moves one task between phases, without touching the reserved bytes.\<close>

lemma books_move:
  assumes b: "books n (c, ts)" and i: "ts i \<noteq> Dropped" "ts i \<noteq> Notifying"
    and h: "held p = held (ts i)" and w: "w + asleep (ts i) = waiting (adm_state c) + asleep p"
    and quiet: "\<And>m. p = Refused m False \<or> p = Sleeping m False \<Longrightarrow>
      \<not> saturating_plus (reserved_bytes (adm_state c)) m \<le> budget_bytes (adm_state c) \<or> (\<exists>j. ts j = Notifying)"
  shows "books n (set_waiting w c, ts(i := p))"
proof -
  have "i < n" using b i by (auto simp: books_def not_le [symmetric])
  then have "(\<Sum>j < n. held ((ts(i := p)) j)) = (\<Sum>j < n. held (ts j))"
      "(\<Sum>j < n. asleep ((ts(i := p)) j)) = w"
    using sum_upd [of i n held ts p] sum_upd [of i n asleep ts p] h w b by (auto simp: books_def)
  moreover have "(\<forall>j m. (ts(i := p)) j = Refused m False \<or> (ts(i := p)) j = Sleeping m False \<longrightarrow>
      \<not> saturating_plus (reserved_bytes (adm_state c)) m \<le> budget_bytes (adm_state c)) \<or> (\<exists>j. (ts(i := p)) j = Notifying)"
  proof (cases "\<exists>j. ts j = Notifying")
    case True
    then obtain j where "ts j = Notifying" ..
    then have "(ts(i := p)) j = Notifying" using i(2) by auto
    then show ?thesis by blast
  next
    case False
    then show ?thesis using quiet b by (auto simp: books_def split: if_splits)
  qed
  ultimately show ?thesis using b \<open>i < n\<close> by (simp add: books_def)
qed

lemma set_waiting_same [simp]: "set_waiting (waiting (adm_state c)) c = c"
  by (simp add: set_waiting_def)

lemma books_admit:
  assumes b: "books n (c, ts)" and t: "ts i = Trying m w" and B: "budget_bytes (adm_state c) \<noteq> - 1"
    and fits: "saturating_plus (reserved_bytes (adm_state c)) m \<le> budget_bytes (adm_state c)"
  shows "books n (set_reserved (saturating_plus (reserved_bytes (adm_state c)) m) c, ts(i := Holding m))"
proof -
  let ?r = "reserved_bytes (adm_state c)"
  have i: "i < n" using b t by (auto simp: books_def not_le [symmetric])
  have r: "unat (saturating_plus ?r m) = unat ?r + unat m" by (rule plus_fits [OF fits B])
  then have "?r \<le> saturating_plus ?r m" by (simp add: word_le_nat_alt)
  then have mono: "\<not> saturating_plus (saturating_plus ?r m) k \<le> budget_bytes (adm_state c)"
    if "\<not> saturating_plus ?r k \<le> budget_bytes (adm_state c)" for k
    using plus_mono that order_trans by blast
  have "(\<forall>j k. (ts(i := Holding m)) j = Refused k False \<or> (ts(i := Holding m)) j = Sleeping k False \<longrightarrow>
      \<not> saturating_plus (saturating_plus ?r m) k \<le> budget_bytes (adm_state c)) \<or> (\<exists>j. (ts(i := Holding m)) j = Notifying)"
  proof (cases "\<exists>j. ts j = Notifying")
    case True
    then obtain j where "ts j = Notifying" ..
    then have "(ts(i := Holding m)) j = Notifying" using t by auto
    then show ?thesis by blast
  next
    case False
    then show ?thesis using mono b by (auto simp: books_def)
  qed
  moreover have "(\<Sum>j < n. held ((ts(i := Holding m)) j)) = unat ?r + unat m"
      "(\<Sum>j < n. asleep ((ts(i := Holding m)) j)) = waiting (adm_state c)"
    using b i t sum_upd [of i n held ts "Holding m"] sum_upd [of i n asleep ts "Holding m"]
    by (simp_all add: books_def held_def asleep_def)
  ultimately show ?thesis
    using b i r fits by (simp add: books_def)
qed

lemma books_give_back:
  assumes b: "books n (c, ts)" and t: "ts i = Holding m"
  shows "books n (set_reserved (saturating_sub (reserved_bytes (adm_state c)) m) c, ts(i := Notifying))"
proof -
  have i: "i < n" using b t by (auto simp: books_def not_le [symmetric])
  have "(\<Sum>j < n. held ((ts(i := Notifying)) j)) + unat m = unat (reserved_bytes (adm_state c))"
    using sum_upd [of i n held ts Notifying] i t b by (simp add: books_def held_def)
  moreover have "(\<Sum>j < n. asleep ((ts(i := Notifying)) j)) = waiting (adm_state c)"
    using sum_upd [of i n asleep ts Notifying] i t b by (simp add: books_def asleep_def)
  moreover have "saturating_sub (reserved_bytes (adm_state c)) m \<le> budget_bytes (adm_state c)"
    using b le_trans [OF diff_le_self, of "unat (reserved_bytes (adm_state c))" _ "unat m"]
    by (auto simp: books_def word_le_nat_alt unat_saturating_sub)
  moreover have "(ts(i := Notifying)) i = Notifying" by simp
  ultimately show ?thesis
    using b i unfolding books_def prod.case
    by (intro conjI disjI2 exI [of _ i]) (simp_all add: unat_saturating_sub)
qed

lemma books_notify:
  assumes b: "books n (c, ts)" and t: "ts i = Notifying"
  shows "books n (c, notify_waiters (ts(i := Dropped)))"
proof -
  have i: "i < n" using b t by (auto simp: books_def not_le [symmetric])
  have "(\<Sum>j < n. held ((ts(i := Dropped)) j)) = (\<Sum>j < n. held (ts j))"
       "(\<Sum>j < n. asleep ((ts(i := Dropped)) j)) = (\<Sum>j < n. asleep (ts j))"
    using sum_upd [of i n held ts Dropped] sum_upd [of i n asleep ts Dropped] i t by (simp_all add: held_def asleep_def)
  then show ?thesis
    using b by (auto simp: books_def notify_awake notify_Dropped)
qed

lemma books_asleep: "books n (c, ts) \<Longrightarrow> asleep (ts i) \<le> waiting (adm_state c)"
proof (cases "i < n")
  case True
  assume "books n (c, ts)"
  then show ?thesis using member_le_sum [of i "{..<n}" "\<lambda>i. asleep (ts i)"] True by (simp add: books_def)
next
  case False
  assume "books n (c, ts)"
  then show ?thesis using False by (simp add: books_def asleep_def not_less)
qed

lemma books_step:
  assumes "step (c, ts) (c', ts')" and b: "books n (c, ts)" and "budget_bytes (adm_state c) \<noteq> - 1"
  shows "books n (c', ts') \<and> budget_bytes (adm_state c') = budget_bytes (adm_state c)"
  using assms(1)
proof (cases rule: step.cases)
  case (disabled i m)
  then show ?thesis using books_move [OF b, of i "Holding 0" "waiting (adm_state c)"]
    by (simp add: held_def asleep_def)
next
  case (enable i m)
  then show ?thesis using books_move [OF b, of i "Trying m False" "waiting (adm_state c)"]
    by (simp add: held_def asleep_def)
next
  case (admit i m w)
  then show ?thesis using books_admit [OF b _ assms(3)] by simp
next
  case (refuse i m w)
  then show ?thesis using books_move [OF b, of i "Refused m w" "waiting (adm_state c)"]
    by (simp add: held_def asleep_def)
next
  case (deadline i m w)
  then show ?thesis using books_move [OF b, of i "Failed (failure_hint c)" "waiting (adm_state c)"]
    by (simp add: held_def asleep_def)
next
  case (sleep i m w)
  then have "w = False \<Longrightarrow> \<not> saturating_plus (reserved_bytes (adm_state c)) m \<le> budget_bytes (adm_state c) \<or> (\<exists>j. ts j = Notifying)"
    using b by (auto simp: books_def)
  then show ?thesis using sleep books_move [OF b, of i "Sleeping m w" "waiting (adm_state c) + 1"]
    by (auto simp: held_def asleep_def)
next
  case (wake i m)
  then show ?thesis using books_asleep [OF b, of i] books_move [OF b, of i "Trying m False" "waiting (adm_state c) - 1"]
    by (simp add: held_def asleep_def)
next
  case (timeout i m w)
  then show ?thesis using books_asleep [OF b, of i] books_move [OF b, of i "Failed (failure_hint c)" "waiting (adm_state c) - 1"]
    by (simp add: held_def asleep_def)
next
  case (give_back i m)
  then show ?thesis using books_give_back [OF b] by simp
next
  case (notify i)
  then show ?thesis using books_notify [OF b] by simp
qed

lemma reachable_books:
  assumes "reachable budget factor tmo ts0 w" and "fresh n ts0" and "budget \<noteq> - 1"
  shows "books n w \<and> budget_bytes (adm_state (fst w)) = budget"
  using assms(1)
proof (induction rule: reachable.induct)
  case init
  have "held (ts0 i) = 0 \<and> asleep (ts0 i) = 0 \<and> (\<forall>m b. ts0 i \<noteq> Refused m b \<and> ts0 i \<noteq> Sleeping m b)" for i
    using assms(2) by (cases "i < n") (auto simp: fresh_def held_def asleep_def split: if_splits dest!: spec [of _ i])
  then show ?case
    using assms(2) by (auto simp: books_def AdmissionController_new_def fresh_def not_less)
next
  case (more w w')
  then show ?case
    using books_step [of "fst w" "snd w" "fst w'" "snd w'" n] assms(3) by (cases w; cases w') auto
qed

text \<open>C28. In every interleaving of any number of queries, the live guards hold together exactly the
  reserved bytes, never more than the budget, and no query sleeps unwoken while its request would
  fit, unless a dropped guard is about to notify.\<close>

theorem admission_invariant:
  assumes "reachable budget factor tmo ts0 (c, ts)" and "fresh n ts0" and "budget \<noteq> - 1"
  shows "(\<Sum>i < n. held (ts i)) = unat (reserved_bytes (adm_state c)) \<and>
    (\<Sum>i < n. held (ts i)) \<le> unat budget \<and>
    waiting (adm_state c) = (\<Sum>i < n. asleep (ts i)) \<and>
    (\<forall>i m. ts i = Sleeping m False \<longrightarrow>
       \<not> saturating_plus (reserved_bytes (adm_state c)) m \<le> budget \<or> (\<exists>j. ts j = Notifying))"
  using reachable_books [OF assms] by (auto simp: books_def word_le_nat_alt)

definition two_tasks :: tasks where
  "two_tasks = (\<lambda>i. if i < 2 then Start 10 else Dropped)"

lemma two_tasks_fresh: "fresh 2 two_tasks"
  by (simp add: fresh_def two_tasks_def)

theorem admission_invariant_witness:
  "(\<Sum>i < 2. held (two_tasks i)) \<le> unat (10 :: u64)"
  using admission_invariant [OF reachable.init [of 10 1 5 two_tasks, unfolded AdmissionController_new_def] two_tasks_fresh]
  by simp

text \<open>One query holds the whole budget, a second one sleeps, and the first is dropped.\<close>

lemma handover:
  obtains c ts where "reachable 10 1 5 two_tasks (c, ts)" and "ts 1 = Sleeping 10 True" and "\<forall>j. held (ts j) = 0 \<and> ts j \<noteq> Notifying"
proof -
  let ?c0 = "AdmissionController_new 10 1 5"
  let ?c1 = "set_reserved (saturating_plus 0 10) ?c0"
  let ?c2 = "set_waiting (waiting (adm_state ?c1) + 1) ?c1"
  let ?c3 = "set_reserved (saturating_sub 10 10) ?c2"
  have c0: "budget_bytes (adm_state ?c0) = 10" "reserved_bytes (adm_state ?c0) = 0"
    by (simp_all add: AdmissionController_new_def)
  have s: "saturating_plus 0 10 = 10" "saturating_plus 10 10 = 20" "\<not> (20 :: u64) \<le> 10"
    by (simp_all add: saturating_plus_def)
  have "reachable 10 1 5 two_tasks (?c0, two_tasks)" by (rule reachable.init)
  then have "reachable 10 1 5 two_tasks (?c0, two_tasks(0 := Trying 10 False))"
    by (rule reachable.more) (rule step.enable, simp_all add: two_tasks_def c0)
  then have "reachable 10 1 5 two_tasks (?c0, two_tasks(0 := Trying 10 False, 1 := Trying 10 False))"
    by (rule reachable.more) (rule step.enable, simp_all add: two_tasks_def c0)
  then have "reachable 10 1 5 two_tasks (?c1, two_tasks(0 := Trying 10 False, 1 := Trying 10 False, 0 := Holding 10))"
    by (rule reachable.more)
      (use step.admit [of "two_tasks(0 := Trying 10 False, 1 := Trying 10 False)" 0 10 False ?c0] in \<open>simp_all add: c0 s\<close>)
  then have "reachable 10 1 5 two_tasks (?c1, two_tasks(0 := Trying 10 False, 1 := Trying 10 False, 0 := Holding 10, 1 := Refused 10 False))"
    by (rule reachable.more) (rule step.refuse, simp_all add: c0 s)
  then have "reachable 10 1 5 two_tasks (?c2, two_tasks(0 := Trying 10 False, 1 := Trying 10 False, 0 := Holding 10, 1 := Refused 10 False, 1 := Sleeping 10 False))"
    by (rule reachable.more) (rule step.sleep, simp_all)
  then have "reachable 10 1 5 two_tasks (?c3, two_tasks(0 := Trying 10 False, 1 := Trying 10 False, 0 := Holding 10, 1 := Refused 10 False, 1 := Sleeping 10 False, 0 := Notifying))"
    by (rule reachable.more)
      (use step.give_back [of "two_tasks(0 := Trying 10 False, 1 := Trying 10 False, 0 := Holding 10, 1 := Refused 10 False, 1 := Sleeping 10 False)" 0 10 ?c2] in \<open>simp_all add: c0 s\<close>)
  then have "reachable 10 1 5 two_tasks (?c3, notify_waiters (two_tasks(0 := Trying 10 False, 1 := Trying 10 False, 0 := Holding 10, 1 := Refused 10 False, 1 := Sleeping 10 False, 0 := Notifying, 0 := Dropped)))"
    by (rule reachable.more) (rule step.notify, simp)
  then show thesis
    by (rule that) (auto simp: notify_waiters_def held_def two_tasks_def split: phase.splits)
qed

text \<open>C29. When every other query is done, a sleeping query whose request is within the budget can
  only go forward: it has been woken, its next step re-checks, and the check admits it.\<close>

theorem sleeper_is_admitted:
  assumes "reachable budget factor tmo ts0 (c, ts)" and "fresh n ts0" and "budget \<noteq> - 1"
    and "ts i = Sleeping m w" and "m \<le> budget" and "\<forall>j. held (ts j) = 0 \<and> ts j \<noteq> Notifying"
  shows "w \<and> (\<exists>c1 c2. step (c, ts) (c1, ts(i := Trying m False)) \<and>
    step (c1, ts(i := Trying m False)) (c2, ts(i := Holding m)))"
proof -
  have b: "books n (c, ts)" and B: "budget_bytes (adm_state c) = budget"
    using reachable_books [OF assms(1-3)] by auto
  have r: "reserved_bytes (adm_state c) = 0"
    using b assms(6) by (simp add: books_def unat_eq_zero)
  have z: "saturating_plus 0 m = m"
  proof -
    have "unat m < 2 ^ LENGTH(64)" by (rule unsigned_less)
    then show ?thesis by (simp add: saturating_plus_def)
  qed
  have w: "w"
  proof (rule ccontr)
    assume "\<not> w"
    then have "ts i = Sleeping m False" using assms(4) by simp
    then have "\<not> saturating_plus (reserved_bytes (adm_state c)) m \<le> budget_bytes (adm_state c)"
      using b assms(6) unfolding books_def prod.case by blast
    then show False using assms(5) B r z by simp
  qed
  let ?c = "set_waiting (waiting (adm_state c) - 1) c"
  have "step (c, ts) (?c, ts(i := Trying m False))"
    using assms(4) w by (intro step.wake) simp
  moreover have "step (?c, ts(i := Trying m False))
      (set_reserved (saturating_plus (reserved_bytes (adm_state ?c)) m) ?c, (ts(i := Trying m False))(i := Holding m))"
    by (rule step.admit [of _ _ _ False]) (use assms(5) B r z in simp_all)
  ultimately show ?thesis using w by auto
qed

theorem sleeper_is_admitted_witness:
  "\<exists>c ts c1 c2. ts 1 = Sleeping 10 True \<and> step (c, ts) (c1, ts(1 := Trying 10 False)) \<and>
     step (c1, ts(1 := Trying 10 False)) (c2, ts(1 := Holding 10))"
proof -
  obtain c ts where h: "reachable 10 1 5 two_tasks (c, ts)" "ts 1 = Sleeping 10 True" "\<forall>j. held (ts j) = 0 \<and> ts j \<noteq> Notifying"
    by (rule handover)
  from sleeper_is_admitted [OF h(1) two_tasks_fresh _ h(2) _ h(3)] h(2) show ?thesis by auto
qed

end
