(* ===== verification/Bloom.thy ===== *)
theory Bloom
  imports Text "HOL-Library.Sublist"
begin

text \<open>
  The text bloom filters of \<^verbatim>\<open>crates/loglake-bloom/src/lib.rs\<close>: the tokenizers, the trigram
  decomposition of a row and of a \<^verbatim>\<open>LIKE\<close> substring, the filter itself with its FNV-1a double
  hashing, and the footer forms of one filter and of the list of row-group filters. A filter is
  consulted to skip data, so what matters is that it never denies something that was put in, and
  that this survives the trip through a footer. The two floating-point sizing expressions of
  \<^verbatim>\<open>build\<close> are arguments.
\<close>

definition BLOOM_MAGIC :: bytes where "BLOOM_MAGIC = ascii_bytes ''LKBF''"
definition ROWGROUP_LIST_MAGIC :: bytes where "ROWGROUP_LIST_MAGIC = ascii_bytes ''LKBL''"
definition BLOOM_FORMAT_VERSION :: u8 where "BLOOM_FORMAT_VERSION = 1"
definition TRIGRAM_LEN :: nat where "TRIGRAM_LEN = 3"
definition MIN_TOKEN_LEN :: nat where "MIN_TOKEN_LEN = 3"
definition MAX_TOKENS_PER_ROW :: nat where "MAX_TOKENS_PER_ROW = 64"

section \<open>Tokenizers\<close>

datatype Tokenizer = Default | Raw | Stem

definition Tokenizer_parse :: "rstr \<Rightarrow> Tokenizer option" where
  "Tokenizer_parse name =
     (let n = to_ascii_lowercase (trim name) in
      if n = ascii ''default'' then Some Default
      else if n = ascii ''raw'' then Some Raw
      else if n = ascii ''stem'' then Some Stem
      else None)"

fun tokenize_loop :: "rstr list \<Rightarrow> rstr list \<Rightarrow> rstr list" where
  "tokenize_loop [] out = out"
| "tokenize_loop (piece # rest) out =
     (if str_len piece < MIN_TOKEN_LEN then tokenize_loop rest out
      else
        let out = out @ [to_ascii_lowercase piece] in
        if length out \<ge> MAX_TOKENS_PER_ROW then out else tokenize_loop rest out)"

definition default_tokenize :: "rstr \<Rightarrow> rstr list" where
  "default_tokenize raw = tokenize_loop (split_on (\<lambda>c. \<not> is_ascii_alphanumeric c) raw) []"

definition strip_suffix_with_guard :: "rstr \<Rightarrow> rstr \<Rightarrow> nat \<Rightarrow> rstr option" where
  "strip_suffix_with_guard token suf min_stem_len =
     (case strip_suffix suf token of
        None \<Rightarrow> None
      | Some stem \<Rightarrow>
          let has_vowel = (\<exists>b \<in> set (utf8 stem). b \<in> set (ascii_bytes ''aeiouy'')) in
          if str_len stem \<ge> min_stem_len \<and> has_vowel then Some stem else None)"

definition strip_plural_es :: "rstr \<Rightarrow> rstr option" where
  "strip_plural_es token =
     (case strip_suffix (ascii ''es'') token of
        None \<Rightarrow> None
      | Some stem \<Rightarrow> if str_len stem \<ge> MIN_TOKEN_LEN \<and> stem \<noteq> [] then Some stem else None)"

definition strip_plural_s :: "rstr \<Rightarrow> rstr option" where
  "strip_plural_s token =
     (case strip_suffix (ascii ''s'') token of
        None \<Rightarrow> None
      | Some stem \<Rightarrow>
          if strip_suffix (ascii ''ss'') token = None \<and> str_len stem \<ge> MIN_TOKEN_LEN then Some stem else None)"

definition lite_stem :: "rstr \<Rightarrow> rstr option" where
  "lite_stem token =
     (let stemmed =
        (case strip_suffix_with_guard token (ascii ''ing'') 4 of
           Some stem \<Rightarrow> stem
         | None \<Rightarrow> (case strip_suffix_with_guard token (ascii ''ed'') 3 of
             Some stem \<Rightarrow> stem
           | None \<Rightarrow> (case strip_plural_es token of
               Some stem \<Rightarrow> stem
             | None \<Rightarrow> (case strip_plural_s token of
                 Some stem \<Rightarrow> stem
               | None \<Rightarrow> token)))) in
      if str_len stemmed \<ge> MIN_TOKEN_LEN then Some stemmed else None)"

definition Tokenizer_tokenize :: "Tokenizer \<Rightarrow> rstr \<Rightarrow> rstr list" where
  "Tokenizer_tokenize self txt =
     (case self of
        Default \<Rightarrow> default_tokenize txt
      | Raw \<Rightarrow> [to_ascii_lowercase txt]
      | Stem \<Rightarrow> List.map_filter lite_stem (default_tokenize txt))"

definition tokenize :: "rstr \<Rightarrow> rstr list" where
  "tokenize raw = Tokenizer_tokenize Default raw"

definition normalize_query_term :: "rstr \<Rightarrow> rstr option" where
  "normalize_query_term term =
     (let trimmed = trim term in
      if str_len trimmed < MIN_TOKEN_LEN \<or> \<not> (\<forall>c \<in> set trimmed. is_ascii_alphanumeric c) then None
      else Some (to_ascii_lowercase trimmed))"

section \<open>Trigrams\<close>

definition windows :: "nat \<Rightarrow> 'a list \<Rightarrow> 'a list list" where
  "windows n xs = map (\<lambda>i. take n (drop i xs)) [0..<Suc (length xs) - n]"

definition trigrams :: "rstr \<Rightarrow> rstr list" where
  "trigrams raw =
     (let chars = to_ascii_lowercase raw in
      if length chars < TRIGRAM_LEN then [] else windows TRIGRAM_LEN chars)"

record TrigramSet =
  grams :: "rstr list"
  chars_buf :: rstr
  gram_buf :: rstr

definition TrigramSet_new :: TrigramSet where
  "TrigramSet_new = \<lparr>grams = [], chars_buf = [], gram_buf = []\<rparr>"

definition add_window :: "rstr \<Rightarrow> TrigramSet \<Rightarrow> TrigramSet" where
  "add_window w s =
     (let s = s\<lparr>gram_buf := w\<rparr> in
      if gram_buf s \<notin> set (grams s) then s\<lparr>grams := grams s @ [gram_buf s]\<rparr> else s)"

definition TrigramSet_add :: "rstr \<Rightarrow> TrigramSet \<Rightarrow> TrigramSet" where
  "TrigramSet_add v s =
     (let s = s\<lparr>chars_buf := to_ascii_lowercase v\<rparr> in
      if length (chars_buf s) < TRIGRAM_LEN then s
      else fold add_window (windows TRIGRAM_LEN (chars_buf s)) s)"

fun dedup_loop :: "rstr list \<Rightarrow> rstr list \<Rightarrow> rstr list" where
  "dedup_loop seen [] = []"
| "dedup_loop seen (t # ts) = (if t \<in> set seen then dedup_loop seen ts else t # dedup_loop (t # seen) ts)"

definition query_trigrams :: "rstr \<Rightarrow> rstr list option" where
  "query_trigrams substr =
     (let tris = trigrams substr in if tris = [] then None else Some (dedup_loop [] tris))"

section \<open>The filter\<close>

definition fnv1a :: "bytes \<Rightarrow> u64 \<Rightarrow> u64" where
  "fnv1a data seed = fold (\<lambda>byte hash. (hash XOR ucast byte) * 0x100000001b3) data seed"

definition double_hash :: "rstr \<Rightarrow> u64 \<times> u64" where
  "double_hash token =
     (let bytes = utf8 token in
      (fnv1a bytes 0xcbf29ce484222325, fnv1a bytes 0x10000000000001b3 OR 1))"

record TokenBloom =
  bits :: bytes
  bloom_k :: u8

text \<open>The probe positions: \<^verbatim>\<open>h1.wrapping_add(i.wrapping_mul(h2)) % nbits\<close>.\<close>

definition probe :: "TokenBloom \<Rightarrow> u64 \<times> u64 \<Rightarrow> nat \<Rightarrow> nat" where
  "probe b h i = unat (fst h + of_nat i * snd h) mod (length (bits b) * 8)"

definition set_probe :: "u64 \<times> u64 \<Rightarrow> nat \<Rightarrow> TokenBloom \<Rightarrow> TokenBloom" where
  "set_probe h i b =
     (let bit = probe b h i in
      b\<lparr>bits := (bits b)[bit div 8 := bits b ! (bit div 8) OR push_bit (bit mod 8) 1]\<rparr>)"

definition bloom_insert :: "rstr \<Rightarrow> TokenBloom \<Rightarrow> TokenBloom" where
  "bloom_insert token b = (let h = double_hash token in fold (set_probe h) [0..<unat (bloom_k b)] b)"

definition maybe_contains :: "TokenBloom \<Rightarrow> rstr \<Rightarrow> bool" where
  "maybe_contains b token =
     (let h = double_hash token in
      \<forall>i \<in> set [0..<unat (bloom_k b)].
        let bit = probe b h i in bits b ! (bit div 8) AND push_bit (bit mod 8) 1 \<noteq> 0)"

text \<open>\<open>m_raw\<close> is the rounded-up bit count and \<open>k_raw\<close> the rounded probe count, both of the
  floating-point formulas, before the code clamps them.\<close>

definition build :: "(nat \<Rightarrow> nat) \<Rightarrow> (nat \<Rightarrow> nat \<Rightarrow> nat) \<Rightarrow> nat \<Rightarrow> rstr list \<Rightarrow> TokenBloom" where
  "build m_raw k_raw expected_tokens tokens =
     (let n = max expected_tokens 1;
          m_bits = max (m_raw n) 64;
          bytes = (m_bits + 7) div 8;
          k = of_nat (min 16 (max 1 (k_raw n (bytes * 8)))) in
      fold bloom_insert tokens \<lparr>bits = replicate bytes 0, bloom_k = k\<rparr>)"

section \<open>Footer forms\<close>

definition to_bytes :: "TokenBloom \<Rightarrow> bytes" where
  "to_bytes b = BLOOM_MAGIC @ [BLOOM_FORMAT_VERSION] @ [bloom_k b] @ bits b"

definition from_bytes :: "bytes \<Rightarrow> TokenBloom option" where
  "from_bytes bs =
     (case strip_prefix BLOOM_MAGIC bs of
        None \<Rightarrow> None
      | Some [] \<Rightarrow> None
      | Some (version # rest) \<Rightarrow>
          if version \<noteq> BLOOM_FORMAT_VERSION then None
          else (case rest of
                  [] \<Rightarrow> None
                | k # bs \<Rightarrow> if k = 0 \<or> bs = [] then None else Some \<lparr>bits = bs, bloom_k = k\<rparr>))"

definition HEX :: bytes where "HEX = ascii_bytes ''0123456789abcdef''"

definition hex_encode :: "bytes \<Rightarrow> bytes" where
  "hex_encode bs = concat (map (\<lambda>byte. [HEX ! unat (drop_bit 4 byte), HEX ! unat (byte AND 15)]) bs)"

definition nibble :: "u8 \<Rightarrow> u8 option" where
  "nibble c =
     (if 48 \<le> c \<and> c \<le> 57 then Some (c - 48)
      else if 97 \<le> c \<and> c \<le> 102 then Some (c - 97 + 10)
      else if 65 \<le> c \<and> c \<le> 70 then Some (c - 65 + 10)
      else None)"

fun hex_pairs :: "bytes \<Rightarrow> bytes option" where
  "hex_pairs (a # b # rest) =
     (case nibble a of
        None \<Rightarrow> None
      | Some hi \<Rightarrow> (case nibble b of
          None \<Rightarrow> None
        | Some lo \<Rightarrow> map_option ((#) (push_bit 4 hi OR lo)) (hex_pairs rest)))"
| "hex_pairs _ = Some []"

definition hex_decode :: "bytes \<Rightarrow> bytes option" where
  "hex_decode s = (if odd (length s) then None else hex_pairs s)"

definition to_hex :: "TokenBloom \<Rightarrow> bytes" where
  "to_hex b = hex_encode (to_bytes b)"

definition from_hex :: "bytes \<Rightarrow> TokenBloom option" where
  "from_hex s = Option.bind (hex_decode s) from_bytes"

definition rowgroup_blooms_to_hex :: "TokenBloom list \<Rightarrow> bytes" where
  "rowgroup_blooms_to_hex blooms =
     hex_encode (ROWGROUP_LIST_MAGIC @ [BLOOM_FORMAT_VERSION] @ to_le 4 (of_nat (length blooms) :: u32) @
       concat (map (\<lambda>b. to_le 4 (of_nat (length (to_bytes b)) :: u32) @ to_bytes b) blooms))"

text \<open>A slice past the end is \<open>None\<close>; an end that would overflow is past the end of any slice.\<close>

definition get_slice :: "bytes \<Rightarrow> nat \<Rightarrow> nat \<Rightarrow> bytes option" where
  "get_slice bs i n = (if i + n \<le> length bs then Some (take n (drop i bs)) else None)"

definition read_u32 :: "bytes \<Rightarrow> nat \<Rightarrow> (nat \<times> nat) option" where
  "read_u32 bs pos = map_option (\<lambda>w. (unat (from_le w :: u32), pos + 4)) (get_slice bs pos 4)"

primrec read_blooms :: "nat \<Rightarrow> bytes \<Rightarrow> nat \<Rightarrow> TokenBloom list \<Rightarrow> TokenBloom list option" where
  "read_blooms 0 bs pos blooms = Some blooms"
| "read_blooms (Suc n) bs pos blooms =
     (case read_u32 bs pos of
        None \<Rightarrow> None
      | Some (len, pos) \<Rightarrow>
          (case get_slice bs pos len of
             None \<Rightarrow> None
           | Some chunk \<Rightarrow>
               (case from_bytes chunk of
                  None \<Rightarrow> None
                | Some b \<Rightarrow> read_blooms n bs (pos + len) (blooms @ [b]))))"

definition rowgroup_blooms_from_hex :: "bytes \<Rightarrow> TokenBloom list option" where
  "rowgroup_blooms_from_hex s =
     (case hex_decode s of
        None \<Rightarrow> None
      | Some bs \<Rightarrow>
          (case strip_prefix ROWGROUP_LIST_MAGIC bs of
             None \<Rightarrow> None
           | Some [] \<Rightarrow> None
           | Some (version # bs) \<Rightarrow>
               if version \<noteq> BLOOM_FORMAT_VERSION then None
               else (case read_u32 bs 0 of
                       None \<Rightarrow> None
                     | Some (count, pos) \<Rightarrow> read_blooms count bs pos [])))"

section \<open>No false negatives\<close>

definition bloom_ok :: "TokenBloom \<Rightarrow> bool" where
  "bloom_ok b \<longleftrightarrow> bits b \<noteq> [] \<and> bloom_k b \<noteq> 0"

text \<open>What a probe tests, as a bit of the filter.\<close>

definition holds_bit :: "TokenBloom \<Rightarrow> nat \<Rightarrow> bool" where
  "holds_bit b n \<longleftrightarrow> bit (bits b ! (n div 8)) (n mod 8)"

lemma maybe_contains_iff:
  "maybe_contains b t \<longleftrightarrow> (\<forall>i < unat (bloom_k b). holds_bit b (probe b (double_hash t) i))"
  by (auto simp: maybe_contains_def holds_bit_def Let_def push_bit_of_1 and_exp_eq_0_iff_not_bit)

lemma set_probe_shape [simp]:
  "length (bits (set_probe h i b)) = length (bits b)" "bloom_k (set_probe h i b) = bloom_k b"
  by (simp_all add: set_probe_def Let_def)

lemma fold_set_probe_shape [simp]:
  "length (bits (fold (set_probe h) is b)) = length (bits b)" "bloom_k (fold (set_probe h) is b) = bloom_k b"
  by (induction "is" arbitrary: b) auto

lemma probe_cong: "length (bits b) = length (bits c) \<Longrightarrow> probe b h i = probe c h i"
  by (simp add: probe_def)

lemma probe_less: "bits b \<noteq> [] \<Longrightarrow> probe b h i div 8 < length (bits b)"
  unfolding probe_def by (subst less_mult_imp_div_less) auto

lemma set_probe_mono: "holds_bit b n \<Longrightarrow> holds_bit (set_probe h i b) n"
  by (cases "probe b h i div 8 = n div 8"; cases "n div 8 < length (bits b)")
    (simp_all add: holds_bit_def set_probe_def Let_def bit_or_iff list_update_beyond)

lemma set_probe_sets: "bits b \<noteq> [] \<Longrightarrow> holds_bit (set_probe h i b) (probe b h i)"
  using probe_less [of b h i]
  by (simp add: holds_bit_def set_probe_def Let_def bit_or_iff bit_exp_iff)

lemma fold_set_probe_mono: "holds_bit b n \<Longrightarrow> holds_bit (fold (set_probe h) is b) n"
  by (induction "is" arbitrary: b) (auto intro: set_probe_mono)

lemma fold_set_probe_sets:
  "bits b \<noteq> [] \<Longrightarrow> i \<in> set is \<Longrightarrow> holds_bit (fold (set_probe h) is b) (probe b h i)"
proof (induction "is" arbitrary: b)
  case (Cons j js)
  have ne: "bits (set_probe h j b) \<noteq> []"
    using Cons.prems(1) by (metis length_0_conv set_probe_shape(1))
  show ?case
  proof (cases "i \<in> set js")
    case True
    then show ?thesis
      using Cons.IH [OF ne] probe_cong [of "set_probe h j b" b h i] by simp
  next
    case False
    with Cons.prems show ?thesis by (auto intro!: fold_set_probe_mono set_probe_sets)
  qed
qed simp

lemma bloom_insert_shape [simp]:
  "length (bits (bloom_insert t b)) = length (bits b)" "bloom_k (bloom_insert t b) = bloom_k b"
  by (simp_all add: bloom_insert_def)

lemma bloom_insert_ok [simp]: "bloom_ok (bloom_insert t b) = bloom_ok b"
  by (metis bloom_insert_shape bloom_ok_def length_0_conv)

lemma bloom_insert_contains: "bits b \<noteq> [] \<Longrightarrow> maybe_contains (bloom_insert t b) t"
  using fold_set_probe_sets [of b _ "[0..<unat (bloom_k b)]" "double_hash t"]
  by (simp add: maybe_contains_iff probe_cong [of "bloom_insert t b" b]) (simp add: bloom_insert_def)

lemma bloom_insert_keeps: "maybe_contains b u \<Longrightarrow> maybe_contains (bloom_insert t b) u"
  by (simp add: maybe_contains_iff probe_cong [of "bloom_insert t b" b])
    (simp add: bloom_insert_def fold_set_probe_mono)

lemma fold_insert_contains:
  "bits b \<noteq> [] \<Longrightarrow> t \<in> set ts \<or> maybe_contains b t \<Longrightarrow> maybe_contains (fold bloom_insert ts b) t"
proof (induction ts arbitrary: b)
  case (Cons a ts)
  have "bits (bloom_insert a b) \<noteq> []"
    using Cons.prems(1) by (metis length_0_conv bloom_insert_shape(1))
  moreover have "t \<in> set ts \<or> maybe_contains (bloom_insert a b) t"
    using Cons.prems by (auto intro: bloom_insert_contains bloom_insert_keeps)
  ultimately show ?case using Cons.IH by simp
qed simp

lemma fold_insert_ok: "bloom_ok (fold bloom_insert ts b) = bloom_ok b"
  by (induction ts arbitrary: b) auto

lemma build_start_ok:
  "bloom_ok \<lparr>bits = replicate ((max m 64 + 7) div 8) 0, bloom_k = of_nat (min 16 (max 1 k))\<rparr>"
proof -
  have "min 16 (max 1 k) \<in> {1..16}" by auto
  then have "unat (of_nat (min 16 (max 1 k)) :: u8) \<noteq> 0"
    by (simp add: unat_of_nat)
  moreover have "0 < (max m 64 + 7) div 8" by (simp add: div_greater_zero_iff)
  ultimately show ?thesis by (auto simp: bloom_ok_def)
qed

lemma build_ok: "bloom_ok (build m k n ts)"
  unfolding build_def Let_def fold_insert_ok by (rule build_start_ok)

lemma build_contains: "t \<in> set ts \<Longrightarrow> maybe_contains (build m k n ts) t"
  unfolding build_def Let_def
  by (rule fold_insert_contains) (use build_start_ok in \<open>auto simp: bloom_ok_def\<close>)

section \<open>Footer round trip\<close>

lemma nibble_HEX: "n < 16 \<Longrightarrow> nibble (HEX ! n) = Some (of_nat n)"
proof -
  have "list_all (\<lambda>n. nibble (HEX ! n) = Some (of_nat n)) [0..<16]"
    by code_simp
  then show "n < 16 \<Longrightarrow> nibble (HEX ! n) = Some (of_nat n)"
    by (simp add: list_all_iff)
qed

lemma nibble_high: "nibble (HEX ! unat (drop_bit 4 (x :: u8))) = Some (drop_bit 4 x)"
proof -
  have "unat (drop_bit 4 x) = unat x div 16"
    by (simp add: drop_bit_eq_div unat_div)
  moreover have "unat x < 2 ^ LENGTH(8)" by (rule unsigned_less)
  ultimately have "unat (drop_bit 4 x) < 16" by simp
  then show ?thesis by (simp add: nibble_HEX)
qed

lemma nibble_low: "nibble (HEX ! unat ((x :: u8) AND 15)) = Some (x AND 15)"
proof -
  have "x AND 15 \<le> 15" by (rule word_and_le1)
  then have "unat (x AND 15) < 16" by (simp add: word_le_nat_alt)
  then show ?thesis by (simp add: nibble_HEX)
qed

lemma nibbles_join: "push_bit 4 (drop_bit 4 x) OR (x AND 15) = (x :: u8)"
proof -
  have "x AND 15 = take_bit 4 x" by (simp add: take_bit_eq_mask mask_eq_exp_minus_1)
  then show ?thesis by (auto simp: bit_eq_iff bit_simps)
qed

lemma hex_pairs_encode: "hex_pairs (hex_encode bs) = Some bs"
  by (induction bs) (simp_all add: hex_encode_def nibble_high nibble_low nibbles_join)

lemma length_hex_encode: "length (hex_encode bs) = 2 * length bs"
  by (induction bs) (simp_all add: hex_encode_def)

lemma hex_decode_encode [simp]: "hex_decode (hex_encode bs) = Some bs"
  by (simp add: hex_decode_def hex_pairs_encode length_hex_encode)

lemma from_bytes_to_bytes [simp]: "bloom_ok b \<Longrightarrow> from_bytes (to_bytes b) = Some b"
  by (simp add: from_bytes_def to_bytes_def bloom_ok_def)

lemma from_hex_to_hex: "bloom_ok b \<Longrightarrow> from_hex (to_hex b) = Some b"
  by (simp add: from_hex_def to_hex_def)

definition bloom_entry :: "TokenBloom \<Rightarrow> bytes" where
  "bloom_entry b = to_le 4 (of_nat (length (to_bytes b)) :: u32) @ to_bytes b"

lemma read_blooms_entries:
  assumes "\<forall>b \<in> set bs. bloom_ok b \<and> length (to_bytes b) < 2 ^ 32"
  shows "read_blooms (length bs) (pre @ concat (map bloom_entry bs) @ post) (length pre) acc = Some (acc @ bs)"
  using assms
proof (induction bs arbitrary: pre acc)
  case (Cons b bs)
  let ?n = "length (to_bytes b)" and ?le = "to_le 4 (of_nat (length (to_bytes b)) :: u32)"
  have w: "unat (of_nat ?n :: u32) = ?n"
    using Cons.prems by (simp add: unat_of_nat)
  have a: "read_u32 (pre @ concat (map bloom_entry (b # bs)) @ post) (length pre) = Some (?n, length pre + 4)"
    by (simp add: read_u32_def get_slice_def bloom_entry_def w)
  have c: "get_slice (pre @ concat (map bloom_entry (b # bs)) @ post) (length pre + 4) ?n = Some (to_bytes b)"
    by (simp add: get_slice_def bloom_entry_def)
  have "read_blooms (length bs) ((pre @ bloom_entry b) @ concat (map bloom_entry bs) @ post)
          (length (pre @ bloom_entry b)) (acc @ [b]) = Some ((acc @ [b]) @ bs)"
    by (rule Cons.IH) (use Cons.prems in auto)
  moreover have "from_bytes (to_bytes b) = Some b"
    using Cons.prems by simp
  moreover have "length (pre @ bloom_entry b) = length pre + 4 + ?n"
    by (simp add: bloom_entry_def)
  moreover have "(pre @ bloom_entry b) @ concat (map bloom_entry bs) @ post = pre @ concat (map bloom_entry (b # bs)) @ post"
    by simp
  ultimately show ?case
    by (simp only: length_Cons read_blooms.simps a c option.case prod.case) simp
qed simp

lemma rowgroup_roundtrip:
  assumes "\<forall>b \<in> set bs. bloom_ok b \<and> length (to_bytes b) < 2 ^ 32" and "length bs < 2 ^ 32"
  shows "rowgroup_blooms_from_hex (rowgroup_blooms_to_hex bs) = Some bs"
proof -
  let ?hd = "to_le 4 (of_nat (length bs) :: u32)"
  have n: "unat (of_nat (length bs) :: u32) = length bs"
    using assms(2) by (simp add: unat_of_nat)
  have "concat (map (\<lambda>b. to_le 4 (of_nat (length (to_bytes b)) :: u32) @ to_bytes b) bs) = concat (map bloom_entry bs)"
    by (simp add: bloom_entry_def [abs_def])
  moreover have "read_u32 (?hd @ concat (map bloom_entry bs)) 0 = Some (length bs, 4)"
    by (simp add: read_u32_def get_slice_def n)
  moreover have "read_blooms (length bs) (?hd @ concat (map bloom_entry bs)) 4 [] = Some bs"
    using read_blooms_entries [OF assms(1), of ?hd "[]" "[]"] by simp
  ultimately show ?thesis
    by (simp add: rowgroup_blooms_from_hex_def rowgroup_blooms_to_hex_def)
qed

section \<open>Trigram decomposition\<close>

lemma set_windows: "set (windows n xs) = {w. length w = n \<and> sublist w xs}"
proof (intro set_eqI iffI)
  fix w assume "w \<in> set (windows n xs)"
  then obtain i where i: "i + n \<le> length xs" and w: "w = take n (drop i xs)"
    by (force simp: windows_def less_diff_conv)
  have "xs = take i xs @ w @ drop n (drop i xs)"
    unfolding w append_take_drop_id ..
  then show "w \<in> {w. length w = n \<and> sublist w xs}"
    using i w by (auto simp: sublist_def)
next
  fix w assume "w \<in> {w. length w = n \<and> sublist w xs}"
  then obtain as bs where "xs = as @ w @ bs" "length w = n"
    by (auto simp: sublist_def)
  then have "w = take n (drop (length as) xs)" "length as < Suc (length xs) - n"
    by simp_all
  then show "w \<in> set (windows n xs)"
    by (auto simp: windows_def)
qed

lemma set_trigrams: "set (trigrams raw) = {w. length w = 3 \<and> sublist w (to_ascii_lowercase raw)}"
  by (auto simp: trigrams_def TRIGRAM_LEN_def Let_def set_windows dest: sublist_length_le)

lemma set_fold_add_window: "set (grams (fold add_window ws s)) = set (grams s) \<union> set ws"
proof (induction ws arbitrary: s)
  case (Cons w ws)
  have "set (grams (add_window w s)) = insert w (set (grams s))"
    by (auto simp: add_window_def Let_def)
  with Cons show ?case by simp
qed simp

lemma distinct_fold_add_window: "distinct (grams s) \<Longrightarrow> distinct (grams (fold add_window ws s))"
  by (induction ws arbitrary: s) (auto simp: add_window_def Let_def)

lemma set_TrigramSet_add: "set (grams (TrigramSet_add v s)) = set (grams s) \<union> set (trigrams v)"
  by (simp add: TrigramSet_add_def trigrams_def Let_def set_fold_add_window)

lemma distinct_TrigramSet_add: "distinct (grams s) \<Longrightarrow> distinct (grams (TrigramSet_add v s))"
  by (simp add: TrigramSet_add_def Let_def distinct_fold_add_window)

lemma set_fold_TrigramSet_add:
  "set (grams (fold TrigramSet_add vs s)) = set (grams s) \<union> (\<Union>v \<in> set vs. set (trigrams v))"
  by (induction vs arbitrary: s) (auto simp: set_TrigramSet_add)

lemma distinct_fold_TrigramSet_add: "distinct (grams s) \<Longrightarrow> distinct (grams (fold TrigramSet_add vs s))"
  by (induction vs arbitrary: s) (auto simp: distinct_TrigramSet_add)

lemma dedup_loop_spec: "set (dedup_loop seen ts) = set ts - set seen \<and> distinct (dedup_loop seen ts)"
  by (induction seen ts rule: dedup_loop.induct) auto

lemma query_trigrams_in_row:
  assumes "query_trigrams sub = Some ts" and "sublist (to_ascii_lowercase sub) (to_ascii_lowercase raw)"
  shows "set ts \<subseteq> set (trigrams raw)"
proof -
  have "set ts = set (trigrams sub)"
    using assms(1) by (auto simp: query_trigrams_def Let_def dedup_loop_spec split: if_splits)
  then show ?thesis
    using assms(2) by (auto simp: set_trigrams intro: sublist_order.order_trans)
qed

text \<open>C13. The accumulator that reuses its buffers collects the same set of trigrams as the
  reference function over all the strings, without duplicates.\<close>

theorem trigram_set_reference:
  "distinct (grams (fold TrigramSet_add vs TrigramSet_new)) \<and>
   set (grams (fold TrigramSet_add vs TrigramSet_new)) = set (concat (map trigrams vs))"
  by (simp add: set_fold_TrigramSet_add distinct_fold_TrigramSet_add TrigramSet_new_def)

section \<open>Pruning\<close>

text \<open>The filter stored for one row group: the trigrams of its rows, at any size.\<close>

definition rowgroup_bloom :: "(nat \<Rightarrow> nat) \<Rightarrow> (nat \<Rightarrow> nat \<Rightarrow> nat) \<Rightarrow> rstr list \<Rightarrow> TokenBloom" where
  "rowgroup_bloom m k rows =
     (let g = grams (fold TrigramSet_add rows TrigramSet_new) in build m k (length g) g)"

lemma rowgroup_bloom_sound:
  assumes "raw \<in> set rows" and "sublist (to_ascii_lowercase sub) (to_ascii_lowercase raw)"
    and "query_trigrams sub = Some ts"
  shows "list_all (maybe_contains (rowgroup_bloom m k rows)) ts"
proof -
  have "set ts \<subseteq> set (grams (fold TrigramSet_add rows TrigramSet_new))"
    using query_trigrams_in_row [OF assms(3,2)] assms(1) by (auto simp: set_fold_TrigramSet_add)
  then show ?thesis
    by (auto simp: list_all_iff rowgroup_bloom_def Let_def intro: build_contains)
qed

text \<open>C12. Pruning by substring never skips a row group that has a match. The filters of the row
  groups, written to the footer and read back, are as many as the row groups, and the one of a row
  group with a row that contains the substring, up to ASCII case, answers yes for every trigram of
  the query.\<close>

theorem rowgroup_pruning_sound:
  assumes "length groups < 2 ^ 32"
    and "\<forall>rows \<in> set groups. length (to_bytes (rowgroup_bloom m k rows)) < 2 ^ 32"
    and "i < length groups" and "raw \<in> set (groups ! i)"
    and "sublist (to_ascii_lowercase sub) (to_ascii_lowercase raw)"
    and "query_trigrams sub = Some ts"
  shows "\<exists>bs. rowgroup_blooms_from_hex (rowgroup_blooms_to_hex (map (rowgroup_bloom m k) groups)) = Some bs \<and>
           length bs = length groups \<and> list_all (maybe_contains (bs ! i)) ts"
proof -
  have "rowgroup_blooms_from_hex (rowgroup_blooms_to_hex (map (rowgroup_bloom m k) groups))
          = Some (map (rowgroup_bloom m k) groups)"
    using assms(1,2) by (intro rowgroup_roundtrip) (auto simp: rowgroup_bloom_def Let_def build_ok)
  moreover have "list_all (maybe_contains (map (rowgroup_bloom m k) groups ! i)) ts"
    using rowgroup_bloom_sound [OF assms(4-6)] assms(3) by simp
  ultimately show ?thesis by auto
qed

lemma query_trigrams_sample: "query_trigrams (ascii ''OR 5'') = Some [ascii ''or '', ascii ''r 5'']"
  by code_simp

lemma sublist_sample:
  "sublist (to_ascii_lowercase (ascii ''OR 5'')) (to_ascii_lowercase (ascii ''Error 500''))"
  by code_simp

lemma length_fold_insert: "length (bits (fold bloom_insert ts b)) = length (bits b)"
  by (induction ts arbitrary: b) simp_all

lemma length_to_bytes_build: "length (to_bytes (build m k n ts)) = 6 + (max (m (max n 1)) 64 + 7) div 8"
  by (simp add: to_bytes_def build_def Let_def length_fold_insert BLOOM_MAGIC_def ascii_bytes_def)

lemma grams_sample: "length (grams (fold TrigramSet_add [ascii ''Error 500''] TrigramSet_new)) = 7"
  by code_simp

lemma rowgroup_sample_small: "length (to_bytes (rowgroup_bloom (\<lambda>n. 10 * n) (\<lambda>n m. 7) [ascii ''Error 500''])) < 2 ^ 32"
  unfolding rowgroup_bloom_def Let_def length_to_bytes_build grams_sample by simp

theorem rowgroup_pruning_sound_witness:
  "\<exists>bs. rowgroup_blooms_from_hex (rowgroup_blooms_to_hex
           (map (rowgroup_bloom (\<lambda>n. 10 * n) (\<lambda>n m. 7)) [[ascii ''Error 500'']])) = Some bs \<and>
         length bs = length [[ascii ''Error 500'']] \<and>
         list_all (maybe_contains (bs ! 0)) [ascii ''or '', ascii ''r 5'']"
  by (rule rowgroup_pruning_sound [OF _ _ _ _ sublist_sample query_trigrams_sample])
    (use rowgroup_sample_small in simp_all)

section \<open>Tokens\<close>

lemma tokenize_loop_take:
  "length out < MAX_TOKENS_PER_ROW \<Longrightarrow>
   tokenize_loop ps out =
     take MAX_TOKENS_PER_ROW (out @ map to_ascii_lowercase (filter (\<lambda>p. \<not> str_len p < MIN_TOKEN_LEN) ps))"
proof (induction ps out rule: tokenize_loop.induct)
  case (2 piece rest out)
  show ?case
  proof (cases "str_len piece < MIN_TOKEN_LEN \<or> length out + 1 < MAX_TOKENS_PER_ROW")
    case True
    with 2 show ?thesis by (auto simp: Let_def)
  next
    case False
    with "2.prems" have "MAX_TOKENS_PER_ROW - length out = Suc 0" "length out + 1 \<ge> MAX_TOKENS_PER_ROW"
      by linarith+
    with False show ?thesis by (simp add: Let_def)
  qed
qed simp

lemma str_len_piece: "p \<in> set (split_on (\<lambda>c. \<not> is_ascii_alphanumeric c) raw) \<Longrightarrow> str_len p = length p"
  by (rule str_len_ascii) (use split_on_free in \<open>fastforce dest: alphanumeric_ascii\<close>)

lemma tokenize_eq:
  "tokenize r = take 64 (map to_ascii_lowercase
     (filter (\<lambda>p. 3 \<le> length p) (split_on (\<lambda>c. \<not> is_ascii_alphanumeric c) r)))"
  by (simp add: tokenize_def Tokenizer_tokenize_def default_tokenize_def tokenize_loop_take
      MAX_TOKENS_PER_ROW_def MIN_TOKEN_LEN_def str_len_piece not_less cong: filter_cong)

lemma token_alphanumeric: "t \<in> set (tokenize r) \<Longrightarrow> c \<in> set t \<Longrightarrow> is_ascii_alphanumeric c"
proof -
  assume "t \<in> set (tokenize r)" "c \<in> set t"
  then obtain p x where "p \<in> set (split_on (\<lambda>c. \<not> is_ascii_alphanumeric c) r)" "x \<in> set p" "c = to_ascii_lower x"
    by (auto simp: tokenize_eq dest!: in_set_takeD)
  then show ?thesis using split_on_free [of p "\<lambda>c. \<not> is_ascii_alphanumeric c" r x] by simp
qed

lemma normalize_query_termD:
  assumes "normalize_query_term t = Some q"
  shows "q = to_ascii_lowercase (trim t)" "\<forall>c \<in> set (trim t). is_ascii_alphanumeric c" "3 \<le> length (trim t)"
    "\<forall>c \<in> set q. is_ascii_alphanumeric c" "to_ascii_lowercase q = q"
proof -
  show q: "q = to_ascii_lowercase (trim t)" and al: "\<forall>c \<in> set (trim t). is_ascii_alphanumeric c"
    using assms by (auto simp: normalize_query_term_def Let_def split: if_splits)
  have "str_len (trim t) = length (trim t)"
    using al by (intro str_len_ascii) (auto dest: alphanumeric_ascii)
  then show "3 \<le> length (trim t)"
    using assms by (auto simp: normalize_query_term_def Let_def MIN_TOKEN_LEN_def split: if_splits)
  show "\<forall>c \<in> set q. is_ascii_alphanumeric c" "to_ascii_lowercase q = q"
    using q al by (simp_all add: comp_def)
qed

text \<open>C14. A row is indexed under the first 64 of its maximal ASCII-alphanumeric runs of three or
  more characters, lowercased; a query term that can be looked up is normalised to exactly the one
  token its own text is indexed under.\<close>

theorem tokenize_spec:
  "tokenize raw = take 64 (map to_ascii_lowercase
     (filter (\<lambda>p. 3 \<le> length p) (split_on (\<lambda>c. \<not> is_ascii_alphanumeric c) raw))) \<and>
   (case normalize_query_term t of None \<Rightarrow> True | Some q \<Rightarrow> tokenize (trim t) = [q] \<and> tokenize q = [q])"
proof (rule conjI [OF tokenize_eq])
  show "case normalize_query_term t of None \<Rightarrow> True | Some q \<Rightarrow> tokenize (trim t) = [q] \<and> tokenize q = [q]"
  proof (cases "normalize_query_term t")
    case (Some q)
    note n = normalize_query_termD [OF Some]
    have "tokenize (trim t) = [q]" "tokenize q = [to_ascii_lowercase q]"
      using n(1-4) by (simp_all add: tokenize_eq split_on_id)
    with Some n(5) show ?thesis by simp
  qed simp
qed

end
