(* ===== verification/GroupCounts.thy ===== *)
theory GroupCounts
  imports Text
begin

text \<open>
  The group-count footer of \<^verbatim>\<open>crates/loglake-bloom/src/group_counts.rs\<close>: one file's row count per
  distinct value of each dimensional column, front coded, with LEB128 counts, optionally zstd
  compressed and base64 encoded into a footer string. Strings are their UTF-8 bytes, a
  \<^verbatim>\<open>BTreeMap\<close> is its sorted list of entries, and the cursor over the body is the bytes from its
  position on. base64 and zstd are arguments.
\<close>

definition MAGIC :: bytes where "MAGIC = ascii_bytes ''LGCF''"
definition FORMAT_VERSION :: u8 where "FORMAT_VERSION = 1"
definition CODEC_RAW :: u8 where "CODEC_RAW = 0"
definition CODEC_ZSTD :: u8 where "CODEC_ZSTD = 1"
definition MAX_DECODED_BYTES :: nat where "MAX_DECODED_BYTES = 64 * 1024 * 1024"

record ColumnCounts =
  cc_values :: "(bytes \<times> u64) list"
  cc_nulls :: u64

record GroupCounts =
  gc_columns :: "(bytes \<times> ColumnCounts) list"

section \<open>Varints and byte runs\<close>

function put_uvarint :: "u64 \<Rightarrow> bytes" where
  "put_uvarint v = (if v \<ge> 128 then (ucast v OR 128) # put_uvarint (drop_bit 7 v) else [ucast v])"
  by auto
termination
proof (relation "measure unat")
  fix v :: u64 assume "128 \<le> v"
  then have "128 \<le> unat v" by (simp add: word_le_nat_alt)
  then show "(drop_bit 7 v, v) \<in> measure unat"
    by (simp add: drop_bit_eq_div unat_div)
qed simp

declare put_uvarint.simps [simp del]

definition put_bytes :: "bytes \<Rightarrow> bytes" where
  "put_bytes bs = put_uvarint (of_nat (length bs)) @ bs"

fun uvarint_loop :: "bytes \<Rightarrow> u64 \<Rightarrow> nat \<Rightarrow> (u64 \<times> bytes) option" where
  "uvarint_loop [] val shift = None"
| "uvarint_loop (byte # rest) val shift =
     (if shift \<ge> 64 then None
      else
        let val = val OR push_bit shift (ucast (byte AND 127)) in
        if byte AND 128 = 0 then
          (if shift = 63 \<and> byte AND 127 > 1 then None else Some (val, rest))
        else uvarint_loop rest val (shift + 7))"

definition uvarint :: "bytes \<Rightarrow> (u64 \<times> bytes) option" where
  "uvarint cur = uvarint_loop cur 0 0"

definition cur_bytes :: "bytes \<Rightarrow> (bytes \<times> bytes) option" where
  "cur_bytes cur =
     (case uvarint cur of
        None \<Rightarrow> None
      | Some (len, cur) \<Rightarrow>
          if unat len \<le> length cur then Some (take (unat len) cur, drop (unat len) cur) else None)"

section \<open>Body\<close>

fun common_prefix_len :: "bytes \<Rightarrow> bytes \<Rightarrow> nat" where
  "common_prefix_len (x # a) (y # b) = (if x = y then Suc (common_prefix_len a b) else 0)"
| "common_prefix_len _ _ = 0"

fun encode_values :: "bytes \<Rightarrow> (bytes \<times> u64) list \<Rightarrow> bytes" where
  "encode_values prev [] = []"
| "encode_values prev ((v, n) # rest) =
     (let shared = common_prefix_len prev v in
      put_uvarint (of_nat shared) @ put_bytes (drop shared v) @ put_uvarint n @ encode_values v rest)"

definition encode_column :: "bytes \<times> ColumnCounts \<Rightarrow> bytes" where
  "encode_column = (\<lambda>(name, col).
     put_bytes name @ put_uvarint (cc_nulls col) @ put_uvarint (of_nat (length (cc_values col))) @
     encode_values [] (cc_values col))"

definition encode_body :: "(bytes \<times> ColumnCounts) list \<Rightarrow> bytes" where
  "encode_body columns = put_uvarint (of_nat (length columns)) @ concat (map encode_column columns)"

primrec skip_values :: "nat \<Rightarrow> bytes \<Rightarrow> bytes option" where
  "skip_values 0 cur = Some cur"
| "skip_values (Suc n) cur =
     (case uvarint cur of None \<Rightarrow> None | Some (_, cur) \<Rightarrow>
     (case cur_bytes cur of None \<Rightarrow> None | Some (_, cur) \<Rightarrow>
     (case uvarint cur of None \<Rightarrow> None | Some (_, cur) \<Rightarrow> skip_values n cur)))"

text \<open>The value is also the next predecessor.\<close>

definition next_value :: "bytes \<Rightarrow> bytes \<Rightarrow> (bytes \<times> u64 \<times> bytes) option" where
  "next_value cur prev =
     (case uvarint cur of None \<Rightarrow> None | Some (shared, cur) \<Rightarrow>
      if unat shared > length prev then None
      else (case cur_bytes cur of None \<Rightarrow> None | Some (suf, cur) \<Rightarrow>
        let v = take (unat shared) prev @ suf in
        (case uvarint cur of None \<Rightarrow> None | Some (count, cur) \<Rightarrow>
        (case from_utf8 v of None \<Rightarrow> None | Some v \<Rightarrow> Some (v, count, cur)))))"

text \<open>The loop of \<^verbatim>\<open>decode_column\<close>, which pushes the values, and the one of \<^verbatim>\<open>decode_body\<close>, which
  inserts them.\<close>

primrec read_values :: "('m \<Rightarrow> bytes \<Rightarrow> u64 \<Rightarrow> 'm) \<Rightarrow> nat \<Rightarrow> bytes \<Rightarrow> bytes \<Rightarrow> 'm \<Rightarrow> ('m \<times> bytes) option" where
  "read_values ins 0 cur prev acc = Some (acc, cur)"
| "read_values ins (Suc n) cur prev acc =
     (case next_value cur prev of None \<Rightarrow> None
      | Some (v, count, cur) \<Rightarrow> read_values ins n cur v (ins acc v count))"

primrec decode_body_loop :: "nat \<Rightarrow> bytes \<Rightarrow> (bytes \<times> ColumnCounts) list \<Rightarrow> ((bytes \<times> ColumnCounts) list \<times> bytes) option" where
  "decode_body_loop 0 cur columns = Some (columns, cur)"
| "decode_body_loop (Suc n) cur columns =
     (case cur_bytes cur of None \<Rightarrow> None | Some (raw, cur) \<Rightarrow>
     (case from_utf8 raw of None \<Rightarrow> None | Some name \<Rightarrow>
     (case uvarint cur of None \<Rightarrow> None | Some (nulls, cur) \<Rightarrow>
     (case uvarint cur of None \<Rightarrow> None | Some (n_values, cur) \<Rightarrow>
     (case read_values (\<lambda>m v c. bt_insert v c m) (unat n_values) cur [] [] of None \<Rightarrow> None | Some (vals, cur) \<Rightarrow>
      decode_body_loop n cur (bt_insert name \<lparr>cc_values = vals, cc_nulls = nulls\<rparr> columns))))))"

definition decode_body :: "bytes \<Rightarrow> (bytes \<times> ColumnCounts) list option" where
  "decode_body body =
     (case uvarint body of None \<Rightarrow> None | Some (n_columns, cur) \<Rightarrow>
     (case decode_body_loop (unat n_columns) cur [] of None \<Rightarrow> None | Some (columns, cur) \<Rightarrow>
      if cur \<noteq> [] then None else Some columns))"

section \<open>Footer string\<close>

text \<open>\<open>b64_encode\<close> and \<open>b64_decode\<close> are the standard base64 engine; \<open>zstd_encode_all\<close> compresses a
  body, and \<open>zstd_take n\<close> is what reading at most \<open>n\<close> bytes from a decoder of a frame gives.\<close>

record footer_codec =
  b64_encode :: "bytes \<Rightarrow> rstr"
  b64_decode :: "rstr \<Rightarrow> bytes option"
  zstd_encode_all :: "bytes \<Rightarrow> bytes option"
  zstd_take :: "nat \<Rightarrow> bytes \<Rightarrow> bytes option"

definition encode_columns :: "footer_codec \<Rightarrow> (bytes \<times> ColumnCounts) list \<Rightarrow> rstr option" where
  "encode_columns K columns =
     (if columns = [] then None
      else
        let body = encode_body columns;
            (codec, payload) =
              (case zstd_encode_all K body of
                 Some c \<Rightarrow> if length c < length body then (CODEC_ZSTD, c) else (CODEC_RAW, body)
               | None \<Rightarrow> (CODEC_RAW, body)) in
        Some (b64_encode K (MAGIC @ [FORMAT_VERSION] @ [codec] @ payload)))"

definition zstd_decode_bounded :: "footer_codec \<Rightarrow> bytes \<Rightarrow> bytes option" where
  "zstd_decode_bounded K payload =
     (case zstd_take K (MAX_DECODED_BYTES + 1) payload of
        None \<Rightarrow> None
      | Some out \<Rightarrow> if length out > MAX_DECODED_BYTES then None else Some out)"

definition blob_body :: "footer_codec \<Rightarrow> rstr \<Rightarrow> bytes option" where
  "blob_body K s =
     (case b64_decode K (trim s) of
        None \<Rightarrow> None
      | Some blob \<Rightarrow>
          if length blob < length MAGIC + 2 \<or> take (length MAGIC) blob \<noteq> MAGIC \<or> blob ! length MAGIC \<noteq> FORMAT_VERSION
          then None
          else
            let codec = blob ! (length MAGIC + 1) in
            if codec = CODEC_RAW then Some (drop (length MAGIC + 2) blob)
            else if codec = CODEC_ZSTD then zstd_decode_bounded K (drop (length MAGIC + 2) blob)
            else None)"

definition decode_columns :: "footer_codec \<Rightarrow> rstr \<Rightarrow> (bytes \<times> ColumnCounts) list option" where
  "decode_columns K s = Option.bind (blob_body K s) decode_body"

definition GroupCounts_encode :: "footer_codec \<Rightarrow> GroupCounts \<Rightarrow> rstr option" where
  "GroupCounts_encode K g = encode_columns K (gc_columns g)"

definition GroupCounts_decode :: "footer_codec \<Rightarrow> rstr \<Rightarrow> GroupCounts option" where
  "GroupCounts_decode K s = map_option (\<lambda>columns. \<lparr>gc_columns = columns\<rparr>) (decode_columns K s)"

primrec decode_column_loop :: "nat \<Rightarrow> bytes \<Rightarrow> bytes \<Rightarrow> ((bytes \<times> u64) list \<times> u64) option" where
  "decode_column_loop 0 column cur = None"
| "decode_column_loop (Suc n) column cur =
     (case cur_bytes cur of None \<Rightarrow> None | Some (name, cur) \<Rightarrow>
     (case uvarint cur of None \<Rightarrow> None | Some (nulls, cur) \<Rightarrow>
     (case uvarint cur of None \<Rightarrow> None | Some (n_values, cur) \<Rightarrow>
      if name \<noteq> column then
        (case skip_values (unat n_values) cur of None \<Rightarrow> None | Some cur \<Rightarrow> decode_column_loop n column cur)
      else map_option (\<lambda>(vals, _). (vals, nulls)) (read_values (\<lambda>vs v c. vs @ [(v, c)]) (unat n_values) cur [] []))))"

definition decode_column :: "footer_codec \<Rightarrow> rstr \<Rightarrow> bytes \<Rightarrow> ((bytes \<times> u64) list \<times> u64) option" where
  "decode_column K s column =
     (case blob_body K s of None \<Rightarrow> None | Some body \<Rightarrow>
     (case uvarint body of None \<Rightarrow> None | Some (n_columns, cur) \<Rightarrow> decode_column_loop (unat n_columns) column cur))"

definition saturating_add :: "u64 \<Rightarrow> u64 \<Rightarrow> u64" where
  "saturating_add a b = (if unat a + unat b < 2 ^ 64 then a + b else - 1)"

primrec total_values :: "nat \<Rightarrow> bytes \<Rightarrow> u64 \<Rightarrow> (u64 \<times> bytes) option" where
  "total_values 0 cur tot = Some (tot, cur)"
| "total_values (Suc n) cur tot =
     (case uvarint cur of None \<Rightarrow> None | Some (_, cur) \<Rightarrow>
     (case cur_bytes cur of None \<Rightarrow> None | Some (_, cur) \<Rightarrow>
     (case uvarint cur of None \<Rightarrow> None | Some (c, cur) \<Rightarrow> total_values n cur (saturating_add tot c))))"

primrec decode_totals_loop :: "nat \<Rightarrow> bytes \<Rightarrow> (bytes \<times> u64) list \<Rightarrow> (bytes \<times> u64) list option" where
  "decode_totals_loop 0 cur totals = Some totals"
| "decode_totals_loop (Suc n) cur totals =
     (case cur_bytes cur of None \<Rightarrow> None | Some (raw, cur) \<Rightarrow>
     (case from_utf8 raw of None \<Rightarrow> None | Some name \<Rightarrow>
     (case uvarint cur of None \<Rightarrow> None | Some (tot, cur) \<Rightarrow>
     (case uvarint cur of None \<Rightarrow> None | Some (n_values, cur) \<Rightarrow>
     (case total_values (unat n_values) cur tot of None \<Rightarrow> None | Some (tot, cur) \<Rightarrow>
      decode_totals_loop n cur (totals @ [(name, tot)]))))))"

definition decode_column_totals :: "footer_codec \<Rightarrow> rstr \<Rightarrow> (bytes \<times> u64) list option" where
  "decode_column_totals K s =
     (case blob_body K s of None \<Rightarrow> None | Some body \<Rightarrow>
     (case uvarint body of None \<Rightarrow> None | Some (n_columns, cur) \<Rightarrow> decode_totals_loop (unat n_columns) cur []))"

primrec decode_names_loop :: "nat \<Rightarrow> bytes \<Rightarrow> bytes list \<Rightarrow> bytes list option" where
  "decode_names_loop 0 cur names = Some names"
| "decode_names_loop (Suc n) cur names =
     (case cur_bytes cur of None \<Rightarrow> None | Some (raw, cur) \<Rightarrow>
     (case from_utf8 raw of None \<Rightarrow> None | Some name \<Rightarrow>
     (case uvarint cur of None \<Rightarrow> None | Some (_, cur) \<Rightarrow>
     (case uvarint cur of None \<Rightarrow> None | Some (n_values, cur) \<Rightarrow>
     (case skip_values (unat n_values) cur of None \<Rightarrow> None | Some cur \<Rightarrow>
      decode_names_loop n cur (names @ [name]))))))"

definition decode_column_names :: "footer_codec \<Rightarrow> rstr \<Rightarrow> bytes list option" where
  "decode_column_names K s =
     (case blob_body K s of None \<Rightarrow> None | Some body \<Rightarrow>
     (case uvarint body of None \<Rightarrow> None | Some (n_columns, cur) \<Rightarrow> decode_names_loop (unat n_columns) cur []))"

section \<open>Reading back what was written\<close>

lemma mask_bytes: "(127 :: u8) = mask 7"
  by (simp add: mask_eq_exp_minus_1)

lemma bit_128: "bit (128 :: int) n \<longleftrightarrow> n = 7"
proof -
  have "bit ((2 :: int) ^ 7) n \<longleftrightarrow> n = 7"
    unfolding bit_exp_iff by auto
  then show ?thesis by simp
qed

lemma last_byte:
  assumes "v < 128"
  shows "(ucast v :: u8) AND 127 = ucast v" "(ucast v :: u8) AND 128 = 0" "ucast (ucast v :: u8) = (v :: u64)"
proof -
  have v: "take_bit 7 v = v"
    using assms by (simp add: word_unat_eq_iff unsigned_take_bit_eq take_bit_nat_eq_self word_less_nat_alt)
  have "(ucast (take_bit 7 v) :: u8) AND 127 = ucast (take_bit 7 v)"
    unfolding mask_bytes by (rule bit_word_eqI) (auto simp: bit_simps bit_128)
  moreover have "(ucast (take_bit 7 v) :: u8) AND 128 = 0"
    unfolding mask_bytes by (rule bit_word_eqI) (auto simp: bit_simps bit_128)
  moreover have "ucast (ucast (take_bit 7 v) :: u8) = take_bit 7 v"
    by (rule bit_word_eqI) (auto simp: bit_simps bit_128)
  ultimately show "(ucast v :: u8) AND 127 = ucast v" "(ucast v :: u8) AND 128 = 0" "ucast (ucast v :: u8) = v"
    by (simp_all add: v)
qed

lemma more_byte:
  "ucast ((ucast v OR 128 :: u8) AND 127) = take_bit 7 (v :: u64)" "(ucast v OR 128 :: u8) AND 128 \<noteq> 0"
proof -
  show "ucast ((ucast v OR 128 :: u8) AND 127) = take_bit 7 v"
    unfolding mask_bytes by (rule bit_word_eqI) (auto simp: bit_simps bit_128)
  have "bit ((ucast v OR 128 :: u8) AND 128) 7"
    unfolding mask_bytes by (simp add: bit_simps bit_128)
  then show "(ucast v OR 128 :: u8) AND 128 \<noteq> 0" by fastforce
qed

lemma join_septets:
  "(acc OR push_bit s (take_bit 7 v)) OR push_bit (s + 7) (drop_bit 7 v) = acc OR push_bit s (v :: u64)"
proof (rule bit_word_eqI)
  fix n assume "n < LENGTH(64)"
  moreover have "s + 7 \<le> n \<Longrightarrow> 7 + (n - (s + 7)) = n - s" by simp
  ultimately show "bit ((acc OR push_bit s (take_bit 7 v)) OR push_bit (s + 7) (drop_bit 7 v)) n = bit (acc OR push_bit s v) n"
    by (cases "s + 7 \<le> n") (auto simp: bit_simps)
qed

lemma uvarint_loop_put:
  "s < 64 \<Longrightarrow> unat v < 2 ^ (64 - s) \<Longrightarrow>
   uvarint_loop (put_uvarint v @ rest) acc s = Some (acc OR push_bit s v, rest)"
proof (induction v arbitrary: acc s rule: put_uvarint.induct)
  case (1 v)
  show ?case
  proof (cases "128 \<le> v")
    case True
    then have big: "2 ^ 7 \<le> unat v" by (simp add: word_le_nat_alt)
    have "(2 :: nat) ^ 7 < 2 ^ (64 - s)" by (rule le_less_trans [OF big "1.prems"(2)])
    from power_less_imp_less_exp [OF _ this] have s: "s + 7 < 64" by simp
    have "2 ^ (64 - s) = 2 ^ 7 * (2 :: nat) ^ (64 - (s + 7))"
      unfolding power_add [symmetric] using s by (intro arg_cong [where f = "(^) 2"]) simp
    then have "unat (drop_bit 7 v) < 2 ^ (64 - (s + 7))"
      using "1.prems"(2) by (simp add: drop_bit_eq_div unat_div less_mult_imp_div_less mult.commute)
    from "1.IH" [OF True s this] True s show ?thesis
      by (subst put_uvarint.simps) (simp add: more_byte Let_def join_septets)
  next
    case False
    then have v: "v < 128" by simp
    have "\<not> (s = 63 \<and> 1 < (ucast v :: u8))"
    proof
      assume "s = 63 \<and> 1 < (ucast v :: u8)"
      then have "unat v < 2" "1 < unat (ucast v :: u8)"
        using "1.prems"(2) by (simp_all add: word_less_nat_alt)
      moreover have "unat (ucast v :: u8) \<le> unat v"
        by (simp add: unsigned_ucast_eq take_bit_eq_mod)
      ultimately show False by simp
    qed
    moreover have "put_uvarint v = [ucast v]"
      using False by (subst put_uvarint.simps) simp
    ultimately show ?thesis
      using v "1.prems"(1) by (auto simp: last_byte Let_def)
  qed
qed

lemma uvarint_put [simp]: "uvarint (put_uvarint v @ rest) = Some (v, rest)"
proof -
  have "unat v < 2 ^ LENGTH(64)" by (rule unsigned_less)
  then show ?thesis by (simp add: uvarint_def uvarint_loop_put)
qed

definition fits :: "'a list \<Rightarrow> bool" where
  "fits xs \<longleftrightarrow> length xs < 2 ^ 64"

lemma unat_fits [simp]: "fits xs \<Longrightarrow> unat (of_nat (length xs) :: u64) = length xs"
  by (simp add: fits_def unat_of_nat)

lemma cur_bytes_put [simp]: "fits bs \<Longrightarrow> cur_bytes (put_bytes bs @ rest) = Some (bs, rest)"
  by (simp add: cur_bytes_def put_bytes_def)

lemma common_prefix_take: "take (common_prefix_len a b) a = take (common_prefix_len a b) b"
  by (induction a b rule: common_prefix_len.induct) auto

lemma common_prefix_le: "common_prefix_len a b \<le> length a" "common_prefix_len a b \<le> length b"
  by (induction a b rule: common_prefix_len.induct) auto

definition values_ok :: "(bytes \<times> u64) list \<Rightarrow> bool" where
  "values_ok vs \<longleftrightarrow> bt_sorted vs \<and> fits vs \<and> (\<forall>(v, n) \<in> set vs. is_utf8 v \<and> fits v)"

definition entry :: "bytes \<Rightarrow> bytes \<Rightarrow> u64 \<Rightarrow> bytes" where
  "entry prev v n = put_uvarint (of_nat (common_prefix_len prev v)) @
     put_bytes (drop (common_prefix_len prev v) v) @ put_uvarint n"

lemma encode_values_Cons: "encode_values prev ((v, n) # vs) = entry prev v n @ encode_values v vs"
  by (simp add: entry_def Let_def)

lemma fits_drop: "fits v \<Longrightarrow> fits (drop n v)"
  by (simp add: fits_def)

lemma next_value_entry: "fits v \<Longrightarrow> is_utf8 v \<Longrightarrow> next_value (entry prev v n @ rest) prev = Some (v, n, rest)"
proof -
  let ?k = "common_prefix_len prev v"
  assume v: "fits v" "is_utf8 v"
  then have "unat (of_nat ?k :: u64) = ?k"
    using common_prefix_le(2) [of prev v] by (simp add: fits_def unat_of_nat)
  moreover have "take ?k prev @ drop ?k v = v"
    by (metis common_prefix_take append_take_drop_id)
  ultimately show ?thesis
    using v common_prefix_le(1) [of prev v]
    by (simp add: next_value_def entry_def fits_drop from_utf8_def)
qed

lemma read_values_encode:
  "\<forall>(v, n) \<in> set vs. is_utf8 v \<and> fits v \<Longrightarrow>
   read_values ins (length vs) (encode_values prev vs @ rest) prev acc = Some (fold (\<lambda>(v, n) m. ins m v n) vs acc, rest)"
proof (induction vs arbitrary: prev acc)
  case (Cons p vs)
  obtain v n where p: "p = (v, n)" by fastforce
  show ?case
    using Cons by (simp add: p encode_values_Cons next_value_entry del: encode_values.simps)
qed simp

lemma skip_values_encode:
  "\<forall>(v, n) \<in> set vs. is_utf8 v \<and> fits v \<Longrightarrow> skip_values (length vs) (encode_values prev vs @ rest) = Some rest"
proof (induction vs arbitrary: prev)
  case (Cons p vs)
  obtain v n where p: "p = (v, n)" by fastforce
  show ?case
    using Cons by (simp add: p encode_values_Cons entry_def fits_drop del: encode_values.simps)
qed simp

lemma total_values_encode:
  "\<forall>(v, n) \<in> set vs. is_utf8 v \<and> fits v \<Longrightarrow>
   total_values (length vs) (encode_values prev vs @ rest) t = Some (fold (\<lambda>(v, n) t. saturating_add t n) vs t, rest)"
proof (induction vs arbitrary: prev t)
  case (Cons p vs)
  obtain v n where p: "p = (v, n)" by fastforce
  show ?case
    using Cons by (simp add: p encode_values_Cons entry_def fits_drop del: encode_values.simps)
qed simp

definition columns_ok :: "(bytes \<times> ColumnCounts) list \<Rightarrow> bool" where
  "columns_ok cs \<longleftrightarrow> bt_sorted cs \<and> fits cs \<and>
     (\<forall>(name, c) \<in> set cs. is_utf8 name \<and> fits name \<and> values_ok (cc_values c))"

abbreviation column_ok :: "bytes \<times> ColumnCounts \<Rightarrow> bool" where
  "column_ok p \<equiv> is_utf8 (fst p) \<and> fits (fst p) \<and> values_ok (cc_values (snd p))"

lemma columns_ok_all: "columns_ok cs \<Longrightarrow> \<forall>p \<in> set cs. column_ok p"
  by (fastforce simp: columns_ok_def)

lemma values_ok_read:
  assumes "values_ok vs"
  shows "read_values (\<lambda>m v c. bt_insert v c m) (length vs) (encode_values [] vs @ rest) [] [] = Some (vs, rest)"
    and "read_values (\<lambda>m v c. m @ [(v, c)]) (length vs) (encode_values [] vs @ rest) [] [] = Some (vs, rest)"
proof -
  have push: "fold (\<lambda>(v, c) m. m @ [(v, c)]) vs acc = acc @ vs" for acc
    by (induction vs arbitrary: acc) auto
  have u: "\<forall>(v, n) \<in> set vs. is_utf8 v \<and> fits v" and s: "bt_sorted ([] @ vs)"
    using assms by (simp_all add: values_ok_def)
  show "read_values (\<lambda>m v c. bt_insert v c m) (length vs) (encode_values [] vs @ rest) [] [] = Some (vs, rest)"
    unfolding read_values_encode [OF u] using fold_bt_insert_sorted [OF s] by simp
  show "read_values (\<lambda>m v c. m @ [(v, c)]) (length vs) (encode_values [] vs @ rest) [] [] = Some (vs, rest)"
    unfolding read_values_encode [OF u] using push [of "[]"] by simp
qed

lemma values_ok_skip: "values_ok vs \<Longrightarrow> skip_values (length vs) (encode_values prev vs @ rest) = Some rest"
  by (rule skip_values_encode) (simp add: values_ok_def)

lemma values_ok_total:
  "values_ok vs \<Longrightarrow> total_values (length vs) (encode_values prev vs @ rest) t = Some (fold (\<lambda>(v, n) t. saturating_add t n) vs t, rest)"
  by (rule total_values_encode) (simp add: values_ok_def)

lemma unat_values [simp]: "values_ok vs \<Longrightarrow> unat (of_nat (length vs) :: u64) = length vs"
  by (simp add: values_ok_def)

lemma column_eta [simp]: "\<lparr>cc_values = cc_values c, cc_nulls = cc_nulls c\<rparr> = c"
  by simp

lemmas read_column = encode_column_def from_utf8_def values_ok_read values_ok_skip values_ok_total case_prod_unfold

lemma decode_body_loop_encode:
  "\<forall>p \<in> set cs. column_ok p \<Longrightarrow>
   decode_body_loop (length cs) (concat (map encode_column cs) @ rest) acc =
     Some (fold (\<lambda>(k, v) m. bt_insert k v m) cs acc, rest)"
  by (induction cs arbitrary: acc) (simp_all add: read_column)

lemma decode_column_loop_encode:
  "\<forall>p \<in> set cs. column_ok p \<Longrightarrow>
   decode_column_loop (length cs) col (concat (map encode_column cs) @ rest) =
     map_option (\<lambda>c. (cc_values c, cc_nulls c)) (map_of cs col)"
  by (induction cs) (auto simp: read_column)

lemma decode_names_loop_encode:
  "\<forall>p \<in> set cs. column_ok p \<Longrightarrow>
   decode_names_loop (length cs) (concat (map encode_column cs) @ rest) acc = Some (acc @ map fst cs)"
  by (induction cs arbitrary: acc) (simp_all add: read_column)

definition row_total :: "ColumnCounts \<Rightarrow> u64" where
  "row_total c = fold (\<lambda>(v, n) t. saturating_add t n) (cc_values c) (cc_nulls c)"

lemma decode_totals_loop_encode:
  "\<forall>p \<in> set cs. column_ok p \<Longrightarrow>
   decode_totals_loop (length cs) (concat (map encode_column cs) @ rest) acc =
     Some (acc @ map (\<lambda>(n, c). (n, row_total c)) cs)"
  by (induction cs arbitrary: acc) (simp_all add: read_column row_total_def)

lemma unat_saturating_add: "unat (saturating_add a b) = min (2 ^ 64 - 1) (unat a + unat b)"
proof -
  have "unat a < 2 ^ LENGTH(64)" "unat b < 2 ^ LENGTH(64)" by (rule unsigned_less)+
  then show ?thesis
    by (auto simp: saturating_add_def unat_word_ariths unsigned_minus_1_eq_mask mask_eq_exp_minus_1)
qed

text \<open>The census total is the true number of rows, or \<^verbatim>\<open>u64::MAX\<close> when that does not fit.\<close>

lemma unat_row_total: "unat (row_total c) = min (2 ^ 64 - 1) (unat (cc_nulls c) + (\<Sum>(v, n) \<leftarrow> cc_values c. unat n))"
proof -
  have "unat (fold (\<lambda>(v, n) t. saturating_add t n) vs t) = min (2 ^ 64 - 1) (unat t + (\<Sum>(v, n) \<leftarrow> vs. unat n))"
    for vs :: "(bytes \<times> u64) list" and t
  proof (induction vs arbitrary: t)
    case Nil
    have "unat t < 2 ^ LENGTH(64)" by (rule unsigned_less)
    then show ?case by simp
  qed (auto simp: unat_saturating_add)
  then show ?thesis by (simp add: row_total_def)
qed

section \<open>Footers\<close>

text \<open>What the two crates document: base64 decodes what it encoded and writes no white space; a
  zstd decoder gives back, up to the number of bytes asked for, the body a frame was made from.\<close>

definition codec_ok :: "footer_codec \<Rightarrow> bool" where
  "codec_ok K \<longleftrightarrow>
     (\<forall>bs. b64_decode K (b64_encode K bs) = Some bs \<and> (\<forall>c \<in> set (b64_encode K bs). \<not> is_whitespace c)) \<and>
     (\<forall>bs c n. zstd_encode_all K bs = Some c \<longrightarrow> zstd_take K n c = Some (take n bs))"

lemma dropWhile_none: "\<forall>c \<in> set s. \<not> p c \<Longrightarrow> dropWhile p s = s"
  by (cases s) auto

lemma trim_plain: "\<forall>c \<in> set s. \<not> is_whitespace c \<Longrightarrow> trim s = s"
  by (simp add: trim_def dropWhile_none)

lemma codec_b64: "codec_ok K \<Longrightarrow> b64_decode K (trim (b64_encode K bs)) = Some bs"
  by (simp add: codec_ok_def trim_plain)

lemma length_MAGIC [simp]: "length MAGIC = 4"
  by (simp add: MAGIC_def ascii_bytes_def)

lemma blob_body_encode:
  assumes "codec_ok K" and "encode_columns K cs = Some s" and "length (encode_body cs) \<le> MAX_DECODED_BYTES"
  shows "blob_body K s = Some (encode_body cs)"
proof -
  let ?b = "encode_body cs"
  have head: "blob_body K (b64_encode K (MAGIC @ [FORMAT_VERSION] @ [c] @ p)) =
      (if c = CODEC_RAW then Some p else if c = CODEC_ZSTD then zstd_decode_bounded K p else None)" for c p
    by (simp add: blob_body_def codec_b64 [OF assms(1)] nth_append Let_def)
  show ?thesis
  proof (cases "\<exists>z. zstd_encode_all K ?b = Some z \<and> length z < length ?b")
    case True
    then obtain z where z: "zstd_encode_all K ?b = Some z" "length z < length ?b" by blast
    then have "s = b64_encode K (MAGIC @ [FORMAT_VERSION] @ [CODEC_ZSTD] @ z)"
      using assms(2) by (simp add: encode_columns_def Let_def split: if_splits)
    moreover have "zstd_take K (MAX_DECODED_BYTES + 1) z = Some ?b"
      using assms(1,3) z(1) by (simp add: codec_ok_def)
    ultimately show ?thesis
      using assms(3) by (simp only: head) (simp add: CODEC_ZSTD_def CODEC_RAW_def zstd_decode_bounded_def)
  next
    case False
    then have "s = b64_encode K (MAGIC @ [FORMAT_VERSION] @ [CODEC_RAW] @ ?b)"
      using assms(2) by (auto simp: encode_columns_def Let_def split: if_splits option.splits)
    then show ?thesis by (simp only: head) simp
  qed
qed

text \<open>C15. A footer written from a file's counts reads back as those counts, and the three readers
  that skip work agree with it: one column's values and nulls, the list of columns, and the row
  total of each column, which is the exact number of rows or \<^verbatim>\<open>u64::MAX\<close>.\<close>

theorem group_counts_roundtrip:
  assumes "codec_ok K" and "columns_ok (gc_columns g)" and "GroupCounts_encode K g = Some s"
    and "length (encode_body (gc_columns g)) \<le> MAX_DECODED_BYTES"
  shows "GroupCounts_decode K s = Some g \<and>
    decode_column K s col = map_option (\<lambda>c. (cc_values c, cc_nulls c)) (map_of (gc_columns g) col) \<and>
    decode_column_names K s = Some (map fst (gc_columns g)) \<and>
    (\<exists>ts. decode_column_totals K s = Some ts \<and>
       map (\<lambda>(n, t). (n, unat t)) ts =
         map (\<lambda>(n, c). (n, min (2 ^ 64 - 1) (unat (cc_nulls c) + (\<Sum>(v, n) \<leftarrow> cc_values c. unat n)))) (gc_columns g))"
proof -
  let ?cs = "gc_columns g"
  have b: "blob_body K s = Some (encode_body ?cs)"
    using assms(1,3,4) by (simp add: GroupCounts_encode_def blob_body_encode)
  have ok: "\<forall>p \<in> set ?cs. column_ok p" and n: "unat (of_nat (length ?cs) :: u64) = length ?cs"
    and s: "bt_sorted ([] @ ?cs)"
    using assms(2) columns_ok_all by (simp_all add: columns_ok_def)
  have "decode_columns K s = Some ?cs"
    using decode_body_loop_encode [OF ok, of "[]" "[]"] fold_bt_insert_sorted [OF s]
    by (simp add: decode_columns_def b decode_body_def encode_body_def n)
  then have "GroupCounts_decode K s = Some g"
    by (simp add: GroupCounts_decode_def)
  moreover have "decode_column K s col = map_option (\<lambda>c. (cc_values c, cc_nulls c)) (map_of ?cs col)"
    using decode_column_loop_encode [OF ok, of col "[]"] by (simp add: decode_column_def b encode_body_def n)
  moreover have "decode_column_names K s = Some (map fst ?cs)"
    using decode_names_loop_encode [OF ok, of "[]" "[]"] by (simp add: decode_column_names_def b encode_body_def n)
  moreover have "decode_column_totals K s = Some (map (\<lambda>(n, c). (n, row_total c)) ?cs)"
    using decode_totals_loop_encode [OF ok, of "[]" "[]"] by (simp add: decode_column_totals_def b encode_body_def n)
  ultimately show ?thesis by (auto simp: unat_row_total)
qed

definition sample_codec :: footer_codec where
  "sample_codec = \<lparr>b64_encode = map (\<lambda>b. 256 + unat b), b64_decode = (\<lambda>s. Some (map (\<lambda>c. of_nat (c - 256)) s)),
     zstd_encode_all = (\<lambda>_. None), zstd_take = (\<lambda>n bs. Some (take n bs))\<rparr>"

definition sample_counts :: GroupCounts where
  "sample_counts = \<lparr>gc_columns = [(ascii_bytes ''host'',
     \<lparr>cc_values = [(ascii_bytes ''web-1'', 300), (ascii_bytes ''web-2'', 7)], cc_nulls = 2\<rparr>)]\<rparr>"

lemma sample_codec_ok: "codec_ok sample_codec"
proof -
  have "\<not> is_whitespace (256 + unat b)" for b :: u8
  proof -
    have "unat b < 2 ^ LENGTH(8)" by (rule unsigned_less)
    then show ?thesis by (auto simp: is_whitespace_def)
  qed
  then show ?thesis by (auto simp: codec_ok_def sample_codec_def comp_def)
qed

lemma sample_counts_text:
  "is_utf8 (ascii_bytes ''host'')" "is_utf8 (ascii_bytes ''web-1'')" "is_utf8 (ascii_bytes ''web-2'')"
  "ascii_bytes ''web-1'' < ascii_bytes ''web-2''"
  by code_simp+

lemma sample_counts_ok: "columns_ok (gc_columns sample_counts)" "length (encode_body (gc_columns sample_counts)) = 21"
proof -
  show "columns_ok (gc_columns sample_counts)"
    using sample_counts_text by (auto simp: columns_ok_def values_ok_def fits_def bt_sorted_def sample_counts_def ascii_bytes_def)
  show "length (encode_body (gc_columns sample_counts)) = 21" by code_simp
qed

theorem group_counts_roundtrip_witness:
  "\<exists>s. GroupCounts_encode sample_codec sample_counts = Some s \<and> GroupCounts_decode sample_codec s = Some sample_counts"
proof -
  obtain s where s: "GroupCounts_encode sample_codec sample_counts = Some s"
    by (simp add: GroupCounts_encode_def encode_columns_def sample_counts_def sample_codec_def)
  have "length (encode_body (gc_columns sample_counts)) \<le> MAX_DECODED_BYTES"
    by (simp add: sample_counts_ok MAX_DECODED_BYTES_def)
  from group_counts_roundtrip [OF sample_codec_ok sample_counts_ok(1) s this] s show ?thesis by blast
qed

end
