(* ===== verification/InvertedIndex.thy ===== *)
theory InvertedIndex
  imports Bloom GroupCounts
begin

text \<open>
  The per-file inverted index of \<^verbatim>\<open>crates/loglake-index/src/lib.rs\<close>: term to row ordinals, built
  row by row, queried by term, by conjunction and by substring, turned into row-selection runs,
  and serialized with delta-coded postings. Terms are UTF-8 bytes, in the order \<^verbatim>\<open>String\<close> has;
  ordinals are natural numbers below \<open>2 ^ 32\<close>, as the code's conversions check. The hash of
  \<^verbatim>\<open>crc32fast\<close> is an argument.
\<close>

definition INDEX_MAGIC :: bytes where "INDEX_MAGIC = ascii_bytes ''KIDX''"
definition INDEX_VERSION :: u8 where "INDEX_VERSION = 1"
definition INVERTED_INDEX_KV_KEY :: string where "INVERTED_INDEX_KV_KEY = ''loglake.inverted_index.v1''"
definition INVERTED_INDEX_CRC32_KV_KEY :: string where "INVERTED_INDEX_CRC32_KV_KEY = ''loglake.inverted_index.crc32.v1''"

definition inverted_index_kv_key :: "string \<Rightarrow> string" where
  "inverted_index_kv_key column =
     (if column = ''raw'' then INVERTED_INDEX_KV_KEY else INVERTED_INDEX_KV_KEY @ ''.'' @ column)"

definition inverted_index_crc32_kv_key :: "string \<Rightarrow> string" where
  "inverted_index_crc32_kv_key column =
     (if column = ''raw'' then INVERTED_INDEX_CRC32_KV_KEY else INVERTED_INDEX_CRC32_KV_KEY @ ''.'' @ column)"

definition inverted_index_crc32 :: "(bytes \<Rightarrow> u32) \<Rightarrow> bytes \<Rightarrow> u32" where
  "inverted_index_crc32 crc32fast bs = crc32fast bs"

text \<open>The hasher is fed byte by byte, which is the hash of the bytes.\<close>

definition inverted_index_hex_crc32 :: "(bytes \<Rightarrow> u32) \<Rightarrow> bytes \<Rightarrow> u32 option" where
  "inverted_index_hex_crc32 crc32fast hex =
     (if odd (length hex) then None else map_option crc32fast (hex_pairs hex))"

section \<open>Building\<close>

record InvertedIndex =
  index_postings :: "(bytes \<times> nat list) list"
  index_rows :: nat

record IndexBuilder =
  b_postings :: "(bytes \<times> nat list) list"
  b_rows :: nat
  b_tokenizer :: Tokenizer

definition with_tokenizer :: "Tokenizer \<Rightarrow> IndexBuilder" where
  "with_tokenizer t = \<lparr>b_postings = [], b_rows = 0, b_tokenizer = t\<rparr>"

definition bt_get :: "'k \<Rightarrow> ('k \<times> 'v) list \<Rightarrow> 'v option" where
  "bt_get k m = map_of m k"

definition push_posting :: "nat \<Rightarrow> bytes \<Rightarrow> (bytes \<times> nat list) list \<Rightarrow> (bytes \<times> nat list) list" where
  "push_posting ordinal token m =
     bt_insert token ((case bt_get token m of None \<Rightarrow> [] | Some rows \<Rightarrow> rows) @ [ordinal]) m"

definition push_row :: "rstr \<Rightarrow> IndexBuilder \<Rightarrow> IndexBuilder" where
  "push_row raw b =
     (let ordinal = b_rows b;
          seen = remdups_adj (sort (map utf8 (Tokenizer_tokenize (b_tokenizer b) raw))) in
      b\<lparr>b_postings := fold (push_posting ordinal) seen (b_postings b), b_rows := (b_rows b + 1) mod 2 ^ 32\<rparr>)"

definition build_index :: "IndexBuilder \<Rightarrow> InvertedIndex" where
  "build_index b = \<lparr>index_postings = b_postings b, index_rows = b_rows b\<rparr>"

definition from_rows_with_tokenizer :: "rstr list \<Rightarrow> Tokenizer \<Rightarrow> InvertedIndex" where
  "from_rows_with_tokenizer rows t = build_index (fold push_row rows (with_tokenizer t))"

definition from_rows :: "rstr list \<Rightarrow> InvertedIndex" where
  "from_rows rows = from_rows_with_tokenizer rows Default"

section \<open>Queries\<close>

fun union_sorted :: "nat list \<Rightarrow> nat list \<Rightarrow> nat list" where
  "union_sorted (x # a) (y # b) =
     (if x < y then x # union_sorted a (y # b)
      else if y < x then y # union_sorted (x # a) b
      else x # union_sorted a b)"
| "union_sorted a b = a @ b"

fun intersect_sorted :: "nat list \<Rightarrow> nat list \<Rightarrow> nat list" where
  "intersect_sorted (x # a) (y # b) =
     (if x < y then intersect_sorted a (y # b)
      else if y < x then intersect_sorted (x # a) b
      else x # intersect_sorted a b)"
| "intersect_sorted a b = []"

definition postings :: "InvertedIndex \<Rightarrow> rstr \<Rightarrow> nat list option" where
  "postings idx term = Option.bind (normalize_query_term term) (\<lambda>norm. bt_get (utf8 norm) (index_postings idx))"

fun resolve_terms :: "InvertedIndex \<Rightarrow> rstr list \<Rightarrow> nat list list option" where
  "resolve_terms idx [] = Some []"
| "resolve_terms idx (t # ts) =
     (case postings idx t of None \<Rightarrow> None | Some p \<Rightarrow> map_option ((#) p) (resolve_terms idx ts))"

fun intersect_loop :: "nat list \<Rightarrow> nat list list \<Rightarrow> nat list" where
  "intersect_loop acc [] = acc"
| "intersect_loop acc (l # ls) =
     (let acc = intersect_sorted acc l in if acc = [] then acc else intersect_loop acc ls)"

definition matching_rows_all :: "InvertedIndex \<Rightarrow> rstr list \<Rightarrow> nat list" where
  "matching_rows_all idx terms =
     (if terms = [] then []
      else (case resolve_terms idx terms of
              None \<Rightarrow> []
            | Some found \<Rightarrow>
                let found = sort_key length found in intersect_loop (hd found) (tl found)))"

definition rows_containing :: "InvertedIndex \<Rightarrow> rstr \<Rightarrow> nat list option" where
  "rows_containing idx substr =
     map_option (\<lambda>norm. fold (\<lambda>(t, rows) acc. if sublist (utf8 norm) t then union_sorted acc rows else acc)
       (index_postings idx) []) (normalize_query_term substr)"

definition push_run :: "bool \<Rightarrow> nat \<Rightarrow> (bool \<times> nat) list \<Rightarrow> (bool \<times> nat) list" where
  "push_run kind len runs =
     (if len = 0 then runs
      else if runs \<noteq> [] \<and> fst (last runs) = kind then butlast runs @ [(kind, snd (last runs) + len)]
      else runs @ [(kind, len)])"

fun selection_loop :: "nat list \<Rightarrow> nat \<Rightarrow> nat \<Rightarrow> (bool \<times> nat) list \<Rightarrow> (bool \<times> nat) list" where
  "selection_loop [] n_rows cursor runs = push_run False (n_rows - cursor) runs"
| "selection_loop (ord # rest) n_rows cursor runs =
     (if ord \<ge> n_rows \<or> ord < cursor then selection_loop rest n_rows cursor runs
      else selection_loop rest n_rows (ord + 1) (push_run True 1 (push_run False (ord - cursor) runs)))"

definition row_selection_runs :: "nat list \<Rightarrow> nat \<Rightarrow> (bool \<times> nat) list" where
  "row_selection_runs selected n_rows = selection_loop selected n_rows 0 []"

definition matching_row_selection :: "InvertedIndex \<Rightarrow> rstr list \<Rightarrow> (bool \<times> nat) list" where
  "matching_row_selection idx terms = row_selection_runs (matching_rows_all idx terms) (index_rows idx)"

section \<open>Serialization\<close>

function write_varint :: "u64 \<Rightarrow> bytes" where
  "write_varint v =
     (let byte = ucast (v AND 127) :: u8; v' = drop_bit 7 v in
      if v' = 0 then [byte] else (byte OR 128) # write_varint v')"
  by auto
termination
proof (relation "measure unat")
  fix x xa :: u64 and y :: u8
  assume "xa = drop_bit 7 x" "xa \<noteq> 0"
  moreover have "unat (drop_bit 7 x) = unat x div 128"
    by (simp add: drop_bit_eq_div unat_div)
  ultimately have "unat xa = unat x div 128" "unat xa \<noteq> 0"
    by (simp_all add: word_unat_eq_iff)
  then show "(xa, x) \<in> measure unat" by simp
qed simp


declare write_varint.simps [simp del]

definition take_cur :: "nat \<Rightarrow> bytes \<Rightarrow> (bytes \<times> bytes) option" where
  "take_cur n cur = (if n \<le> length cur then Some (take n cur, drop n cur) else None)"

fun varint_loop :: "bytes \<Rightarrow> u64 \<Rightarrow> nat \<Rightarrow> (u64 \<times> bytes) option" where
  "varint_loop [] res shift = None"
| "varint_loop (byte # rest) res shift =
     (if shift \<ge> 64 then None
      else
        let payload = ucast (byte AND 127) in
        if drop_bit shift (push_bit shift payload) \<noteq> payload then None
        else
          let res = res OR push_bit shift payload in
          if byte AND 128 = 0 then Some (res, rest) else varint_loop rest res (shift + 7))"

definition varint :: "bytes \<Rightarrow> (nat \<times> bytes) option" where
  "varint cur = map_option (\<lambda>(v, cur). (unat v, cur)) (varint_loop cur 0 0)"

text \<open>\<^verbatim>\<open>try_into\<close> a \<^verbatim>\<open>u32\<close>.\<close>

definition varint32 :: "bytes \<Rightarrow> (nat \<times> bytes) option" where
  "varint32 cur = Option.bind (varint cur) (\<lambda>(v, cur). if v < 2 ^ 32 then Some (v, cur) else None)"

fun put_deltas :: "nat \<Rightarrow> nat list \<Rightarrow> bytes" where
  "put_deltas prev [] = []"
| "put_deltas prev (r # rows) = write_varint (of_nat (r - prev)) @ put_deltas r rows"

definition put_term :: "bytes \<times> nat list \<Rightarrow> bytes" where
  "put_term = (\<lambda>(term, rows).
     write_varint (of_nat (length term)) @ term @ write_varint (of_nat (length rows)) @ put_deltas 0 rows)"

definition index_to_bytes :: "InvertedIndex \<Rightarrow> bytes" where
  "index_to_bytes idx =
     INDEX_MAGIC @ [INDEX_VERSION] @ write_varint (of_nat (index_rows idx)) @
     write_varint (of_nat (length (index_postings idx))) @ concat (map put_term (index_postings idx))"

definition index_to_hex :: "InvertedIndex \<Rightarrow> bytes" where
  "index_to_hex idx = hex_encode (index_to_bytes idx)"

primrec read_rows :: "nat \<Rightarrow> nat \<Rightarrow> nat \<Rightarrow> bytes \<Rightarrow> nat \<Rightarrow> nat list \<Rightarrow> (nat list \<times> bytes) option" where
  "read_rows 0 nth_row n_rows cur prev rows = Some (rows, cur)"
| "read_rows (Suc k) nth_row n_rows cur prev rows =
     (case varint32 cur of None \<Rightarrow> None | Some (delta, cur) \<Rightarrow>
      if nth_row > 0 \<and> delta = 0 then None
      else
        let prev = prev + delta in
        if prev \<ge> 2 ^ 32 then None
        else if prev \<ge> n_rows then None
        else read_rows k (nth_row + 1) n_rows cur prev (rows @ [prev]))"

primrec read_terms :: "nat \<Rightarrow> nat \<Rightarrow> bytes \<Rightarrow> (bytes \<times> nat list) list \<Rightarrow> ((bytes \<times> nat list) list \<times> bytes) option" where
  "read_terms 0 n_rows cur posts = Some (posts, cur)"
| "read_terms (Suc k) n_rows cur posts =
     (case varint cur of None \<Rightarrow> None | Some (tlen, cur) \<Rightarrow>
     (case take_cur tlen cur of None \<Rightarrow> None | Some (raw, cur) \<Rightarrow>
     (case from_utf8 raw of None \<Rightarrow> None | Some term \<Rightarrow>
      if posts \<noteq> [] \<and> term \<le> fst (last posts) then None
      else
     (case varint cur of None \<Rightarrow> None | Some (plen, cur) \<Rightarrow>
      if plen = 0 \<or> plen > length cur then None
      else
     (case read_rows plen 0 n_rows cur 0 [] of None \<Rightarrow> None | Some (rows, cur) \<Rightarrow>
      read_terms k n_rows cur (bt_insert term rows posts))))))"

definition index_from_bytes :: "bytes \<Rightarrow> InvertedIndex option" where
  "index_from_bytes bs =
     (case take_cur 4 bs of None \<Rightarrow> None | Some (magic, cur) \<Rightarrow>
      if magic \<noteq> INDEX_MAGIC then None
      else
     (case take_cur 1 cur of None \<Rightarrow> None | Some (v, cur) \<Rightarrow>
      if hd v \<noteq> INDEX_VERSION then None
      else
     (case varint32 cur of None \<Rightarrow> None | Some (n_rows, cur) \<Rightarrow>
     (case varint cur of None \<Rightarrow> None | Some (n_terms, cur) \<Rightarrow>
      if n_terms > length cur div 3 then None
      else
     (case read_terms n_terms n_rows cur [] of None \<Rightarrow> None | Some (posts, cur) \<Rightarrow>
      if cur \<noteq> [] then None else Some \<lparr>index_postings = posts, index_rows = n_rows\<rparr>)))))"

definition index_from_hex :: "bytes \<Rightarrow> InvertedIndex option" where
  "index_from_hex s = (if odd (length s) then None else Option.bind (hex_pairs s) index_from_bytes)"

section \<open>Well-formed indexes\<close>

definition rows_ok :: "nat \<Rightarrow> nat list \<Rightarrow> bool" where
  "rows_ok n rows \<longleftrightarrow> rows \<noteq> [] \<and> sorted_wrt (<) rows \<and> (\<forall>r \<in> set rows. r < n)"

definition index_ok :: "InvertedIndex \<Rightarrow> bool" where
  "index_ok idx \<longleftrightarrow> index_rows idx < 2 ^ 32 \<and> bt_sorted (index_postings idx) \<and>
     (\<forall>(t, rows) \<in> set (index_postings idx). rows_ok (index_rows idx) rows)"

text \<open>What makes an index serializable: terms are text, and no count needs more than 64 bits.\<close>

definition index_fits :: "InvertedIndex \<Rightarrow> bool" where
  "index_fits idx \<longleftrightarrow> fits (index_postings idx) \<and>
     (\<forall>(t, rows) \<in> set (index_postings idx). is_utf8 t \<and> fits t \<and> fits rows)"

lemma write_varint_put: "write_varint v = put_uvarint v"
proof (induction v rule: put_uvarint.induct)
  case (1 v)
  have zero: "drop_bit 7 v = 0 \<longleftrightarrow> v < 128"
    by (simp add: drop_bit_eq_div word_unat_eq_iff unat_div div_eq_0_iff word_less_nat_alt)
  have m: "v AND 127 = take_bit 7 v"
    by (simp add: take_bit_eq_mask mask_eq_exp_minus_1)
  have low: "(ucast (v AND 127) :: u8) OR 128 = ucast v OR 128"
  proof (rule bit_word_eqI)
    fix n assume "n < LENGTH(8)"
    then show "bit ((ucast (v AND 127) :: u8) OR 128) n = bit (ucast v OR 128 :: u8) n"
      unfolding m by (auto simp: bit_simps bit_128)
  qed
  show ?case
  proof (cases "128 \<le> v")
    case True
    then show ?thesis
      by (subst write_varint.simps, subst put_uvarint.simps) (simp add: zero low "1.IH" Let_def leD)
  next
    case False
    then have small: "v < 128" by simp
    then have "v AND 127 = v"
      unfolding m by (simp add: word_unat_eq_iff unsigned_take_bit_eq take_bit_nat_eq_self word_less_nat_alt)
    with False small show ?thesis
      by (subst write_varint.simps, subst put_uvarint.simps) (simp add: zero Let_def)
  qed
qed

lemma shift_keeps:
  fixes p :: u64
  assumes "p < 128" and "s < 64" and "7 dvd s"
  shows "drop_bit s (push_bit s p) = p \<longleftrightarrow> \<not> (s = 63 \<and> 1 < p)"
proof (cases "s = 63")
  case True
  have "drop_bit 63 (push_bit 63 p) = take_bit 1 p"
    by (rule bit_word_eqI) (auto simp: bit_simps bit_0)
  moreover have "take_bit 1 p = p \<longleftrightarrow> \<not> 1 < p"
  proof -
    have "take_bit 1 p = p \<longleftrightarrow> unat p mod 2 = unat p"
      by (simp add: word_unat_eq_iff unat_mod take_bit_eq_mod)
    also have "\<dots> \<longleftrightarrow> unat p < 2" by presburger
    finally show ?thesis by (simp add: word_less_nat_alt not_less less_Suc_eq_le numeral_2_eq_2)
  qed
  ultimately show ?thesis using True by simp
next
  case False
  with assms(2,3) have s: "s \<le> 56" by presburger
  have p: "take_bit 7 p = p"
    using assms(1) by (simp add: word_unat_eq_iff unsigned_take_bit_eq take_bit_nat_eq_self word_less_nat_alt)
  have "drop_bit s (push_bit s (take_bit 7 p)) = take_bit 7 p"
    by (rule bit_word_eqI) (use s in \<open>auto simp: bit_simps\<close>)
  with False p show ?thesis by simp
qed

lemma unat_ucast_u8 [simp]: "unat (ucast (x :: u8) :: u64) = unat x"
proof -
  have "unat x < 2 ^ LENGTH(8)" by (rule unsigned_less)
  then show ?thesis by (simp add: unsigned_ucast_eq take_bit_nat_eq_self)
qed

lemma septet_less: "(ucast (byte AND 127 :: u8) :: u64) < 128"
proof -
  have "unat (byte AND 127) \<le> unat (127 :: u8)"
    using word_and_le1 [of byte 127] by (simp add: word_le_nat_alt)
  then show ?thesis by (simp add: word_less_nat_alt)
qed

text \<open>The two crates' varint readers accept the same encodings.\<close>

lemma varint_loop_uvarint: "7 dvd s \<Longrightarrow> varint_loop bs acc s = uvarint_loop bs acc s"
proof (induction bs arbitrary: acc s)
  case (Cons byte rest)
  let ?p = "ucast (byte AND 127) :: u64"
  have p: "(1 < ?p) = (1 < byte AND 127)"
    by (simp add: word_less_nat_alt)
  have late: "uvarint_loop rest x (s + 7) = None" if "s = 63" for x
    using that by (cases rest) simp_all
  show ?case
  proof (cases "s < 64")
    case True
    have "drop_bit s (push_bit s ?p) = ?p \<longleftrightarrow> \<not> (s = 63 \<and> 1 < byte AND 127)"
      using shift_keeps [OF septet_less True Cons.prems, of byte] p by simp
    then show ?thesis
      using True Cons late by (auto simp: Let_def)
  qed simp
qed simp

lemma varint_write [simp]: "varint (write_varint v @ rest) = Some (unat v, rest)"
  by (simp add: varint_def write_varint_put varint_loop_uvarint uvarint_put [unfolded uvarint_def])

lemma varint_nat [simp]: "n < 2 ^ 64 \<Longrightarrow> varint (write_varint (of_nat n) @ rest) = Some (n, rest)"
  by (simp add: unat_of_nat)

lemma varint32_nat [simp]: "n < 2 ^ 32 \<Longrightarrow> varint32 (write_varint (of_nat n) @ rest) = Some (n, rest)"
  by (simp add: varint32_def unat_of_nat)

lemma write_varint_ne: "1 \<le> length (write_varint v)"
  by (subst write_varint.simps) (simp add: Let_def)

lemma take_cur_append [simp]: "take_cur (length a) (a @ b) = Some (a, b)"
  by (simp add: take_cur_def)

lemma read_rows_put:
  assumes "n < 2 ^ 32" and "\<forall>r \<in> set rows. r < n" and "sorted_wrt (<) rows" and "\<forall>r \<in> set rows. prev \<le> r"
    and "k > 0 \<longrightarrow> (\<forall>r \<in> set rows. prev < r)"
  shows "read_rows (length rows) k n (put_deltas prev rows @ rest) prev acc = Some (acc @ rows, rest)"
  using assms
proof (induction rows arbitrary: k prev acc)
  case (Cons r rows)
  have "r < 2 ^ 32" using Cons.prems(1,2) by simp
  then have "r - prev < 2 ^ 32" by (rule less_imp_diff_less)
  then have "varint32 (put_deltas prev (r # rows) @ rest) = Some (r - prev, put_deltas r rows @ rest)"
    by simp
  moreover have "prev + (r - prev) = r" "r < 2 ^ 32" "r < n" "\<not> (k > 0 \<and> r - prev = 0)"
    using Cons.prems by auto
  moreover have "read_rows (length rows) (k + 1) n (put_deltas r rows @ rest) r (acc @ [r]) = Some ((acc @ [r]) @ rows, rest)"
    by (rule Cons.IH) (use Cons.prems in auto)
  ultimately show ?case by (simp del: put_deltas.simps)
qed simp

lemma length_put_deltas: "length rows \<le> length (put_deltas prev rows)"
  by (induction rows arbitrary: prev) (use write_varint_ne in \<open>auto intro: add_mono [of "Suc 0" _ "length _", simplified]\<close>)

lemma length_put_term: "rows \<noteq> [] \<Longrightarrow> 3 \<le> length (put_term (t, rows))"
proof -
  assume "rows \<noteq> []"
  then have "1 \<le> length rows" by (cases rows) auto
  then have "1 \<le> length (put_deltas 0 rows)"
    using length_put_deltas le_trans by blast
  then show ?thesis
    using write_varint_ne [of "of_nat (length t)"] write_varint_ne [of "of_nat (length rows)"]
    by (simp add: put_term_def)
qed

lemma length_put_terms:
  "\<forall>(t, rows) \<in> set ps. rows \<noteq> [] \<Longrightarrow> 3 * length ps \<le> length (concat (map put_term ps))"
proof (induction ps)
  case (Cons p ps)
  then show ?case using length_put_term [of "snd p" "fst p"] by (cases p) auto
qed simp

lemma read_terms_put:
  assumes "n < 2 ^ 32" and "bt_sorted (acc @ ps)"
    and "\<forall>(t, rows) \<in> set ps. rows_ok n rows \<and> is_utf8 t \<and> fits t \<and> fits rows"
  shows "read_terms (length ps) n (concat (map put_term ps) @ rest) acc = Some (acc @ ps, rest)"
  using assms
proof (induction ps arbitrary: acc)
  case (Cons p ps)
  obtain t rows where p: "p = (t, rows)" by fastforce
  have ok: "rows_ok n rows" "is_utf8 t" "fits t" "fits rows"
    using Cons.prems(3) p by auto
  have below: "\<forall>a \<in> set (map fst acc). a < t"
    using Cons.prems(2) p by (auto simp: bt_sorted_def sorted_wrt_append)
  then have asc: "\<not> (acc \<noteq> [] \<and> t \<le> fst (last acc))"
    by (auto simp: not_le dest: last_in_set)
  have rows: "read_rows (length rows) 0 n (put_deltas 0 rows @ r) 0 [] = Some (rows, r)" for r
    using read_rows_put [of n rows 0 0 r "[]"] Cons.prems(1) ok(1) by (simp add: rows_ok_def)
  have len: "length rows \<le> length (put_deltas 0 rows @ r)" for r
    using length_put_deltas [of rows 0] by simp
  have "rows \<noteq> []" using ok(1) by (simp add: rows_ok_def)
  moreover have "read_terms (length ps) n (concat (map put_term ps) @ rest) (acc @ [p]) = Some ((acc @ [p]) @ ps, rest)"
    by (rule Cons.IH) (use Cons.prems in auto)
  ultimately show ?case
    using ok asc rows len bt_insert_last [OF below]
    by (simp add: p put_term_def fits_def from_utf8_def not_less del: length_append)
qed simp

lemma index_roundtrip: "index_ok idx \<Longrightarrow> index_fits idx \<Longrightarrow> index_from_bytes (index_to_bytes idx) = Some idx"
proof -
  assume ok: "index_ok idx" and ft: "index_fits idx"
  let ?ps = "index_postings idx" and ?n = "index_rows idx"
  have "\<forall>(t, rows) \<in> set ?ps. rows \<noteq> []"
    using ok by (fastforce simp: index_ok_def rows_ok_def)
  then have small: "length ?ps \<le> length (concat (map put_term ?ps)) div 3"
    using length_put_terms by fastforce
  have "read_terms (length ?ps) ?n (concat (map put_term ?ps) @ []) [] = Some ([] @ ?ps, [])"
    by (rule read_terms_put) (use ok ft in \<open>fastforce simp: index_ok_def index_fits_def\<close>)+
  moreover have "take_cur 4 (INDEX_MAGIC @ r) = Some (INDEX_MAGIC, r)" for r
    by (simp add: INDEX_MAGIC_def ascii_bytes_def take_cur_def)
  moreover have "take_cur 1 (x # r) = Some ([x], r)" for x and r :: bytes
    by (simp add: take_cur_def)
  ultimately show ?thesis
    using ok ft small
    by (simp add: index_from_bytes_def index_to_bytes_def index_ok_def index_fits_def fits_def)
qed

section \<open>What is accepted is well formed\<close>

lemma read_rows_ok:
  assumes "read_rows m k n cur prev acc = Some (rows, rest)"
    and "sorted_wrt (<) acc" and "\<forall>r \<in> set acc. r < n \<and> r \<le> prev" and "k = length acc" and "k = 0 \<longrightarrow> prev = 0"
  shows "sorted_wrt (<) rows \<and> (\<forall>r \<in> set rows. r < n) \<and> length rows = length acc + m"
  using assms
proof (induction m arbitrary: k cur prev acc)
  case (Suc m)
  obtain d cur' where v: "varint32 cur = Some (d, cur')"
    using Suc.prems(1) by (cases "varint32 cur") auto
  have c: "\<not> (k > 0 \<and> d = 0)" "prev + d < n"
    and run: "read_rows m (k + 1) n cur' (prev + d) (acc @ [prev + d]) = Some (rows, rest)"
    using Suc.prems(1) v by (auto simp: Let_def split: if_splits)
  have lt: "\<forall>r \<in> set acc. r < prev + d"
    using Suc.prems(3,4) c(1) by (cases "d = 0") (auto simp: le_imp_less_Suc less_le_trans intro: le_less_trans)
  have "sorted_wrt (<) rows \<and> (\<forall>r \<in> set rows. r < n) \<and> length rows = length (acc @ [prev + d]) + m"
    by (rule Suc.IH [OF run]) (use Suc.prems lt c(2) in \<open>auto simp: sorted_wrt_append intro: less_imp_le\<close>)
  then show ?case by simp
qed simp

lemma read_terms_ok:
  assumes "read_terms m n cur acc = Some (ps, rest)" and "bt_sorted acc" and "\<forall>(t, rows) \<in> set acc. rows_ok n rows"
  shows "bt_sorted ps \<and> (\<forall>(t, rows) \<in> set ps. rows_ok n rows)"
  using assms
proof (induction m arbitrary: cur acc)
  case (Suc m)
  obtain tlen c1 where a: "varint cur = Some (tlen, c1)"
    using Suc.prems(1) by (cases "varint cur") auto
  obtain raw c2 where b: "take_cur tlen c1 = Some (raw, c2)"
    using Suc.prems(1) a by (cases "take_cur tlen c1") auto
  obtain t where c: "from_utf8 raw = Some t"
    using Suc.prems(1) a b by (cases "from_utf8 raw") auto
  have asc: "\<not> (acc \<noteq> [] \<and> t \<le> fst (last acc))"
    using Suc.prems(1) a b c by (simp split: if_splits)
  obtain plen c3 where d: "varint c2 = Some (plen, c3)"
    using Suc.prems(1) a b c asc by (cases "varint c2") (auto split: if_splits)
  have pl: "plen \<noteq> 0" "\<not> plen > length c3"
    using Suc.prems(1) a b c d asc by (simp_all split: if_splits)
  obtain rows cur2 where rr: "read_rows plen 0 n c3 0 [] = Some (rows, cur2)"
    using Suc.prems(1) a b c d asc pl by (cases "read_rows plen 0 n c3 0 []") auto
  have run: "read_terms m n cur2 (bt_insert t rows acc) = Some (ps, rest)"
    using Suc.prems(1) a b c d asc pl rr by (simp split: if_splits)
  have rows: "rows_ok n rows"
    using read_rows_ok [OF rr] pl by (auto simp: rows_ok_def)
  have below: "\<forall>a \<in> set (map fst acc). a < t"
  proof (cases acc rule: rev_cases)
    case (snoc xs x)
    have x: "fst x < t" using asc by (simp add: snoc not_le)
    have xs: "\<forall>a \<in> set (map fst xs). a < fst x"
      using Suc.prems(2) by (simp add: snoc bt_sorted_def sorted_wrt_append)
    show ?thesis
    proof
      fix a assume "a \<in> set (map fst acc)"
      then have "a = fst x \<or> a \<in> set (map fst xs)" by (auto simp: snoc)
      then show "a < t" using x xs less_trans [OF _ x] by blast
    qed
  qed simp
  have "bt_sorted (bt_insert t rows acc)" using Suc.prems(2) by simp
  moreover have "\<forall>(t, rows) \<in> set (bt_insert t rows acc). rows_ok n rows"
    using Suc.prems(3) rows unfolding bt_insert_last [OF below] by simp
  ultimately show ?case by (rule Suc.IH [OF run])
qed simp

text \<open>C17. Whatever bytes a footer holds, an index is accepted only with strictly ascending terms,
  and for each of them a non-empty, strictly ascending list of ordinals inside the file; and a
  well-formed index reads back from its footer string as itself.\<close>

theorem index_accepts_wellformed:
  "(case index_from_bytes bs of None \<Rightarrow> True | Some idx \<Rightarrow> index_ok idx) \<and>
   (index_ok idx \<and> index_fits idx \<longrightarrow> index_from_hex (index_to_hex idx) = Some idx)"
proof
  show "case index_from_bytes bs of None \<Rightarrow> True | Some idx \<Rightarrow> index_ok idx"
  proof (cases "index_from_bytes bs")
    case (Some ix)
    then obtain cur n m cur1 cur2 ps where "varint32 cur = Some (n, cur1)"
      and rt: "read_terms m n cur2 [] = Some (ps, [])" and ix: "ix = \<lparr>index_postings = ps, index_rows = n\<rparr>"
      by (auto simp: index_from_bytes_def split: option.splits prod.splits if_splits)
    then have "n < 2 ^ 32"
      by (auto simp: varint32_def bind_eq_Some_conv split: if_splits)
    with read_terms_ok [OF rt] ix Some show ?thesis
      by (simp add: index_ok_def bt_sorted_def)
  qed simp
  show "index_ok idx \<and> index_fits idx \<longrightarrow> index_from_hex (index_to_hex idx) = Some idx"
    by (auto simp: index_from_hex_def index_to_hex_def hex_pairs_encode length_hex_encode index_roundtrip)
qed

definition sample_index :: InvertedIndex where
  "sample_index = \<lparr>index_postings = [(ascii_bytes ''abc'', [0, 2])], index_rows = 3\<rparr>"

theorem index_accepts_wellformed_witness:
  "index_from_hex (index_to_hex sample_index) = Some sample_index"
proof -
  have "is_utf8 (ascii_bytes ''abc'')" by code_simp
  then have "index_ok sample_index \<and> index_fits sample_index"
    by (auto simp: sample_index_def index_ok_def index_fits_def rows_ok_def bt_sorted_def fits_def ascii_bytes_def)
  with index_accepts_wellformed [of "[]" sample_index] show ?thesis by blast
qed

section \<open>Exactness of the postings\<close>

definition row_tokens :: "Tokenizer \<Rightarrow> rstr \<Rightarrow> bytes set" where
  "row_tokens t raw = set (map utf8 (Tokenizer_tokenize t raw))"

definition hits :: "Tokenizer \<Rightarrow> rstr list \<Rightarrow> bytes \<Rightarrow> nat list" where
  "hits t rows tok = filter (\<lambda>i. tok \<in> row_tokens t (rows ! i)) [0..<length rows]"

lemma bt_sorted_push: "bt_sorted m \<Longrightarrow> bt_sorted (push_posting i k m)"
  by (simp add: push_posting_def)

lemma bt_get_push:
  "bt_sorted m \<Longrightarrow> bt_get t (push_posting i k m) =
     (if t = k then Some ((case bt_get t m of None \<Rightarrow> [] | Some r \<Rightarrow> r) @ [i]) else bt_get t m)"
  by (simp add: push_posting_def bt_get_def)

lemma fold_push_posting:
  "bt_sorted m \<Longrightarrow> distinct ks \<Longrightarrow>
   bt_sorted (fold (push_posting i) ks m) \<and>
   bt_get t (fold (push_posting i) ks m) =
     (if t \<in> set ks then Some ((case bt_get t m of None \<Rightarrow> [] | Some r \<Rightarrow> r) @ [i]) else bt_get t m)"
proof (induction ks arbitrary: m)
  case (Cons k ks)
  then show ?case using Cons.IH [of "push_posting i k m"] by (auto simp: bt_sorted_push bt_get_push)
qed simp

lemma distinct_sort_dedup: "distinct (remdups_adj (sort xs))"
proof -
  have "sorted ys \<Longrightarrow> distinct (remdups_adj ys)" for ys :: "'a::linorder list"
    by (induction ys rule: remdups_adj.induct) (auto simp: antisym_conv1)
  then show ?thesis by simp
qed

definition builder_at :: "Tokenizer \<Rightarrow> rstr list \<Rightarrow> IndexBuilder \<Rightarrow> bool" where
  "builder_at t rows b \<longleftrightarrow> b_tokenizer b = t \<and> b_rows b = length rows \<and> bt_sorted (b_postings b) \<and>
     (\<forall>k. bt_get k (b_postings b) = (if hits t rows k = [] then None else Some (hits t rows k)))"

lemma hits_snoc: "hits t (rows @ [raw]) k = hits t rows k @ (if k \<in> row_tokens t raw then [length rows] else [])"
proof -
  have "filter (\<lambda>i. k \<in> row_tokens t ((rows @ [raw]) ! i)) [0..<length rows] = filter (\<lambda>i. k \<in> row_tokens t (rows ! i)) [0..<length rows]"
    by (rule filter_cong) (auto simp: nth_append)
  then show ?thesis by (simp add: hits_def)
qed

lemma builder_at_push:
  "builder_at t rows b \<Longrightarrow> Suc (length rows) < 2 ^ 32 \<Longrightarrow> builder_at t (rows @ [raw]) (push_row raw b)"
  using fold_push_posting [OF _ distinct_sort_dedup, where m = "b_postings b" and i = "length rows"
      and xs1 = "map utf8 (Tokenizer_tokenize t raw)"]
  by (auto simp: builder_at_def push_row_def Let_def hits_snoc row_tokens_def)

lemma builder_at_fold:
  "builder_at t done b \<Longrightarrow> length (done @ rows) < 2 ^ 32 \<Longrightarrow> builder_at t (done @ rows) (fold push_row rows b)"
proof (induction rows arbitrary: "done" b)
  case (Cons r rows)
  then have "builder_at t (done @ [r]) (push_row r b)"
    by (intro builder_at_push) simp_all
  from Cons.IH [OF this] Cons.prems(2) show ?case by simp
qed simp

lemma from_rows_postings:
  assumes "length rows < 2 ^ 32"
  shows "index_rows (from_rows_with_tokenizer rows t) = length rows"
    and "bt_sorted (index_postings (from_rows_with_tokenizer rows t))"
    and "bt_get k (index_postings (from_rows_with_tokenizer rows t)) = (if hits t rows k = [] then None else Some (hits t rows k))"
proof -
  have "builder_at t [] (with_tokenizer t)"
    by (simp add: builder_at_def with_tokenizer_def bt_sorted_def bt_get_def hits_def)
  from builder_at_fold [OF this, of rows] assms
  show "index_rows (from_rows_with_tokenizer rows t) = length rows"
    and "bt_sorted (index_postings (from_rows_with_tokenizer rows t))"
    and "bt_get k (index_postings (from_rows_with_tokenizer rows t)) = (if hits t rows k = [] then None else Some (hits t rows k))"
    by (simp_all add: from_rows_with_tokenizer_def build_index_def builder_at_def)
qed

lemma sorted_hits: "sorted_wrt (<) (hits t rows k)" "i \<in> set (hits t rows k) \<Longrightarrow> i < length rows"
  unfolding hits_def by (auto intro!: sorted_wrt_filter)

lemma from_rows_ok: "length rows < 2 ^ 32 \<Longrightarrow> index_ok (from_rows_with_tokenizer rows t)"
proof -
  assume n: "length rows < 2 ^ 32"
  let ?idx = "from_rows_with_tokenizer rows t"
  have "rows_ok (length rows) r" if "(k, r) \<in> set (index_postings ?idx)" for k r
  proof -
    have "distinct (map fst (index_postings ?idx))"
      using from_rows_postings(2) [OF n, where t = t] by (simp add: bt_sorted_def strict_sorted_iff)
    then have "bt_get k (index_postings ?idx) = Some r"
      using that by (simp add: bt_get_def)
    then show ?thesis
      using from_rows_postings(3) [OF n, where t = t and k = k] sorted_hits [where t = t and rows = rows and k = k] by (auto simp: rows_ok_def split: if_splits)
  qed
  then show ?thesis using n from_rows_postings(1,2) [OF n, where t = t] by (auto simp: index_ok_def)
qed

section \<open>Set operations on postings\<close>

lemma intersect_sorted_spec:
  "sorted_wrt (<) a \<Longrightarrow> sorted_wrt (<) b \<Longrightarrow> intersect_sorted a b = filter (\<lambda>x. x \<in> set b) a"
proof (induction a b rule: intersect_sorted.induct)
  case (1 x a y b)
  consider "x < y" | "y < x" | "x = y" by (rule linorder_cases)
  then show ?case
  proof cases
    case 1
    with "1.prems" have "x \<notin> set (y # b)" by auto
    with 1 "1.IH"(1) "1.prems" show ?thesis by simp
  next
    case 2
    with "1.prems" have "filter (\<lambda>z. z \<in> set (y # b)) (x # a) = filter (\<lambda>z. z \<in> set b) (x # a)"
      by (intro filter_cong) auto
    with 2 "1.IH"(2) "1.prems" show ?thesis by simp
  next
    case 3
    with "1.IH"(3) "1.prems" have "intersect_sorted a b = filter (\<lambda>z. z \<in> set b) a" by simp
    moreover have "filter (\<lambda>z. z \<in> set (y # b)) a = filter (\<lambda>z. z \<in> set b) a"
      using "1.prems"(1) 3 by (intro filter_cong) auto
    ultimately show ?thesis using 3 by simp
  qed
qed simp_all

lemma union_sorted_spec:
  "sorted_wrt (<) a \<Longrightarrow> sorted_wrt (<) b \<Longrightarrow>
   sorted_wrt (<) (union_sorted a b) \<and> set (union_sorted a b) = set a \<union> set b"
proof (induction a b rule: union_sorted.induct)
  case (1 x a y b)
  consider "x < y" | "y < x" | "x = y" by (rule linorder_cases)
  then show ?case
  proof cases
    case 1
    with "1.IH"(1) "1.prems" show ?thesis by (auto intro: less_trans)
  next
    case 2
    with "1.IH"(2) "1.prems" show ?thesis by (auto intro: less_trans)
  next
    case 3
    with "1.IH"(3) "1.prems" show ?thesis by auto
  qed
qed simp_all

lemma intersect_loop_spec:
  "sorted_wrt (<) acc \<Longrightarrow> \<forall>l \<in> set ls. sorted_wrt (<) l \<Longrightarrow>
   intersect_loop acc ls = filter (\<lambda>x. \<forall>l \<in> set ls. x \<in> set l) acc"
proof (induction acc ls rule: intersect_loop.induct)
  case (2 acc l ls)
  have e: "intersect_sorted acc l = filter (\<lambda>x. x \<in> set l) acc"
    using "2.prems" by (intro intersect_sorted_spec) auto
  show ?case
  proof (cases "intersect_sorted acc l = []")
    case True
    then have "\<forall>x \<in> set acc. x \<notin> set l" by (simp add: e filter_empty_conv)
    with True show ?thesis by (auto simp: Let_def filter_empty_conv)
  next
    case False
    then show ?thesis
      using 2 by (auto simp: Let_def e sorted_wrt_filter intro!: filter_cong)
  qed
qed simp

section \<open>Row selections\<close>

definition expand :: "(bool \<times> nat) list \<Rightarrow> bool list" where
  "expand runs = concat (map (\<lambda>(k, l). replicate l k) runs)"

definition alternating :: "(bool \<times> nat) list \<Rightarrow> bool" where
  "alternating runs \<longleftrightarrow> (\<forall>(k, l) \<in> set runs. l > 0) \<and> successively (\<lambda>a b. fst a \<noteq> fst b) runs"

lemma upt_split: "i \<le> j \<Longrightarrow> j \<le> k \<Longrightarrow> [i..<k] = [i..<j] @ [j..<k]"
  using upt_add_eq_append [of i j "k - j"] by simp

lemma expand_push: "expand (push_run k l runs) = expand runs @ replicate l k"
proof (cases runs rule: rev_cases)
  case Nil
  then show ?thesis by (simp add: expand_def push_run_def)
next
  case (snoc xs x)
  then show ?thesis
    by (cases x) (auto simp: expand_def push_run_def replicate_add)
qed

lemma alternating_push: "alternating runs \<Longrightarrow> alternating (push_run k l runs)"
proof (cases runs rule: rev_cases)
  case (snoc xs x)
  moreover assume "alternating runs"
  ultimately show ?thesis
    by (cases x) (auto simp: alternating_def push_run_def successively_append_iff)
qed (simp add: alternating_def push_run_def)

lemma selection_loop_spec:
  assumes "sorted_wrt (<) sel" and "cursor \<le> n" and "expand runs = map P [0..<cursor]" and "alternating runs"
    and "\<forall>i. cursor \<le> i \<and> i < n \<longrightarrow> P i = (i \<in> set sel)"
  shows "expand (selection_loop sel n cursor runs) = map P [0..<n] \<and> alternating (selection_loop sel n cursor runs)"
  using assms
proof (induction sel n cursor runs rule: selection_loop.induct)
  case (1 n cursor runs)
  have "replicate (n - cursor) False = map P [cursor..<n]"
    using "1.prems"(5) by (intro nth_equalityI) auto
  moreover have "[0..<n] = [0..<cursor] @ [cursor..<n]"
    using "1.prems"(2) by (intro upt_split) simp_all
  ultimately show ?case
    using "1.prems" by (simp add: expand_push alternating_push)
next
  case (2 ord rest n cursor runs)
  show ?case
  proof (cases "ord \<ge> n \<or> ord < cursor")
    case True
    then show ?thesis using "2.IH"(1) "2.prems" by auto
  next
    case False
    have "replicate (ord - cursor) False = map P [cursor..<ord]"
      using "2.prems"(1,5) False by (intro nth_equalityI) (auto dest!: bspec)
    moreover have "[0..<ord + 1] = [0..<cursor] @ [cursor..<ord] @ [ord]"
      using False upt_split [of 0 cursor ord] by simp
    ultimately have "expand (push_run True 1 (push_run False (ord - cursor) runs)) = map P [0..<ord + 1]"
      using "2.prems"(3,5) False by (simp add: expand_push)
    then have "expand (selection_loop rest n (ord + 1) (push_run True 1 (push_run False (ord - cursor) runs))) = map P [0..<n] \<and>
        alternating (selection_loop rest n (ord + 1) (push_run True 1 (push_run False (ord - cursor) runs)))"
      by (intro "2.IH"(2)) (use False "2.prems" in \<open>auto simp: alternating_push\<close>)
    with False show ?thesis by auto
  qed
qed

section \<open>Queries on a built index\<close>

lemma utf8_ascii_map: "\<forall>c \<in> set s. c < 128 \<Longrightarrow> utf8 s = map of_nat s"
  by (induction s) (simp_all add: utf8_def)

lemma utf8_ascii_inj:
  assumes "\<forall>c \<in> set a. c < 128" and "\<forall>c \<in> set b. c < 128" and "utf8 a = utf8 b"
  shows "a = b"
proof -
  have "map unat (utf8 s) = s" if "\<forall>c \<in> set s. c < 128" for s
    using that by (simp add: utf8_ascii_map) (induction s, auto simp: unat_of_nat)
  then show ?thesis using assms by metis
qed

lemma row_tokens_default:
  assumes "normalize_query_term t = Some q"
  shows "utf8 q \<in> row_tokens Default raw \<longleftrightarrow> q \<in> set (tokenize raw)"
proof
  assume "utf8 q \<in> row_tokens Default raw"
  then obtain k where k: "k \<in> set (tokenize raw)" "utf8 q = utf8 k"
    by (auto simp: row_tokens_def tokenize_def)
  have "q = k"
    by (rule utf8_ascii_inj [OF _ _ k(2)])
      (use normalize_query_termD(4) [OF assms] token_alphanumeric [OF k(1)] in \<open>auto dest: alphanumeric_ascii\<close>)
  with k show "q \<in> set (tokenize raw)" by simp
qed (auto simp: row_tokens_def tokenize_def)

lemma resolve_terms_spec:
  "resolve_terms idx ts = (if \<forall>t \<in> set ts. postings idx t \<noteq> None then Some (map (the \<circ> postings idx) ts) else None)"
  by (induction ts) (auto split: option.splits)

lemma matching_rows_all_spec:
  assumes "\<forall>t \<in> set terms. postings idx t \<noteq> None" and "terms \<noteq> []"
    and "\<forall>t \<in> set terms. sorted_wrt (<) (the (postings idx t))"
  shows "sorted_wrt (<) (matching_rows_all idx terms) \<and>
    set (matching_rows_all idx terms) = {i. \<forall>t \<in> set terms. i \<in> set (the (postings idx t))}"
proof -
  let ?ls = "sort_key length (map (the \<circ> postings idx) terms)"
  have set: "set ?ls = (\<lambda>t. the (postings idx t)) ` set terms" by simp
  obtain h r where hr: "?ls = h # r"
    using assms(2) by (cases ?ls) (auto dest: arg_cong [where f = length])
  have sorted: "sorted_wrt (<) h" "\<forall>l \<in> set r. sorted_wrt (<) l"
  proof -
    have "\<forall>l \<in> set ?ls. sorted_wrt (<) l" unfolding set using assms(3) by blast
    then show "sorted_wrt (<) h" "\<forall>l \<in> set r. sorted_wrt (<) l" unfolding hr by simp_all
  qed
  have "matching_rows_all idx terms = intersect_loop h r"
    using assms(1,2) hr by (simp add: matching_rows_all_def resolve_terms_spec Let_def)
  also have "\<dots> = filter (\<lambda>x. \<forall>l \<in> set r. x \<in> set l) h"
    by (rule intersect_loop_spec [OF sorted])
  finally have e: "matching_rows_all idx terms = filter (\<lambda>x. \<forall>l \<in> set r. x \<in> set l) h" .
  have "set (filter (\<lambda>x. \<forall>l \<in> set r. x \<in> set l) h) = {x. \<forall>l \<in> set (h # r). x \<in> set l}" by auto
  also have "\<dots> = {i. \<forall>t \<in> set terms. i \<in> set (the (postings idx t))}"
    unfolding hr [symmetric] set by auto
  finally show ?thesis unfolding e using sorted(1) by (simp add: sorted_wrt_filter)
qed

lemma postings_from_rows:
  assumes "length rows < 2 ^ 32" and "normalize_query_term t = Some q"
  shows "postings (from_rows rows) t =
    (let is = filter (\<lambda>i. q \<in> set (tokenize (rows ! i))) [0..<length rows] in if is = [] then None else Some is)"
  using from_rows_postings(3) [OF assms(1), where t = Default and k = "utf8 q"] assms(2)
  by (simp add: postings_def from_rows_def hits_def row_tokens_default [OF assms(2)] Let_def)

text \<open>C16. The row selection for a conjunction of query terms marks exactly the rows whose tokens
  include all of them, in maximal runs.\<close>

theorem and_query_exact:
  assumes "length rows < 2 ^ 32" and "terms \<noteq> []" and "\<forall>t \<in> set terms. normalize_query_term t \<noteq> None"
  shows "expand (matching_row_selection (from_rows rows) terms) =
      map (\<lambda>i. \<forall>t \<in> set terms. the (normalize_query_term t) \<in> set (tokenize (rows ! i))) [0..<length rows] \<and>
    alternating (matching_row_selection (from_rows rows) terms)"
proof -
  let ?idx = "from_rows rows" and ?P = "\<lambda>i. \<forall>t \<in> set terms. the (normalize_query_term t) \<in> set (tokenize (rows ! i))"
  have post: "postings ?idx t = (let is = filter (\<lambda>i. the (normalize_query_term t) \<in> set (tokenize (rows ! i))) [0..<length rows]
      in if is = [] then None else Some is)" if "t \<in> set terms" for t
    using assms(3) that by (intro postings_from_rows [OF assms(1)]) auto
  have sel: "sorted_wrt (<) (matching_rows_all ?idx terms) \<and> (\<forall>i < length rows. ?P i = (i \<in> set (matching_rows_all ?idx terms)))"
  proof (cases "\<forall>t \<in> set terms. postings ?idx t \<noteq> None")
    case True
    have e: "the (postings ?idx t) = filter (\<lambda>i. the (normalize_query_term t) \<in> set (tokenize (rows ! i))) [0..<length rows]"
      if "t \<in> set terms" for t
      using True that post [OF that] by (auto simp: Let_def split: if_splits)
    have "\<forall>t \<in> set terms. sorted_wrt (<) (the (postings ?idx t))"
      by (simp add: e sorted_wrt_filter)
    from matching_rows_all_spec [OF True assms(2) this] show ?thesis by (simp add: e)
  next
    case False
    then obtain t where t: "t \<in> set terms" "postings ?idx t = None" by auto
    then have "\<forall>i < length rows. the (normalize_query_term t) \<notin> set (tokenize (rows ! i))"
      using post [OF t(1)] by (auto simp: Let_def filter_empty_conv split: if_splits)
    moreover have "matching_rows_all ?idx terms = []"
      using assms(2) False by (auto simp: matching_rows_all_def resolve_terms_spec)
    ultimately show ?thesis using t(1) by auto
  qed
  have "expand [] = map ?P [0..<0]" "alternating []"
    by (simp_all add: expand_def alternating_def)
  moreover have "index_rows ?idx = length rows"
    by (simp add: from_rows_def from_rows_postings(1) [OF assms(1)])
  ultimately show ?thesis
    unfolding matching_row_selection_def row_selection_runs_def
    using sel by (simp only:) (rule selection_loop_spec, auto)
qed

definition sample_rows :: "rstr list" where
  "sample_rows = [ascii ''GET /api 500'', ascii ''POST /api 200'', ascii ''get /api ok'']"

lemmas text_eval = ascii_def trim_def is_whitespace_def is_ascii_alphanumeric_def to_ascii_lower_def is_ascii_upper_def
  normalize_query_term_def str_len_def utf8_def utf8_char_def MIN_TOKEN_LEN_def

lemma sample_terms:
  "normalize_query_term (ascii ''api'') = Some (ascii ''api'')"
  "normalize_query_term (ascii ''GET'') = Some (ascii ''get'')"
  "normalize_query_term (ascii ''OST'') = Some (ascii ''ost'')"
  "normalize_query_term (ascii ''zzz'') = Some (ascii ''zzz'')"
  by (simp_all add: text_eval)

lemma sample_tokens: "map tokenize sample_rows =
  [[ascii ''get'', ascii ''api'', ascii ''500''], [ascii ''post'', ascii ''api'', ascii ''200''], [ascii ''get'', ascii ''api'']]"
  by (simp add: sample_rows_def tokenize_eq text_eval)

theorem and_query_exact_witness:
  "expand (matching_row_selection (from_rows sample_rows) [ascii ''api'', ascii ''GET'']) = [True, False, True]"
proof -
  have n: "length sample_rows < 2 ^ 32" by (simp add: sample_rows_def)
  have t: "\<forall>t \<in> set [ascii ''api'', ascii ''GET'']. normalize_query_term t \<noteq> None"
    by (simp add: sample_terms)
  have "[0..<length sample_rows] = [0, 1, 2]" by (simp add: sample_rows_def upt_rec)
  moreover have "tokenize (sample_rows ! 0) = [ascii ''get'', ascii ''api'', ascii ''500'']"
    "tokenize (sample_rows ! 1) = [ascii ''post'', ascii ''api'', ascii ''200'']"
    "tokenize (sample_rows ! 2) = [ascii ''get'', ascii ''api'']"
    using sample_tokens by (simp_all add: sample_rows_def)
  moreover have "ascii ''get'' \<notin> set [ascii ''post'', ascii ''api'', ascii ''200'']" by (simp add: ascii_def)
  ultimately have "map (\<lambda>i. \<forall>t \<in> set [ascii ''api'', ascii ''GET'']. the (normalize_query_term t) \<in> set (tokenize (sample_rows ! i)))
      [0..<length sample_rows] = [True, False, True]"
    by (simp add: sample_terms)
  with and_query_exact [OF n list.distinct(2) t, THEN conjunct1] show ?thesis by (rule trans)
qed

section \<open>Substring search\<close>

lemma prefix_first_piece:
  "prefix w s \<Longrightarrow> \<forall>c \<in> set w. \<not> p c \<Longrightarrow> prefix w (hd (split_on p s))"
proof (induction s arbitrary: w)
  case (Cons c s)
  then show ?case
    by (cases w; cases "split_on p s") auto
qed simp

lemma sublist_in_piece:
  "sublist w s \<Longrightarrow> \<forall>c \<in> set w. \<not> p c \<Longrightarrow> \<exists>v \<in> set (split_on p s). sublist w v"
proof (induction s)
  case (Cons c s)
  show ?case
  proof (cases "prefix w (c # s)")
    case True
    then have "prefix w (hd (split_on p (c # s)))" by (rule prefix_first_piece) (use Cons.prems in auto)
    then show ?thesis by (metis hd_in_set prefix_imp_sublist split_on_nonempty)
  next
    case False
    with Cons obtain v where v: "v \<in> set (split_on p s)" "sublist w v"
      by (auto simp: sublist_Cons_right)
    show ?thesis
    proof (cases "split_on p s")
      case (Cons u us)
      with v consider "v = u" | "v \<in> set us" by auto
      then show ?thesis
      proof cases
        case 1
        then have "sublist w (c # u)" using v(2) by (simp add: sublist_Cons_right)
        then show ?thesis using 1 v(2) Cons by simp
      next
        case 2
        then show ?thesis using v(2) Cons by auto
      qed
    qed simp
  qed
qed simp

lemma sublist_map: "sublist a b \<Longrightarrow> sublist (map f a) (map f b)"
  by (metis map_append sublist_def)

lemma split_on_lower:
  "split_on (\<lambda>c. \<not> is_ascii_alphanumeric c) (to_ascii_lowercase s) =
   map to_ascii_lowercase (split_on (\<lambda>c. \<not> is_ascii_alphanumeric c) s)"
  by (induction s) (auto split: list.splits)

lemma fold_union_rows:
  assumes "sorted_wrt (<) acc" and "\<forall>(t, rows) \<in> set ps. sorted_wrt (<) rows"
  shows "sorted_wrt (<) (fold (\<lambda>(t, rows) acc. if sublist w t then union_sorted acc rows else acc) ps acc) \<and>
    set (fold (\<lambda>(t, rows) acc. if sublist w t then union_sorted acc rows else acc) ps acc) =
      set acc \<union> \<Union> {set rows |t rows. (t, rows) \<in> set ps \<and> sublist w t}"
  using assms
proof (induction ps arbitrary: acc)
  case (Cons p ps)
  obtain t rows where p: "p = (t, rows)" by fastforce
  let ?acc = "if sublist w t then union_sorted acc rows else acc"
  have a: "sorted_wrt (<) ?acc \<and> set ?acc = set acc \<union> (if sublist w t then set rows else {})"
    using union_sorted_spec [OF Cons.prems(1), of rows] Cons.prems p by auto
  have "\<Union> {set rows |t rows. (t, rows) \<in> set (p # ps) \<and> sublist w t} =
      (if sublist w t then set rows else {}) \<union> \<Union> {set rows |t rows. (t, rows) \<in> set ps \<and> sublist w t}"
    by (auto simp: p)
  then show ?case
    using Cons.IH [of ?acc] a Cons.prems(2) by (simp add: p Un_assoc)
qed simp

text \<open>C18. For a substring the index can look up, the candidate rows include every row that contains
  it, up to ASCII case, provided the row has at most 64 indexable tokens.\<close>

theorem rows_containing_superset:
  assumes "length rows < 2 ^ 32" and "normalize_query_term sub = Some q" and "i < length rows"
    and "sublist q (to_ascii_lowercase (rows ! i))"
    and "length (filter (\<lambda>p. 3 \<le> length p) (split_on (\<lambda>c. \<not> is_ascii_alphanumeric c) (rows ! i))) \<le> 64"
  shows "\<exists>acc. rows_containing (from_rows rows) sub = Some acc \<and> sorted_wrt (<) acc \<and> i \<in> set acc"
proof -
  let ?split = "split_on (\<lambda>c. \<not> is_ascii_alphanumeric c)" and ?idx = "from_rows rows"
  note q = normalize_query_termD [OF assms(2)]
  obtain v where v: "v \<in> set (?split (rows ! i))" "sublist q (to_ascii_lowercase v)"
    using sublist_in_piece [OF assms(4), of "\<lambda>c. \<not> is_ascii_alphanumeric c"] q(4) by (auto simp: split_on_lower)
  have "3 \<le> length v" using sublist_length_le [OF v(2)] q(1,3) by simp
  with v(1) assms(5) have tok: "to_ascii_lowercase v \<in> set (tokenize (rows ! i))"
    by (simp add: tokenize_eq)
  let ?k = "utf8 (to_ascii_lowercase v)"
  have "\<forall>c \<in> set (to_ascii_lowercase v). c < 128" "\<forall>c \<in> set q. c < 128"
    using token_alphanumeric [OF tok] q(4) by (auto dest: alphanumeric_ascii)
  then have sub: "sublist (utf8 q) ?k"
    using sublist_map [OF v(2)] by (simp add: utf8_ascii_map del: map_map set_map)
  have "i \<in> set (hits Default rows ?k)"
    using assms(3) tok by (auto simp: hits_def row_tokens_def tokenize_def)
  moreover from this have "(?k, hits Default rows ?k) \<in> set (index_postings ?idx)"
    using from_rows_postings(3) [OF assms(1), where t = Default and k = ?k]
    by (auto simp: bt_get_def from_rows_def split: if_splits dest: map_of_SomeD)
  moreover have "\<forall>(t, r) \<in> set (index_postings ?idx). sorted_wrt (<) r"
    using from_rows_ok [OF assms(1), of Default] by (fastforce simp: index_ok_def rows_ok_def from_rows_def)
  ultimately show ?thesis
    using fold_union_rows [of "[]" "index_postings ?idx" "utf8 q"] assms(2) sub
    by (auto simp: rows_containing_def)
qed

theorem rows_containing_superset_witness:
  "\<exists>acc. rows_containing (from_rows sample_rows) (ascii ''OST'') = Some acc \<and> sorted_wrt (<) acc \<and> 1 \<in> set acc"
proof (rule rows_containing_superset)
  show "length sample_rows < 2 ^ 32" "1 < length sample_rows" by (simp_all add: sample_rows_def)
  show "normalize_query_term (ascii ''OST'') = Some (ascii ''ost'')" by (rule sample_terms)
  show "sublist (ascii ''ost'') (to_ascii_lowercase (sample_rows ! 1))"
    by (simp add: sample_rows_def text_eval sublist_Cons_right)
  show "length (filter (\<lambda>p. 3 \<le> length p) (split_on (\<lambda>c. \<not> is_ascii_alphanumeric c) (sample_rows ! 1))) \<le> 64"
    by (simp add: sample_rows_def text_eval)
qed

definition long_row :: rstr where
  "long_row = concat (replicate 64 (ascii ''aaa '')) @ ascii ''zzz''"

lemma split_repeat:
  "split_on (\<lambda>c. \<not> is_ascii_alphanumeric c) (concat (replicate n (ascii ''aaa '')) @ ascii ''zzz'') =
   replicate n (ascii ''aaa'') @ [ascii ''zzz'']"
  by (induction n) (simp_all add: ascii_def is_ascii_alphanumeric_def)

lemma long_row_tokens: "set (tokenize long_row) = {ascii ''aaa''}"
  unfolding long_row_def tokenize_eq split_repeat
  by (simp add: ascii_def to_ascii_lower_def is_ascii_upper_def)

lemma long_row_terms: "(t, r) \<in> set (index_postings (from_rows [long_row])) \<Longrightarrow> t = utf8 (ascii ''aaa'')"
proof -
  have n: "length [long_row] < 2 ^ 32" by simp
  have "distinct (map fst (index_postings (from_rows [long_row])))"
    using from_rows_postings(2) [OF n, where t = Default] by (simp add: bt_sorted_def strict_sorted_iff from_rows_def)
  moreover assume "(t, r) \<in> set (index_postings (from_rows [long_row]))"
  ultimately have "hits Default [long_row] t \<noteq> []"
    using from_rows_postings(3) [OF n, where t = Default and k = t] by (auto simp: bt_get_def from_rows_def split: if_splits)
  then have "t \<in> row_tokens Default long_row" by (auto simp: hits_def split: if_splits)
  then show ?thesis using long_row_tokens by (auto simp: row_tokens_def tokenize_def)
qed

text \<open>C19. Without that bound the candidates can miss a row: one whose 65th token is the only one that
  contains the substring is not reported.\<close>

theorem rows_containing_misses:
  "sublist (ascii ''zzz'') long_row \<and> normalize_query_term (ascii ''zzz'') = Some (ascii ''zzz'') \<and>
   rows_containing (from_rows [long_row]) (ascii ''zzz'') = Some []"
proof (intro conjI)
  show "sublist (ascii ''zzz'') long_row"
    using sublist_appendI [of "ascii ''zzz''" "concat (replicate 64 (ascii ''aaa ''))" "[]"]
    unfolding long_row_def append_Nil2 .
  show n: "normalize_query_term (ascii ''zzz'') = Some (ascii ''zzz'')" by (rule sample_terms)
  have "\<not> sublist (utf8 (ascii ''zzz'')) (utf8 (ascii ''aaa''))"
    by (simp add: text_eval sublist_Cons_right)
  then have none: "{set r |t r. (t, r) \<in> set (index_postings (from_rows [long_row])) \<and> sublist (utf8 (ascii ''zzz'')) t} = {}"
    using long_row_terms by auto
  have "\<forall>(t, r) \<in> set (index_postings (from_rows [long_row])). sorted_wrt (<) r"
    using from_rows_ok [of "[long_row]" Default] by (fastforce simp: index_ok_def rows_ok_def from_rows_def)
  then show "rows_containing (from_rows [long_row]) (ascii ''zzz'') = Some []"
    using fold_union_rows [of "[]" "index_postings (from_rows [long_row])" "utf8 (ascii ''zzz'')"]
    unfolding none by (simp add: rows_containing_def n)
qed

end
