(* ===== verification/WalStream.thy ===== *)
theory WalStream
  imports WalWriter
begin

text \<open>
  The byte stream behind the open segment: what the buffered, checksumming writer has taken is on
  disk or in the buffer, in order, and the running checksum covers the part on disk. An error
  leaves a prefix of what was being written.
\<close>

section \<open>Appending to one file\<close>

definition appended :: "nat \<Rightarrow> fs \<Rightarrow> fs \<Rightarrow> bool" where
  "appended i s t \<longleftrightarrow> ver t = ver s \<and> lo t = lo s \<and> hist t = hist s \<and> deps t = deps s \<and> names t = names s \<and>
     dur t = dur s \<and> next_inode t = next_inode s \<and> (\<forall>j. j \<noteq> i \<longrightarrow> data t j = data s j) \<and>
     prefix (data s i) (data t i)"

lemma appended_refl [simp]: "appended i s s"
  by (simp add: appended_def)

lemma appended_trans: "appended i s t \<Longrightarrow> appended i t u \<Longrightarrow> appended i s u"
  by (auto simp: appended_def intro: prefix_order.trans)

lemma std_write_result:
  assumes "std_write i bs s = (n, t)"
  shows "appended i s t" "data t i = data s i @ take n bs" "n \<le> length bs"
    "fault_at s (clk s) = None \<Longrightarrow> n = length bs"
  using assms by (auto simp: std_write_def appended_def Let_def split: option.splits)

lemma crc_file_write_result:
  assumes "crc_file_write buf c s = (n, c', t)"
  obtains "std_write (cw_inner c) buf s = (n, t)" "cw_inner c' = cw_inner c"
    "cw_state c' = crc32_update (cw_state c) (take n buf)"
  using assms
  by (auto simp: crc_file_write_def crc_writer_write_def Let_def split: prod.splits)

section \<open>The stream\<close>

definition streamed :: "fs \<Rightarrow> nat \<Rightarrow> bytes \<Rightarrow> bytes \<Rightarrow> buf_writer \<times> fs \<Rightarrow> bool" where
  "streamed s0 i hdr ms = (\<lambda>(b, s). cw_inner (bw_inner b) = i \<and> appended i s0 s \<and>
     data s i @ bw_buf b = hdr @ ms \<and> length hdr \<le> length (data s i) \<and>
     cw_state (bw_inner b) = crc32_update 0xFFFFFFFF (drop (length hdr) (data s i)))"

text \<open>One write of the inner writer: it takes a prefix of what follows the bytes on disk.\<close>

lemma streamed_write:
  assumes "streamed s0 i hdr ms (b, s)" "crc_file_write bs (bw_inner b) s = (n, c, t)"
  shows "appended i s0 t" "data t i = data s i @ take n bs" "cw_inner c = i"
    "cw_state c = crc32_update 0xFFFFFFFF (drop (length hdr) (data t i))" "n \<le> length bs"
    "fault_at s (clk s) = None \<Longrightarrow> n = length bs" "length hdr \<le> length (data t i)"
proof -
  from assms(2) have w: "std_write i bs s = (n, t)" "cw_inner c = i"
    "cw_state c = crc32_update (cw_state (bw_inner b)) (take n bs)"
    using assms(1) by (auto simp: streamed_def elim!: crc_file_write_result)
  note r = std_write_result [OF w(1)]
  show "appended i s0 t" using assms(1) r(1) by (auto simp: streamed_def intro: appended_trans)
  show "data t i = data s i @ take n bs" "cw_inner c = i" "n \<le> length bs" using r w by auto
  show "fault_at s (clk s) = None \<Longrightarrow> n = length bs" by (rule r(4))
  show "length hdr \<le> length (data t i)" using assms(1) r(2) by (simp add: streamed_def)
  show "cw_state c = crc32_update 0xFFFFFFFF (drop (length hdr) (data t i))"
    using assms(1) w(3) r(2) by (simp add: streamed_def crc32_update_append)
qed

lemma flush_streamed:
  "triple (streamed s0 i hdr ms) buf_flush (\<lambda>_ ws. streamed s0 i hdr ms ws \<and> bw_buf (fst ws) = [])
     (streamed s0 i hdr ms)"
  unfolding triple_def
proof (intro allI impI)
  fix ws
  assume ws: "streamed s0 i hdr ms ws"
  obtain b s where bs: "ws = (b, s)" by force
  obtain n c t where w: "crc_file_write (bw_buf b) (bw_inner b) s = (n, c, t)" by (metis surj_pair)
  have r: "streamed s0 i hdr ms (b\<lparr>bw_buf := drop n (bw_buf b), bw_inner := c\<rparr>, t)"
    using streamed_write [OF ws [unfolded bs] w] ws bs by (simp add: streamed_def)
  show "case buf_flush ws of (Inr x, ws) \<Rightarrow> streamed s0 i hdr ms ws \<and> bw_buf (fst ws) = []
      | (Inl e, ws) \<Rightarrow> streamed s0 i hdr ms ws"
    using ws r streamed_write(6) [OF ws [unfolded bs] w]
    unfolding bs by (auto simp: buf_flush_def w Let_def)
qed

lemma push_streamed:
  "triple (streamed s0 i hdr ms) (buf_push bs) (\<lambda>_. streamed s0 i hdr (ms @ bs)) E"
  by (auto simp: triple_def buf_push_def streamed_def)

lemma inner_streamed:
  "triple (\<lambda>ws. streamed s0 i hdr ms ws \<and> bw_buf (fst ws) = []) (inner_write_all bs)
     (\<lambda>_. streamed s0 i hdr (ms @ bs)) (\<lambda>ws. \<exists>y. prefix y bs \<and> streamed s0 i hdr (ms @ y) ws)"
  unfolding triple_def
proof (intro allI impI)
  fix ws
  assume ws: "streamed s0 i hdr ms ws \<and> bw_buf (fst ws) = []"
  obtain b s where bs: "ws = (b, s)" by force
  have s: "streamed s0 i hdr ms (b, s)" "bw_buf b = []" using ws bs by simp_all
  obtain n c t where w: "crc_file_write bs (bw_inner b) s = (n, c, t)" by (metis surj_pair)
  note q = streamed_write [OF s(1) w]
  have r: "streamed s0 i hdr (ms @ take n bs) (b\<lparr>bw_inner := c\<rparr>, t)"
    using q s by (simp add: streamed_def)
  moreover have "prefix (take n bs) bs" by (rule take_is_prefix)
  ultimately show "case inner_write_all bs ws of (Inr x, ws) \<Rightarrow> streamed s0 i hdr (ms @ bs) ws
      | (Inl e, ws) \<Rightarrow> \<exists>y. prefix y bs \<and> streamed s0 i hdr (ms @ y) ws"
    using q(6) unfolding bs by (auto simp: inner_write_all_def w Let_def)
qed

lemma write_all_streamed:
  "triple (streamed s0 i hdr ms) (buf_write_all bs) (\<lambda>_. streamed s0 i hdr (ms @ bs))
     (\<lambda>ws. \<exists>y. prefix y bs \<and> streamed s0 i hdr (ms @ y) ws)"
proof (rule triple_state)
  fix ws
  assume ws: "streamed s0 i hdr ms ws"
  let ?E = "\<lambda>ws. \<exists>y. prefix y bs \<and> streamed s0 i hdr (ms @ y) ws"
  let ?Q = "\<lambda>_ :: unit. streamed s0 i hdr (ms @ bs)"
  let ?F = "\<lambda>ws. streamed s0 i hdr ms ws \<and> bw_buf (fst ws) = []"
  obtain b s where bs: "ws = (b, s)" by force
  have P: "triple (\<lambda>x. x = ws) (buf_push bs) ?Q ?E"
    by (rule triple_conseq [OF push_streamed]) (use ws in auto)
  have big: "triple ?F (if length bs \<ge> BUF_CAPACITY then inner_write_all bs else buf_push bs) ?Q ?E"
    by (auto intro: inner_streamed triple_conseq [OF push_streamed])
  have flush: "triple (\<lambda>x. x = ws) buf_flush (\<lambda>_. ?F) ?E"
    by (rule triple_conseq [OF flush_streamed]) (use ws in \<open>auto intro: exI [of _ "[]"]\<close>)
  show "triple (\<lambda>x. x = ws) (buf_write_all bs) ?Q ?E"
  proof (cases "length bs > BUF_CAPACITY - length (bw_buf b)")
    case True
    then have "buf_write_all bs ws = qm buf_flush
        (\<lambda>_. if length bs \<ge> BUF_CAPACITY then inner_write_all bs else buf_push bs) ws"
      unfolding bs by (simp add: buf_write_all_def)
    then show ?thesis using triple_qm [OF flush big] by (simp add: triple_def)
  next
    case False
    have "bw_buf b = []" if "length bs \<ge> BUF_CAPACITY"
      using False that by (cases "bw_buf b") (simp_all add: BUF_CAPACITY_def)
    then have "triple (\<lambda>x. x = ws) (inner_write_all bs) ?Q ?E" if "length bs \<ge> BUF_CAPACITY"
      by (intro triple_conseq [OF inner_streamed]) (use ws bs that in auto)
    moreover have "buf_write_all bs ws =
        (if length bs \<ge> BUF_CAPACITY then inner_write_all bs ws else buf_push bs ws)"
      using False unfolding bs by (auto simp: buf_write_all_def qm_def ret_def buf_push_def BUF_CAPACITY_def)
    ultimately show ?thesis using P by (simp add: triple_def)
  qed
qed

definition puts :: "ipc_op list \<Rightarrow> bytes" where
  "puts ops = concat (map (\<lambda>op. case op of Put bs \<Rightarrow> bs | Flush \<Rightarrow> []) ops)"

lemma puts_simps [simp]: "puts [] = []" "puts (Put bs # ops) = bs @ puts ops" "puts (Flush # ops) = puts ops"
  by (simp_all add: puts_def)

lemma stream_ops_streamed:
  "triple (streamed s0 i hdr ms) (stream_ops ops) (\<lambda>_. streamed s0 i hdr (ms @ puts ops))
     (\<lambda>ws. \<exists>y. prefix y (puts ops) \<and> streamed s0 i hdr (ms @ y) ws)"
proof (induction ops arbitrary: ms)
  case Nil
  then show ?case by (auto intro: triple_ret)
next
  case (Cons op ops)
  show ?case
  proof (cases op)
    case (Put bs)
    let ?E = "\<lambda>ws. \<exists>y. prefix y (bs @ puts ops) \<and> streamed s0 i hdr (ms @ y) ws"
    have 1: "triple (streamed s0 i hdr ms) (buf_write_all bs) (\<lambda>_. streamed s0 i hdr (ms @ bs)) ?E"
      by (rule triple_conseq [OF write_all_streamed]) (auto intro: prefix_prefix)
    have 2: "triple (streamed s0 i hdr (ms @ bs)) (stream_ops ops) (\<lambda>_. streamed s0 i hdr ((ms @ bs) @ puts ops)) ?E"
      by (rule triple_conseq [OF Cons.IH]) (auto intro: exI [of _ "bs @ y" for y])
    show ?thesis using triple_qm [OF 1 2] by (simp add: Put)
  next
    case Flush
    have "triple (streamed s0 i hdr ms) buf_flush (\<lambda>_. streamed s0 i hdr ms)
        (\<lambda>ws. \<exists>y. prefix y (puts ops) \<and> streamed s0 i hdr (ms @ y) ws)"
      by (rule triple_conseq [OF flush_streamed]) (auto intro: exI [of _ "[]"])
    from triple_qm [OF this Cons.IH] show ?thesis by (simp add: Flush)
  qed
qed

end
