(* ===== verification/Spec2Isabelle.thy ===== *)
theory Spec2Isabelle
  imports ProofReclaim ConsumedProof CatalogClaim MirrorUpload MirrorKeys Merge Admission RateLimit Scaling InvertedIndex GroupCounts Bloom Text WalStream
begin

text \<open>
  A verification library for LogLake, a log store that appends to a local write-ahead log (WAL),
  drains sealed WAL segments into an Iceberg table, and answers queries from it.

  \<^bold>\<open>The program and the theories.\<close> Every theory names the Rust file it models; definitions keep the
  names of the Rust functions and types, with a prefix where a name is taken.

  \<^item> \<^bold>\<open>Segment bytes\<close> (\<^verbatim>\<open>crates/loglake-wal/src/lib.rs\<close>). \<^verbatim>\<open>Crc32\<close> has the table-driven CRC-32 and the
    checksumming writer; \<^verbatim>\<open>IpcExtent\<close> the walk over Arrow IPC length prefixes that separates a torn tail
    from corruption; \<^verbatim>\<open>WalFrame\<close> the 52-byte frame header, its verification and the header-only reads.
    Shown: frames read back, any changed body byte and any
    truncation is refused, a crash cut is never taken for corruption, a torn prefix yields
    exactly the complete messages, and reading only the header gives the same answer as reading all.
  \<^item> \<^bold>\<open>Segment lifecycle\<close> (same file). \<^verbatim>\<open>FileSystem\<close> models directories, inodes and the difference between
    what a process sees and what is on disk; \<^verbatim>\<open>crash\<close> picks any disk state the syncs allow. \<^verbatim>\<open>FsLogic\<close> has
    the triples over effects and their rules. \<^verbatim>\<open>WalLifecycle\<close>, \<^verbatim>\<open>WalQuarantine\<close>, \<^verbatim>\<open>WalOrphans\<close> have claim,
    finish, release, quarantine, requeue and the recovery sweep, whole, with every call able to fail.
    The contract of a move is the locale \<^verbatim>\<open>segment_move\<close>, interpreted for each of them; the properties say
    that no failure and no power cut loses the bytes of a segment, and what is where on success.
    \<^verbatim>\<open>WalPins\<close> and \<^verbatim>\<open>WalWriter\<close> have the mirror pins and the appending writer, \<^verbatim>\<open>WalStream\<close> the bytes
    behind the writer.
  \<^item> \<^bold>\<open>Pruning\<close> (\<^verbatim>\<open>crates/loglake-bloom\<close>, \<^verbatim>\<open>crates/loglake-index\<close>). \<^verbatim>\<open>Text\<close> models \<^verbatim>\<open>str\<close> as Unicode scalars
    with their UTF-8 encoding; \<^verbatim>\<open>Bloom\<close> tokenizers, trigrams and bloom filters; \<^verbatim>\<open>GroupCounts\<close> the group-count
    footer; \<^verbatim>\<open>InvertedIndex\<close> the posting lists and their codec. Shown: a row group that holds a match is
    never pruned, the codecs read back what they wrote and accept only well-formed data, a conjunction
    selects exactly the matching rows, and where the substring search is and is not a superset.
  \<^item> \<^bold>\<open>Control loops\<close>. \<^verbatim>\<open>Scaling\<close> (\<^verbatim>\<open>crates/loglake-operator/src/scaling.rs\<close>) has the replica decisions and the
    smoothing; \<^verbatim>\<open>RateLimit\<close> (\<^verbatim>\<open>crates/loglake-ingest/src/rate_limit.rs\<close>, \<^verbatim>\<open>mem_guard.rs\<close>) the two token buckets
    behind one contract, the locale \<^verbatim>\<open>rate_budget\<close>; \<^verbatim>\<open>Admission\<close> (\<^verbatim>\<open>crates/loglake-query-server/src/admission.rs\<close>)
    the memory admission of queries as a step relation over all interleavings. Shown: ranges and
    bounds hold, decisions settle, a stopped tier is woken, and no query sleeps through room for it.
  \<^item> \<^bold>\<open>Compaction merge\<close>. \<^verbatim>\<open>Merge\<close> (\<^verbatim>\<open>crates/loglake-storage/src/merge.rs\<close>) has the run-length merge plan, its chunks
    and the batch-by-batch merge. Shown: the plan terminates and is the sorted order of all rows, chunks
    partition it, and the one timestamp an ascending merge misplaces.
  \<^item> \<^bold>\<open>Mirror\<close> (\<^verbatim>\<open>crates/loglake-wal/src/mirror.rs\<close>). \<^verbatim>\<open>MirrorKeys\<close> has the object keys, the routing of a key on
    recovery, the root markers and the check of a listing against the ledger; \<^verbatim>\<open>MirrorUpload\<close> the upload
    worker with its retries and announcements, and the catch-up sweep. Shown: recovery sends a segment
    back to where its key was made, the ledger verdict is exact, and neither the worker nor the sweep
    lets go of a local pin before the object is in the store and its registration is under way.
  \<^item> \<^bold>\<open>Claim catalog and consumed proof\<close>. \<^verbatim>\<open>CatalogClaim\<close> (\<^verbatim>\<open>crates/loglake-storage/src/catalog_claim.rs\<close>) has one
    definition per SQL statement or transaction and the step relation \<^verbatim>\<open>cstep\<close> over all of them, from any
    machine; \<^verbatim>\<open>ConsumedProof\<close> (\<^verbatim>\<open>crates/loglake-storage/src/consumed_proof.rs\<close>) the durable list of committed
    segments, its coding, and that a watermark stays below every open claim; \<^verbatim>\<open>ProofReclaim\<close> the merge of
    that list into a table commit, its maintenance (\<^verbatim>\<open>iceberg.rs\<close>) and the reclaiming of abandoned claims
    by it (\<^verbatim>\<open>crates/loglake-compactor/src/lib.rs\<close>). Shown: claims are exclusive, the list never loses an
    open claim whatever the ages of what it was compacted by, reclaiming does what the proof says to
    every row, a lease excludes others until it expires, and two races: a second reclaimer takes a
    live claim away, and claims of a foreign shard quarantine a healthy segment.

  \<^bold>\<open>State and effects.\<close> Fallible code returns a sum with the error on the left. File-system code is a
  function from the file system to a result and a file system, whose faults are part of the state.
  Machine integers are words where wrapping matters and naturals or integers where the code cannot
  overflow them. Floating point (\<^verbatim>\<open>Scaling\<close>, \<^verbatim>\<open>RateLimit\<close>) is exact rational arithmetic, so rounding is
  not covered; instants are nanoseconds. The catalog's statements are atomic and each reads a later clock
  than the one before, so skew between the clocks of machines is not covered; a method that reads and
  later writes takes the two catalogs, or the judgement made on the first, as separate arguments where
  the property is about what happens in between.

  \<^bold>\<open>Bounds.\<close> The merge plan runs with one unit of fuel per input row and is shown to need no more; the
  batch loop of the streaming merge runs at most its target number of rows, since each iteration
  emits one. The IPC walk, directory creation and chunk splitting are total functions with a measure.

  \<^bold>\<open>Arguments of the model.\<close> The flatbuffer root reader and the IPC decoder of the arrow crate, zstd, the
  JSON coders of poison notes and of the consumed proof, the object store, the table metadata that
  Iceberg returns, arrow batches, the power of one half and whether Redis answers are
  arguments; where a property depends on what they do, it says so in a hypothesis and a witness
  instantiates it.

  \<^bold>\<open>Not modelled.\<close> Table commits themselves, the SQL planner and executor, the HTTP servers, the Kubernetes
  controllers, the command line and the load generator: they are glue around large libraries. Of the
  mirror, the periodic upload of open segments and the download loops of recovery; of the claim
  catalog, the creation and migration of its schema. Metrics and log lines are left out everywhere.
\<close>

end
